(* ===== verification/Prelude.thy ===== *)
theory Prelude
  imports Main "HOL-Library.Word"
begin

text \<open>
  Shared vocabulary of the development: machine integers, the outcome of a piece of Rust code,
  the state-and-outcome programs that model methods taking \<open>&mut self\<close>, checked arithmetic as
  the development profile of Rust performs it (an overflow panics), and big-endian byte order
  (\<open>to_be_bytes\<close> and \<open>from_be_bytes\<close> of the standard library).
\<close>

unbundle bit_operations_syntax

section \<open>Machine integers\<close>

type_synonym u8 = "8 word"
type_synonym u16 = "16 word"
type_synonym u32 = "32 word"
type_synonym u64 = "64 word"

text \<open>
  A \<open>usize\<close> is a natural number; additions that could pass \<open>2 ^ 64\<close> are checked, casts to
  narrower types truncate (\<open>of_nat\<close> into the word type).
\<close>

type_synonym usize = nat

text \<open>A socket address: an IPv4 address and a port.\<close>

type_synonym socket_addr = "u32 \<times> u16"

named_theorems prog_simps \<open>evaluation of state-and-outcome programs\<close>
named_theorems arith_chk \<open>checked machine arithmetic\<close>

section \<open>Outcomes\<close>

datatype panic =
    ArithOverflow
  | OutOfBounds
  | DivByZero
  | UnwrapFailed
  | TodoReached
  | AssertFailed
  | BufExhausted

datatype error =
    InvalidData
  | IoFailed
  | Utf8Invalid
  | ParseFailed
  | Anyhow string

text \<open>
  The outcome of a Rust expression: a value, an error returned through \<open>Result\<close>, a panic, or
  no outcome at all because a loop does not end.
\<close>

datatype 'a res =
    Ok 'a
  | Err error
  | Panic panic
  | Hang

primrec is_ok :: "'a res \<Rightarrow> bool" where
  "is_ok (Ok a) = True"
| "is_ok (Err e) = False"
| "is_ok (Panic p) = False"
| "is_ok Hang = False"

primrec and_then :: "'a res \<Rightarrow> ('a \<Rightarrow> 'b res) \<Rightarrow> 'b res" where
  "and_then (Ok a) f = f a"
| "and_then (Err e) f = Err e"
| "and_then (Panic p) f = Panic p"
| "and_then Hang f = Hang"

lemma and_then_Ok_iff:
  "and_then r f = Ok b \<longleftrightarrow> (\<exists>a. r = Ok a \<and> f a = Ok b)"
  by (cases r) auto

lemma and_then_Hang_iff:
  "and_then r f = Hang \<longleftrightarrow> r = Hang \<or> (\<exists>a. r = Ok a \<and> f a = Hang)"
  by (cases r) auto

lemma is_ok_iff: "is_ok r \<longleftrightarrow> (\<exists>a. r = Ok a)"
  by (cases r) auto

text \<open>A visitor of \<open>serde\<close> that takes bytes: what it expects, for messages, and what it makes of them.\<close>

record 'p visitor =
  expecting :: string
  visit_bytes :: "u8 list \<Rightarrow> 'p res"

section \<open>Programs over a mutable state\<close>

text \<open>
  A method that takes \<open>&mut self\<close> changes its state whether it returns a value, an error or
  panics half way, so the state is returned beside every outcome.
\<close>

type_synonym ('s, 'a) prog = "'s \<Rightarrow> 'a res \<times> 's"

definition ret :: "'a \<Rightarrow> ('s, 'a) prog" where
  "ret a = (\<lambda>s. (Ok a, s))"

definition lift :: "'a res \<Rightarrow> ('s, 'a) prog" where
  "lift r = (\<lambda>s. (r, s))"

definition bnd :: "('s, 'a) prog \<Rightarrow> ('a \<Rightarrow> ('s, 'b) prog) \<Rightarrow> ('s, 'b) prog" where
  "bnd m f = (\<lambda>s. case m s of
       (Ok a, s') \<Rightarrow> f a s'
     | (Err e, s') \<Rightarrow> (Err e, s')
     | (Panic p, s') \<Rightarrow> (Panic p, s')
     | (Hang, s') \<Rightarrow> (Hang, s'))"

definition modify :: "('s \<Rightarrow> 's) \<Rightarrow> ('s, unit) prog" where
  "modify f = (\<lambda>s. (Ok (), f s))"

definition gets :: "('s \<Rightarrow> 'a) \<Rightarrow> ('s, 'a) prog" where
  "gets f = (\<lambda>s. (Ok (f s), s))"

text \<open>\<open>anyhow::ensure!\<close> and \<open>assert!\<close>.\<close>

definition ensure :: "bool \<Rightarrow> error \<Rightarrow> ('s, unit) prog" where
  "ensure c e = lift (if c then Ok () else Err e)"

definition assert_that :: "bool \<Rightarrow> ('s, unit) prog" where
  "assert_that c = lift (if c then Ok () else Panic AssertFailed)"

text \<open>A program that works on the second component of a pair of states.\<close>

definition zoom_snd :: "('s, 'a) prog \<Rightarrow> ('d \<times> 's, 'a) prog" where
  "zoom_snd m = (\<lambda>(d, s). case m s of (r, s') \<Rightarrow> (r, (d, s')))"

lemma zoom_snd_run [simp]: "m s = (r, s') \<Longrightarrow> zoom_snd m (d, s) = (r, (d, s'))"
  by (simp add: zoom_snd_def)

lemma ret_run [simp, prog_simps]: "ret a s = (Ok a, s)"
  by (simp add: ret_def)

lemma lift_run [simp, prog_simps]: "lift r s = (r, s)"
  by (simp add: lift_def)

lemma modify_run [simp, prog_simps]: "modify f s = (Ok (), f s)"
  by (simp add: modify_def)

lemma gets_run [simp, prog_simps]: "gets f s = (Ok (f s), s)"
  by (simp add: gets_def)

lemma ensure_run [simp, prog_simps]:
  "ensure c e s = ((if c then Ok () else Err e), s)"
  by (simp add: ensure_def)

lemma assert_that_run [simp, prog_simps]:
  "assert_that c s = ((if c then Ok () else Panic AssertFailed), s)"
  by (simp add: assert_that_def)

lemma bnd_Ok [simp, prog_simps]: "m s = (Ok a, s') \<Longrightarrow> bnd m f s = f a s'"
  and bnd_Err [simp, prog_simps]: "m s = (Err e, s') \<Longrightarrow> bnd m f s = (Err e, s')"
  and bnd_Panic [simp, prog_simps]: "m s = (Panic p, s') \<Longrightarrow> bnd m f s = (Panic p, s')"
  and bnd_Hang [simp, prog_simps]: "m s = (Hang, s') \<Longrightarrow> bnd m f s = (Hang, s')"
  by (simp_all add: bnd_def)

lemma bnd_ret [simp]: "bnd (ret a) f = f a"
  by (simp add: bnd_def fun_eq_iff)

lemma bnd_panics: "fst (m s) = Panic p \<Longrightarrow> fst (bnd m f s) = Panic p"
  by (cases "m s") (simp add: bnd_def)

lemma bnd_OkD: "bnd m f s = (Ok b, s') \<Longrightarrow> \<exists>a s1. m s = (Ok a, s1) \<and> f a s1 = (Ok b, s')"
  by (auto simp: bnd_def split: prod.splits res.splits)

lemma bnd_assoc: "bnd (bnd m f) g = bnd m (\<lambda>a. bnd (f a) g)"
  by (auto simp: bnd_def fun_eq_iff split: res.splits prod.splits)

text \<open>
  A predicate transformer: \<open>post m Q s\<close> says that the outcome and final state of \<open>m\<close> started
  in \<open>s\<close> satisfy \<open>Q\<close>, whatever the outcome is.
\<close>

definition post :: "('s, 'a) prog \<Rightarrow> ('a res \<Rightarrow> 's \<Rightarrow> bool) \<Rightarrow> 's \<Rightarrow> bool" where
  "post m Q s = (case m s of (r, s') \<Rightarrow> Q r s')"

lemma postI: "(\<And>r s'. m s = (r, s') \<Longrightarrow> Q r s') \<Longrightarrow> post m Q s"
  by (simp add: post_def split: prod.splits)

lemma postD: "post m Q s \<Longrightarrow> m s = (r, s') \<Longrightarrow> Q r s'"
  by (simp add: post_def)

lemma post_ret [simp]: "post (ret a) Q s = Q (Ok a) s"
  and post_lift [simp]: "post (lift r) Q s = Q r s"
  and post_modify [simp]: "post (modify f) Q s = Q (Ok ()) (f s)"
  and post_gets [simp]: "post (gets g) Q s = Q (Ok (g s)) s"
  by (simp_all add: post_def)

lemma post_ensure [simp]: "post (ensure c e) Q s = (if c then Q (Ok ()) s else Q (Err e) s)"
  by (simp add: post_def)

lemma post_assert [simp]:
  "post (assert_that c) Q s = (if c then Q (Ok ()) s else Q (Panic AssertFailed) s)"
  by (simp add: post_def)

lemma post_bnd:
  "post (bnd m f) Q s =
     post m (\<lambda>r s'. case r of Ok a \<Rightarrow> post (f a) Q s' | Err e \<Rightarrow> Q (Err e) s'
        | Panic p \<Rightarrow> Q (Panic p) s' | Hang \<Rightarrow> Q Hang s') s"
  by (simp add: post_def bnd_def split: prod.splits res.splits)

lemma post_mono: "post m Q s \<Longrightarrow> (\<And>r s'. Q r s' \<Longrightarrow> R r s') \<Longrightarrow> post m R s"
  by (simp add: post_def split: prod.splits)

section \<open>Checked arithmetic\<close>

lemma unat_u8_lt: "unat (x :: u8) < 2 ^ 8"
  and unat_u16_lt: "unat (y :: u16) < 2 ^ 16"
  and unat_u32_lt: "unat (z :: u32) < 2 ^ 32"
  and unat_u64_lt: "unat (w :: u64) < 2 ^ 64"
proof -
  show "unat x < 2 ^ 8" using unsigned_less [of x, where ?'a = nat] by simp
  show "unat y < 2 ^ 16" using unsigned_less [of y, where ?'a = nat] by simp
  show "unat z < 2 ^ 32" using unsigned_less [of z, where ?'a = nat] by simp
  show "unat w < 2 ^ 64" using unsigned_less [of w, where ?'a = nat] by simp
qed

lemma unat_of_nat_u16: "n < 2 ^ 16 \<Longrightarrow> unat (of_nat n :: u16) = n"
  and unat_of_nat_u32: "n < 2 ^ 32 \<Longrightarrow> unat (of_nat n :: u32) = n"
  and unat_of_nat_u64: "n < 2 ^ 64 \<Longrightarrow> unat (of_nat n :: u64) = n"
  by (simp_all add: unat_of_nat take_bit_nat_eq_self)

definition add_chk :: "'a::len word \<Rightarrow> 'a word \<Rightarrow> 'a word res" where
  "add_chk a b = (if unat a + unat b < 2 ^ LENGTH('a) then Ok (a + b) else Panic ArithOverflow)"

definition sub_chk :: "'a::len word \<Rightarrow> 'a word \<Rightarrow> 'a word res" where
  "sub_chk a b = (if b \<le> a then Ok (a - b) else Panic ArithOverflow)"

definition mul_chk :: "'a::len word \<Rightarrow> 'a word \<Rightarrow> 'a word res" where
  "mul_chk a b = (if unat a * unat b < 2 ^ LENGTH('a) then Ok (a * b) else Panic ArithOverflow)"

definition div_chk :: "'a::len word \<Rightarrow> 'a word \<Rightarrow> 'a word res" where
  "div_chk a b = (if b = 0 then Panic DivByZero else Ok (a div b))"

definition usize_add :: "usize \<Rightarrow> usize \<Rightarrow> usize res" where
  "usize_add a b = (if a + b < 2 ^ 64 then Ok (a + b) else Panic ArithOverflow)"

definition usize_sub :: "usize \<Rightarrow> usize \<Rightarrow> usize res" where
  "usize_sub a b = (if b \<le> a then Ok (a - b) else Panic ArithOverflow)"

definition usize_mul :: "usize \<Rightarrow> usize \<Rightarrow> usize res" where
  "usize_mul a b = (if a * b < 2 ^ 64 then Ok (a * b) else Panic ArithOverflow)"

lemma add_chk_Ok_iff [arith_chk]:
  "add_chk (a :: 'a::len word) b = Ok c \<longleftrightarrow>
     unat a + unat b < 2 ^ LENGTH('a) \<and> c = a + b"
  by (auto simp: add_chk_def)

lemma add_chk_unat:
  "add_chk (a :: 'a::len word) b = Ok c \<Longrightarrow> unat c = unat a + unat b"
  by (auto simp: add_chk_def unat_word_ariths split: if_splits)

lemma sub_chk_Ok_iff [arith_chk]: "sub_chk a b = Ok c \<longleftrightarrow> b \<le> a \<and> c = a - b"
  by (auto simp: sub_chk_def)

lemma sub_chk_unat: "sub_chk a b = Ok c \<Longrightarrow> unat c = unat a - unat b"
  by (auto simp: sub_chk_def unat_sub split: if_splits)

lemma mul_chk_unat:
  "mul_chk (a :: 'a::len word) b = Ok c \<Longrightarrow> unat c = unat a * unat b"
  by (auto simp: mul_chk_def unat_word_ariths split: if_splits)

section \<open>Big-endian byte order\<close>

definition from_be :: "u8 list \<Rightarrow> 'a::len word" where
  "from_be bs = foldl (\<lambda>acc b. push_bit 8 acc OR ucast b) 0 bs"

definition to_be :: "nat \<Rightarrow> 'a::len word \<Rightarrow> u8 list" where
  "to_be n x = map (\<lambda>i. ucast (drop_bit (8 * i) x)) (rev [0..<n])"

lemma length_to_be [simp]: "length (to_be n x) = n"
  by (simp add: to_be_def)

lemma to_be_Nil_iff [simp]: "to_be n x = [] \<longleftrightarrow> n = 0"
  by (simp add: to_be_def)

lemma from_be_snoc: "from_be (bs @ [b]) = push_bit 8 (from_be bs) OR ucast b"
  by (simp add: from_be_def)

lemma bit_from_be:
  "bit (from_be bs :: 'a::len word) k \<longleftrightarrow>
     k < LENGTH('a) \<and> k div 8 < length bs \<and> bit (rev bs ! (k div 8)) (k mod 8)"
proof (induction bs arbitrary: k rule: rev_induct)
  case Nil
  then show ?case by (simp add: from_be_def)
next
  case (snoc b bs)
  show ?case
  proof (cases "k < 8")
    case True
    then show ?thesis
      by (auto simp: from_be_snoc bit_simps dest: bit_imp_le_length)
  next
    case False
    then have k: "k div 8 = Suc ((k - 8) div 8)" "k mod 8 = (k - 8) mod 8"
      by (simp_all add: div_if mod_if)
    have "\<not> bit b k"
      using False bit_imp_le_length [of b k] by auto
    with False show ?thesis
      by (auto simp: from_be_snoc bit_simps snoc.IH k)
  qed
qed

lemma to_be_nth: "i < n \<Longrightarrow> rev (to_be n x) ! i = ucast (drop_bit (8 * i) x)"
  by (simp add: to_be_def rev_map)

lemma from_be_to_be: "LENGTH('a) = 8 * n \<Longrightarrow> from_be (to_be n x) = (x :: 'a::len word)"
proof (rule bit_word_eqI)
  fix k assume n: "LENGTH('a) = 8 * n" and k: "k < LENGTH('a)"
  then have "k div 8 < n" by simp
  with k show "bit (from_be (to_be n x) :: 'a word) k = bit x k"
    by (simp add: bit_from_be to_be_nth bit_simps)
qed

lemma to_be_from_be:
  assumes "LENGTH('a::len) = 8 * length bs"
  shows "to_be (length bs) (from_be bs :: 'a word) = bs"
proof -
  have "rev (to_be (length bs) (from_be bs :: 'a word)) = rev bs"
  proof (rule nth_equalityI)
    fix i assume "i < length (rev (to_be (length bs) (from_be bs :: 'a word)))"
    then have i: "i < length bs" by simp
    have "ucast (drop_bit (8 * i) (from_be bs :: 'a word)) = rev bs ! i"
    proof (rule bit_word_eqI)
      fix k assume "k < LENGTH(8)"
      then have k: "k < 8" by simp
      then have "(8 * i + k) div 8 = i" "(8 * i + k) mod 8 = k"
        by (simp_all add: div_mult_self3)
      moreover have "8 * i + k < LENGTH('a)" using assms i k by simp
      ultimately show "bit (ucast (drop_bit (8 * i) (from_be bs :: 'a word)) :: u8) k = bit (rev bs ! i) k"
        using i k by (simp add: bit_simps bit_from_be)
    qed
    with i show "rev (to_be (length bs) (from_be bs :: 'a word)) ! i = rev bs ! i"
      by (simp add: to_be_nth)
  qed simp
  then show ?thesis by simp
qed

section \<open>Chunks of a slice\<close>

text \<open>\<open>chunks_exact\<close> of the standard library: the remainder that is too short is left out.\<close>

function chunks_exact :: "usize \<Rightarrow> 'a list \<Rightarrow> 'a list list" where
  "chunks_exact n v =
     (if 0 < n \<and> n \<le> length v then take n v # chunks_exact n (drop n v) else [])"
  by pat_completeness auto
termination
  by (relation "measure (\<lambda>(n, v). length v)") auto

declare chunks_exact.simps [simp del]

lemma chunks_exact_append:
  "0 < n \<Longrightarrow> length c = n \<Longrightarrow> chunks_exact n (c @ v) = c # chunks_exact n v"
  by (subst chunks_exact.simps) auto

lemma chunks_exact_concat:
  "0 < n \<Longrightarrow> \<forall>c \<in> set cs. length c = n \<Longrightarrow> chunks_exact n (concat cs) = cs"
  by (induction cs) (simp_all add: chunks_exact_append chunks_exact.simps [of n "[]"])

lemma length_concat_same: "\<forall>c \<in> set cs. length c = n \<Longrightarrow> length (concat cs) = n * length cs"
  by (induction cs) auto

lemma length_chunks_exact: "c \<in> set (chunks_exact n v) \<Longrightarrow> length c = n"
proof (induction n v rule: chunks_exact.induct)
  case (1 n v)
  then show ?case by (subst (asm) chunks_exact.simps) (auto split: if_splits)
qed

lemma concat_chunks_exact:
  assumes "0 < n"
  shows "length v mod n = 0 \<Longrightarrow> concat (chunks_exact n v) = v"
proof (induction "length v" arbitrary: v rule: less_induct)
  case less
  show ?case
  proof (cases "n \<le> length v")
    case True
    then have "length (drop n v) mod n = 0"
      using less.prems by (simp add: le_mod_geq)
    with True assms less.hyps [of "drop n v"] show ?thesis
      by (subst chunks_exact.simps) simp
  next
    case False
    then have "v = []" using less.prems by simp
    with assms show ?thesis by (simp add: chunks_exact.simps [of n "[]"])
  qed
qed

section \<open>Byte strings\<close>

definition ascii_bytes :: "string \<Rightarrow> u8 list" where
  "ascii_bytes s = map (\<lambda>c. of_nat (of_char c)) s"

section \<open>Systems that descend\<close>

text \<open>
  A system whose steps keep an invariant and lower a measure: its runs are no longer than the
  measure, and from every state one leads to a state without a step.
\<close>

locale descending =
  fixes step :: "'s \<Rightarrow> 's \<Rightarrow> bool" and inv :: "'s \<Rightarrow> bool" and height :: "'s \<Rightarrow> nat"
  assumes kept: "inv s \<Longrightarrow> step s s' \<Longrightarrow> inv s'"
    and lower: "inv s \<Longrightarrow> step s s' \<Longrightarrow> height s' < height s"
begin

lemma run_bounded: "inv s \<Longrightarrow> (step ^^ k) s s' \<Longrightarrow> inv s' \<and> k + height s' \<le> height s"
proof (induction k arbitrary: s')
  case (Suc k)
  then obtain t where t: "(step ^^ k) s t" "step t s'" by auto
  then have "inv t" "k + height t \<le> height s" using Suc by simp_all
  then show ?case using kept [OF _ t(2)] lower [OF _ t(2)] by simp
qed simp

lemma run_ends: "inv s \<Longrightarrow> \<exists>k s'. (step ^^ k) s s' \<and> \<not> (\<exists>t. step s' t)"
proof (induction "height s" arbitrary: s rule: less_induct)
  case less
  show ?case
  proof (cases "\<exists>t. step s t")
    case True
    then obtain t where t: "step s t" by blast
    then obtain k s' where "(step ^^ k) t s'" "\<not> (\<exists>u. step s' u)"
      using less(1) [OF lower kept] less(2) by blast
    then show ?thesis using t relpowp_Suc_I2 by metis
  next
    case False
    then show ?thesis by (intro exI [of _ 0] exI [of _ s]) simp
  qed
qed

end

end
