(* ===== verification/Bitfield.thy ===== *)
theory Bitfield
  imports Prelude
begin

text \<open>
  The piece bookkeeping of \<open>src/download/bitfield.rs\<close>: which pieces are owned, which piece to
  ask for next, how many are left, and whether a peer's bit vector makes it a seed.
  The first part translates the code, the second states what the operations promise in terms
  of the set of owned pieces and of the ring of missing pieces.
\<close>

section \<open>The code\<close>

definition piece_bucket_offset :: "u32 \<Rightarrow> usize \<times> u8" where
  "piece_bucket_offset piece_idx =
     (let bucket = piece_idx div 8;
          offset = 7 - piece_idx mod 8
      in (unat bucket, ucast offset))"

text \<open>
  \<open>is_seed\<close>: the loop over all bytes but the last returns early, then the bits of the last
  byte are tested one by one up to \<open>total_pieces\<close>.
\<close>

fun last_bits_set :: "u8 list \<Rightarrow> usize list \<Rightarrow> bool res" where
  "last_bits_set bitfield [] = Ok True"
| "last_bits_set bitfield (idx # rest) =
     (let (bucket, offset) = piece_bucket_offset (of_nat idx)
      in if bucket < length bitfield
         then if bitfield ! bucket AND push_bit (unat offset) 1 = 0 then Ok False
              else last_bits_set bitfield rest
         else Panic OutOfBounds)"

definition is_seed :: "usize \<Rightarrow> u8 list \<Rightarrow> bool res" where
  "is_seed total_pieces bitfield =
     (if length bitfield > 1 \<and> \<not> list_all (\<lambda>byte. byte = 255) (butlast bitfield) then Ok False
      else and_then (usize_sub (length bitfield) 1) (\<lambda>n.
           and_then (usize_mul n 8) (\<lambda>last_idx.
             last_bits_set bitfield [last_idx..<total_pieces])))"

record bitfield =
  piece_ownership :: "u8 list"
  total_pieces :: usize
  cur :: usize
  confirmed :: usize

definition from_vec :: "usize \<Rightarrow> u8 list \<Rightarrow> bitfield" where
  "from_vec n v = \<lparr>piece_ownership = v, total_pieces = n, cur = 0, confirmed = 0\<rparr>"

definition zero_pieces :: "u32 \<Rightarrow> bitfield" where
  "zero_pieces num_pieces =
     (let len = (unat num_pieces + 7) div 8
      in \<lparr>piece_ownership = replicate len 0, total_pieces = unat num_pieces, cur = 0, confirmed = 0\<rparr>)"

definition has_piece :: "bitfield \<Rightarrow> u32 \<Rightarrow> bool res" where
  "has_piece b piece_idx =
     (let (bucket, offset) = piece_bucket_offset piece_idx
      in if bucket < length (piece_ownership b)
         then Ok (piece_ownership b ! bucket AND push_bit (unat offset) 1 > 0)
         else Panic OutOfBounds)"

text \<open>
  The loop \<open>while self.confirmed < self.total_pieces\<close> of \<open>pick_piece\<close>. It may run forever
  when every piece is owned but \<open>confirmed\<close> lags behind, hence the \<open>option\<close>.
\<close>

partial_function (option) pick_loop :: "bitfield \<Rightarrow> (u32 option res \<times> bitfield) option" where
  "pick_loop b =
     (if confirmed b < total_pieces b then
        let bit_index = of_nat (cur b) :: u32 in
        if cur b + 1 < 2 ^ 64 then
          let b1 = b\<lparr>cur := cur b + 1\<rparr>;
              b2 = (if cur b1 = total_pieces b1 then b1\<lparr>cur := confirmed b1\<rparr> else b1)
          in case has_piece b2 bit_index of
               Ok owned \<Rightarrow> if \<not> owned then Some (Ok (Some bit_index), b2) else pick_loop b2
             | Err e \<Rightarrow> Some (Err e, b2)
             | Panic p \<Rightarrow> Some (Panic p, b2)
             | Hang \<Rightarrow> Some (Hang, b2)
        else Some (Panic ArithOverflow, b)
      else Some (Ok None, b))"

definition pick_piece :: "(bitfield, u32 option) prog" where
  "pick_piece b =
     (if cur b \<ge> total_pieces b \<and> confirmed b \<ge> total_pieces b then (Ok None, b)
      else case pick_loop b of None \<Rightarrow> (Hang, b) | Some out \<Rightarrow> out)"

text \<open>The loop of \<open>set\<close> that advances \<open>confirmed\<close> over pieces that are already owned.\<close>

function advance_confirmed :: "bitfield \<Rightarrow> unit res \<times> bitfield" where
  "advance_confirmed b =
     (case has_piece b (of_nat (confirmed b)) of
        Ok owned \<Rightarrow>
          if owned then
            if confirmed b + 1 < 2 ^ 64
            then advance_confirmed (b\<lparr>confirmed := confirmed b + 1\<rparr>)
            else (Panic ArithOverflow, b)
          else (Ok (), b)
      | Err e \<Rightarrow> (Err e, b)
      | Panic p \<Rightarrow> (Panic p, b)
      | Hang \<Rightarrow> (Hang, b))"
  by pat_completeness auto
termination
  by (relation "measure (\<lambda>b. 2 ^ 64 - confirmed b)") auto

definition set_piece :: "u32 \<Rightarrow> (bitfield, unit) prog" where
  "set_piece piece_idx b =
     (let (bucket, offset) = piece_bucket_offset piece_idx
      in if bucket < length (piece_ownership b) then
           let b1 = b\<lparr>piece_ownership := (piece_ownership b)
                   [bucket := piece_ownership b ! bucket OR push_bit (unat offset) 1]\<rparr>
           in if confirmed b1 = unat piece_idx
              then advance_confirmed (b1\<lparr>confirmed := confirmed b1 + 1\<rparr>)
              else (Ok (), b1)
         else (Panic OutOfBounds, b))"

definition count_ones :: "u8 \<Rightarrow> u32" where
  "count_ones w = of_nat (length (filter (bit w) [0..<8]))"

definition remaining :: "bitfield \<Rightarrow> u32 res" where
  "remaining b =
     and_then (foldl (\<lambda>acc i. and_then acc (\<lambda>a. add_chk a (count_ones i))) (Ok 0) (piece_ownership b))
       (\<lambda>num_owned. sub_chk (of_nat (total_pieces b)) num_owned)"

text \<open>\<open>Display\<close>: the bytes in binary, padded to eight digits, each followed by a space.\<close>

definition binary8 :: "u8 \<Rightarrow> string" where
  "binary8 bits = map (\<lambda>k. if bit bits (7 - k) then CHR ''1'' else CHR ''0'') [0..<8]"

definition bitfield_display :: "bitfield \<Rightarrow> string" where
  "bitfield_display b = concat (map (\<lambda>bits. binary8 bits @ '' '') (piece_ownership b))"

declare advance_confirmed.simps [simp del]

section \<open>The owned set\<close>

text \<open>Bit \<open>i\<close> of the vector, counted from the most significant bit of the first byte.\<close>

definition bit_at :: "u8 list \<Rightarrow> nat \<Rightarrow> bool" where
  "bit_at v i \<longleftrightarrow> i div 8 < length v \<and> bit (v ! (i div 8)) (7 - i mod 8)"

definition owned :: "bitfield \<Rightarrow> nat set" where
  "owned b = {i. i < total_pieces b \<and> bit_at (piece_ownership b) i}"

text \<open>Piece \<open>i\<close> is shown as the digit \<open>i mod 8\<close> of group \<open>i div 8\<close>.\<close>

lemma length_binary8 [simp]: "length (binary8 x) = 8"
  by (simp add: binary8_def)

lemma display_digit:
  "i div 8 < length v \<Longrightarrow> concat (map (\<lambda>bits. binary8 bits @ '' '') v) ! (i div 8 * 9 + i mod 8) =
     (if bit_at v i then CHR ''1'' else CHR ''0'')"
proof (induction v arbitrary: i)
  case (Cons x v)
  show ?case
  proof (cases "i div 8")
    case 0
    then show ?thesis by (simp add: bit_at_def nth_append binary8_def)
  next
    case (Suc n)
    then have "8 \<le> i" by (cases "i < 8") simp_all
    then obtain j where "i = 8 + j" using le_Suc_ex by blast
    then have "i div 8 = Suc (j div 8)" "i mod 8 = j mod 8" by simp_all
    then show ?thesis using Cons.IH [of j] Cons.prems by (simp add: bit_at_def nth_append)
  qed
qed simp

text \<open>
  The representation invariant: enough bytes and no more, clear padding bits, \<open>confirmed\<close> is the
  first piece that is missing (or the number of pieces), \<open>cur\<close> is a piece index.
\<close>

definition bf_inv :: "bitfield \<Rightarrow> bool" where
  "bf_inv b \<longleftrightarrow>
     total_pieces b < 2 ^ 32 \<and>
     length (piece_ownership b) = (total_pieces b + 7) div 8 \<and>
     (\<forall>i \<ge> total_pieces b. \<not> bit_at (piece_ownership b) i) \<and>
     confirmed b \<le> total_pieces b \<and>
     (\<forall>i < confirmed b. bit_at (piece_ownership b) i) \<and>
     \<not> bit_at (piece_ownership b) (confirmed b) \<and>
     (cur b < total_pieces b \<or> total_pieces b = 0 \<and> cur b = 0)"

text \<open>The missing pieces in the order in which \<open>pick_piece\<close> will offer them.\<close>

definition ring :: "bitfield \<Rightarrow> nat list" where
  "ring b = filter (\<lambda>i. i \<notin> owned b) ([cur b..<total_pieces b] @ [0..<cur b])"

lemma and_push_bit_pos:
  "(x AND push_bit k 1 > (0 :: 'a::len word)) \<longleftrightarrow> bit x k"
  and and_push_bit_zero: "(x AND push_bit k 1 = (0 :: 'a::len word)) \<longleftrightarrow> \<not> bit x k"
proof -
  show *: "(x AND push_bit k 1 = 0) \<longleftrightarrow> \<not> bit x k" for x :: "'a word"
    by (simp add: bit_iff_and_push_bit_not_eq_0)
  show "(x AND push_bit k 1 > 0) \<longleftrightarrow> bit x k"
    using * [of x] by (simp add: word_gt_0)
qed

lemma unat_offset: "unat (ucast (7 - i mod 8 :: u32) :: u8) = 7 - unat i mod 8"
proof -
  have "unat (7 - i mod 8) = 7 - unat i mod 8"
  proof (subst unat_sub)
    have "unat i mod 8 < 8" by simp
    then show "i mod 8 \<le> 7" by (simp add: word_le_nat_alt unat_mod)
  qed (simp add: unat_mod)
  then show ?thesis
    by (simp add: unsigned_ucast_eq take_bit_nat_eq_self)
qed

lemma piece_bucket_offset_eq:
  "piece_bucket_offset i = (unat i div 8, ucast (7 - i mod 8 :: u32))"
  by (simp add: piece_bucket_offset_def Let_def unat_div)

lemma has_piece_eq:
  "has_piece b i =
     (if unat i div 8 < length (piece_ownership b)
      then Ok (bit_at (piece_ownership b) (unat i)) else Panic OutOfBounds)"
  by (simp add: has_piece_def piece_bucket_offset_eq unat_offset and_push_bit_pos bit_at_def
      del: push_bit_of_1)

lemma has_piece_of_nat:
  "n < 2 ^ 32 \<Longrightarrow> has_piece b (of_nat n) =
     (if n div 8 < length (piece_ownership b)
      then Ok (bit_at (piece_ownership b) n) else Panic OutOfBounds)"
  by (simp add: has_piece_eq unat_of_nat_u32)

subsection \<open>A fresh bitfield\<close>

lemma bit_at_replicate [simp]: "\<not> bit_at (replicate n 0) i"
  by (simp add: bit_at_def)

lemma owned_zero [simp]: "owned (zero_pieces n) = {}"
  by (simp add: owned_def zero_pieces_def Let_def)

lemma total_zero [simp]: "total_pieces (zero_pieces n) = unat n"
  by (simp add: zero_pieces_def Let_def)

lemma bf_inv_zero: "bf_inv (zero_pieces n)"
  using unsigned_less [of n]
  by (auto simp: bf_inv_def zero_pieces_def Let_def)

subsection \<open>Marking a piece\<close>

definition mark_bit :: "nat \<Rightarrow> u8 list \<Rightarrow> u8 list" where
  "mark_bit j v = v[j div 8 := v ! (j div 8) OR push_bit (7 - j mod 8) 1]"

lemma length_mark_bit [simp]: "length (mark_bit j v) = length v"
  by (simp add: mark_bit_def)

lemma bit_at_mark:
  assumes "j div 8 < length v"
  shows "bit_at (mark_bit j v) i \<longleftrightarrow> i = j \<or> bit_at v i"
proof (cases "i div 8 = j div 8")
  case True
  have *: "7 - i mod 8 = 7 - j mod 8 \<longleftrightarrow> i = j"
  proof -
    have "i mod 8 < 8" "j mod 8 < 8" by simp_all
    then have "7 - i mod 8 = 7 - j mod 8 \<longleftrightarrow> i mod 8 = j mod 8" by arith
    also have "\<dots> \<longleftrightarrow> i = j" using True by (metis div_mult_mod_eq)
    finally show ?thesis .
  qed
  have "7 - i mod 8 < 8" by simp
  with True assms show ?thesis
    using * by (auto simp: mark_bit_def bit_at_def bit_simps)
next
  case False
  then show ?thesis by (auto simp: mark_bit_def bit_at_def nth_list_update)
qed

text \<open>Where the loop of \<open>set\<close> stops: the first bit that is clear.\<close>

definition first_clear :: "u8 list \<Rightarrow> nat" where
  "first_clear v = (LEAST i. \<not> bit_at v i)"

lemma first_clear_bit: "\<not> bit_at v (first_clear v)"
  unfolding first_clear_def
  by (rule LeastI [of _ "8 * length v"]) (simp add: bit_at_def)

lemma below_first_clear: "i < first_clear v \<Longrightarrow> bit_at v i"
  using not_less_Least first_clear_def by metis

lemma first_clear_le: "\<not> bit_at v i \<Longrightarrow> first_clear v \<le> i"
  by (simp add: first_clear_def Least_le)

lemma advance_confirmed_eq:
  assumes "confirmed b \<le> first_clear (piece_ownership b)"
    and "first_clear (piece_ownership b) < 2 ^ 32"
  shows "advance_confirmed b =
    ((if first_clear (piece_ownership b) div 8 < length (piece_ownership b)
      then Ok () else Panic OutOfBounds),
     b\<lparr>confirmed := first_clear (piece_ownership b)\<rparr>)"
  using assms
proof (induction b rule: advance_confirmed.induct)
  case (1 b)
  let ?v = "piece_ownership b" and ?L = "first_clear (piece_ownership b)"
  from "1.prems" have c: "confirmed b < 2 ^ 32" by simp
  show ?case
  proof (cases "confirmed b = ?L")
    case True
    then have "advance_confirmed b =
      ((if ?L div 8 < length ?v then Ok () else Panic OutOfBounds), b)"
      using first_clear_bit [of ?v] c
      by (subst advance_confirmed.simps) (simp add: has_piece_of_nat)
    with True show ?thesis by (metis (no_types, lifting) bitfield.surjective bitfield.update_convs(4))
  next
    case False
    with "1.prems" have lt: "confirmed b < ?L" by simp
    then have bit: "bit_at ?v (confirmed b)" by (rule below_first_clear)
    then have has: "has_piece b (of_nat (confirmed b)) = Ok True"
      using c by (simp add: has_piece_of_nat) (simp add: bit_at_def)
    have c': "confirmed b + 1 < 2 ^ 64" using c by simp
    have "advance_confirmed (b\<lparr>confirmed := confirmed b + 1\<rparr>) =
      ((if ?L div 8 < length ?v then Ok () else Panic OutOfBounds), b\<lparr>confirmed := ?L\<rparr>)"
      using "1.IH" [OF has _ c'] "1.prems" lt by simp
    then show ?thesis
      using has c' by (subst advance_confirmed.simps) simp
  qed
qed

lemma length_bound:
  "bf_inv b \<Longrightarrow> i < total_pieces b \<Longrightarrow> i div 8 < length (piece_ownership b)"
  by (auto simp: bf_inv_def)

lemma confirmed_first_clear: "bf_inv b \<Longrightarrow> confirmed b = first_clear (piece_ownership b)"
  unfolding bf_inv_def first_clear_def
  by (rule Least_equality [symmetric]) (auto simp: not_less [symmetric])

text \<open>The complete effect of \<open>set\<close> on a well-formed bitfield.\<close>

lemma set_piece_eq:
  assumes inv: "bf_inv b" and i: "unat i < total_pieces b"
  defines "v \<equiv> mark_bit (unat i) (piece_ownership b)"
  shows "set_piece i b =
    ((if confirmed b = unat i \<and> first_clear v div 8 \<ge> length v then Panic OutOfBounds else Ok ()),
     b\<lparr>piece_ownership := v, confirmed := first_clear v\<rparr>)"
proof -
  have len: "unat i div 8 < length (piece_ownership b)"
    using inv i by (rule length_bound)
  have bits: "bit_at v k \<longleftrightarrow> k = unat i \<or> bit_at (piece_ownership b) k" for k
    unfolding v_def by (rule bit_at_mark [OF len])
  have L: "first_clear v \<le> total_pieces b"
    using inv i by (intro first_clear_le) (auto simp: bits bf_inv_def)
  have set_eq: "set_piece i b =
    (if confirmed b = unat i
     then advance_confirmed (b\<lparr>piece_ownership := v, confirmed := confirmed b + 1\<rparr>)
     else (Ok (), b\<lparr>piece_ownership := v\<rparr>))"
    using len by (simp add: set_piece_def piece_bucket_offset_eq unat_offset v_def mark_bit_def)
  show ?thesis
  proof (cases "confirmed b = unat i")
    case True
    have below: "confirmed b + 1 \<le> first_clear v"
    proof (rule ccontr)
      assume "\<not> ?thesis"
      then have "first_clear v \<le> confirmed b" by simp
      then have "bit_at v (first_clear v)"
        using inv True by (cases "first_clear v = confirmed b") (auto simp: bits bf_inv_def)
      with first_clear_bit show False by blast
    qed
    have "first_clear v < 2 ^ 32" using L inv by (simp add: bf_inv_def)
    with below True show ?thesis
      by (simp add: set_eq advance_confirmed_eq)
  next
    case False
    have "first_clear v = confirmed b"
      unfolding first_clear_def
      using inv False by (intro Least_equality) (auto simp: bits bf_inv_def not_less [symmetric])
    with False show ?thesis by (simp add: set_eq)
  qed
qed

lemma set_piece_owned:
  assumes "bf_inv b" and "unat i < total_pieces b" and "set_piece i b = (r, b')"
  shows "bf_inv b'" and "owned b' = insert (unat i) (owned b)"
    and "total_pieces b' = total_pieces b" and "cur b' = cur b"
proof -
  let ?v = "mark_bit (unat i) (piece_ownership b)"
  have b': "b' = b\<lparr>piece_ownership := ?v, confirmed := first_clear ?v\<rparr>"
    using set_piece_eq [OF assms(1,2)] assms(3) by simp
  have bits: "bit_at ?v k \<longleftrightarrow> k = unat i \<or> bit_at (piece_ownership b) k" for k
    by (rule bit_at_mark) (rule length_bound [OF assms(1,2)])
  have L: "first_clear ?v \<le> total_pieces b"
    using assms(1,2) by (intro first_clear_le) (auto simp: bits bf_inv_def)
  show "bf_inv b'"
    using assms(1,2) L first_clear_bit [of ?v] below_first_clear [of _ ?v]
    by (auto simp: bf_inv_def b' bits)
  show "owned b' = insert (unat i) (owned b)"
    using assms(2) by (auto simp: owned_def b' bits)
  show "total_pieces b' = total_pieces b" "cur b' = cur b"
    by (simp_all add: b')
qed

lemma ceil_div_8_le: "l \<le> t \<Longrightarrow> ((t + 7) div 8 \<le> l div 8) \<longleftrightarrow> l = t \<and> t mod 8 = (0::nat)"
proof -
  assume le: "l \<le> t"
  have up: "(t + 7) div 8 = (if t mod 8 = 0 then t div 8 else Suc (t div 8))"
    by presburger
  have "l div 8 \<le> t div 8" using le by (rule div_le_mono)
  moreover have "l = t" if "t mod 8 = 0" "t div 8 \<le> l div 8"
  proof -
    have "t div 8 * 8 \<le> l" using that(2) by (simp add: less_eq_div_iff_mult_less_eq)
    with le that(1) show ?thesis by (simp add: mod_0_imp_dvd)
  qed
  ultimately show ?thesis by (auto simp: up)
qed

text \<open>The outcome: the call panics exactly when it completes a vector that has no padding bit.\<close>

lemma set_piece_outcome:
  assumes inv: "bf_inv b" and i: "unat i < total_pieces b"
  shows "fst (set_piece i b) =
    (if unat i \<notin> owned b \<and> insert (unat i) (owned b) = {..<total_pieces b} \<and> total_pieces b mod 8 = 0
     then Panic OutOfBounds else Ok ())"
proof -
  let ?v = "mark_bit (unat i) (piece_ownership b)"
  have len: "unat i div 8 < length (piece_ownership b)"
    using inv i by (rule length_bound)
  have bits: "bit_at ?v k \<longleftrightarrow> k = unat i \<or> bit_at (piece_ownership b) k" for k
    by (rule bit_at_mark [OF len])
  have L: "first_clear ?v \<le> total_pieces b"
    using inv i by (intro first_clear_le) (auto simp: bits bf_inv_def)
  have "(first_clear ?v div 8 \<ge> length ?v) \<longleftrightarrow>
    first_clear ?v = total_pieces b \<and> total_pieces b mod 8 = 0"
    using ceil_div_8_le [OF L] inv by (simp add: bf_inv_def)
  moreover have "first_clear ?v = total_pieces b \<longleftrightarrow> insert (unat i) (owned b) = {..<total_pieces b}"
  proof
    assume "first_clear ?v = total_pieces b"
    then have "\<And>k. k < total_pieces b \<Longrightarrow> bit_at ?v k" using below_first_clear by metis
    with i show "insert (unat i) (owned b) = {..<total_pieces b}"
      by (auto simp: owned_def bits)
  next
    assume *: "insert (unat i) (owned b) = {..<total_pieces b}"
    then have "\<And>k. k < total_pieces b \<Longrightarrow> bit_at ?v k"
      by (auto simp: owned_def bits)
    then show "first_clear ?v = total_pieces b"
      using L first_clear_bit [of ?v] by (metis le_neq_implies_less)
  qed
  moreover have "confirmed b = unat i \<longleftrightarrow> unat i \<notin> owned b"
    if "insert (unat i) (owned b) = {..<total_pieces b}"
  proof
    show "unat i \<notin> owned b" if "confirmed b = unat i"
      using that inv by (auto simp: bf_inv_def owned_def)
    assume "unat i \<notin> owned b"
    have "first_clear (piece_ownership b) = unat i"
      unfolding first_clear_def
    proof (intro Least_equality)
      show "\<not> bit_at (piece_ownership b) (unat i)"
        using \<open>unat i \<notin> owned b\<close> i by (simp add: owned_def)
      fix k assume k: "\<not> bit_at (piece_ownership b) k"
      show "unat i \<le> k"
      proof (cases "k < total_pieces b")
        case True
        then have "k \<in> insert (unat i) (owned b)" using that by simp
        with k show ?thesis by (simp add: owned_def)
      qed (use i in simp)
    qed
    then show "confirmed b = unat i" using confirmed_first_clear [OF inv] by simp
  qed
  ultimately show ?thesis
    using set_piece_eq [OF inv i] by auto
qed


subsection \<open>Choosing a piece\<close>

lemma in_ring [simp]: "bf_inv b \<Longrightarrow> set (ring b) = {..<total_pieces b} - owned b"
  by (auto simp: ring_def bf_inv_def)

lemma distinct_ring [simp]: "distinct (ring b)"
  by (auto simp: ring_def)

lemma ring_Nil_iff: "bf_inv b \<Longrightarrow> ring b = [] \<longleftrightarrow> confirmed b = total_pieces b"
proof -
  assume inv: "bf_inv b"
  have "ring b = [] \<longleftrightarrow> {..<total_pieces b} - owned b = {}"
    using in_ring [OF inv] by (metis list.set(1) set_empty)
  also have "\<dots> \<longleftrightarrow> confirmed b = total_pieces b"
  proof
    assume *: "{..<total_pieces b} - owned b = {}"
    show "confirmed b = total_pieces b"
    proof (rule ccontr)
      assume "confirmed b \<noteq> total_pieces b"
      then have "confirmed b \<in> {..<total_pieces b} - owned b"
        using inv by (simp add: bf_inv_def owned_def)
      with * show False by blast
    qed
  next
    assume "confirmed b = total_pieces b"
    then show "{..<total_pieces b} - owned b = {}"
      using inv by (auto simp: bf_inv_def owned_def)
  qed
  finally show ?thesis .
qed

lemma ring_at_confirmed:
  assumes "bf_inv b"
  shows "filter (\<lambda>i. i \<notin> owned b) [0..<confirmed b] = []"
  using assms by (auto simp: bf_inv_def owned_def filter_empty_conv)

lemma ring_wrap:
  assumes "bf_inv b"
  shows "ring (b\<lparr>cur := confirmed b\<rparr>) = filter (\<lambda>i. i \<notin> owned b) [0..<total_pieces b]"
proof -
  have "[0..<total_pieces b] = [0..<confirmed b] @ [confirmed b..<total_pieces b]"
    using assms upt_add_eq_append [of 0 "confirmed b" "total_pieces b - confirmed b"]
    by (simp add: bf_inv_def)
  then show ?thesis
    using ring_at_confirmed [OF assms] by (simp add: ring_def owned_def)
qed

lemma has_piece_owned:
  "bf_inv b \<Longrightarrow> i < total_pieces b \<Longrightarrow> has_piece b (of_nat i) = Ok (i \<in> owned b)"
  using length_bound [of b i] by (simp add: has_piece_of_nat bf_inv_def owned_def)

lemma has_piece_cur [simp]: "has_piece (b\<lparr>cur := c\<rparr>) i = has_piece b i"
  by (simp add: has_piece_def split: prod.split)

text \<open>The cursor after one round of the loop.\<close>

definition next_cur :: "bitfield \<Rightarrow> usize" where
  "next_cur b = (if cur b + 1 = total_pieces b then confirmed b else cur b + 1)"

lemma pick_loop_step:
  assumes "bf_inv b" and "confirmed b < total_pieces b"
  shows "pick_loop b =
    (if cur b \<in> owned b then pick_loop (b\<lparr>cur := next_cur b\<rparr>)
     else Some (Ok (Some (of_nat (cur b))), b\<lparr>cur := next_cur b\<rparr>))"
proof -
  let ?b = "b\<lparr>cur := next_cur b\<rparr>"
  have cur: "cur b < total_pieces b" "total_pieces b < 2 ^ 32"
    using assms by (auto simp: bf_inv_def)
  have "has_piece ?b (of_nat (cur b)) = Ok (cur b \<in> owned b)"
    using has_piece_owned [OF assms(1) cur(1)] by simp
  moreover have "(if cur b + 1 = total_pieces b then b\<lparr>cur := confirmed b\<rparr> else b\<lparr>cur := cur b + 1\<rparr>) = ?b"
    by (simp add: next_cur_def)
  ultimately show ?thesis
    using assms(2) cur by (subst pick_loop.simps) (auto simp: next_cur_def)
qed

lemma next_cur_inv:
  "bf_inv b \<Longrightarrow> confirmed b < total_pieces b \<Longrightarrow> bf_inv (b\<lparr>cur := next_cur b\<rparr>)"
  by (auto simp: bf_inv_def next_cur_def)

lemma ring_next_cur:
  assumes "bf_inv b" and "confirmed b < total_pieces b"
  shows "ring (b\<lparr>cur := next_cur b\<rparr>) =
    (if cur b \<in> owned b then ring b else rotate1 (ring b))"
proof -
  let ?miss = "\<lambda>i. i \<notin> owned b"
  have cur: "cur b < total_pieces b" using assms by (auto simp: bf_inv_def)
  have ring: "ring b = filter ?miss [cur b] @ filter ?miss [Suc (cur b)..<total_pieces b] @
      filter ?miss [0..<cur b]"
    using cur by (simp add: ring_def upt_conv_Cons)
  have own: "owned (b\<lparr>cur := c\<rparr>) = owned b" for c by (simp add: owned_def)
  show ?thesis
  proof (cases "cur b + 1 = total_pieces b")
    case True
    have "filter ?miss [0..<total_pieces b] = filter ?miss [0..<cur b] @ filter ?miss [cur b]"
      using True by (metis Suc_eq_plus1 filter_append le0 upt_Suc_append)
    then show ?thesis
      using True ring_wrap [OF assms(1)] ring by (simp add: next_cur_def)
  next
    case False
    then show ?thesis
      using ring by (simp add: next_cur_def ring_def own)
  qed
qed

text \<open>
  The loop returns as soon as some piece is missing: the head of the ring, which moves to its
  end. The distance from the cursor to the next missing piece bounds the number of rounds.
\<close>

lemma pick_loop_ring:
  assumes "bf_inv b" and "confirmed b < total_pieces b"
  shows "\<exists>c. pick_loop b = Some (Ok (Some (of_nat (hd (ring b)))), b\<lparr>cur := c\<rparr>)
    \<and> bf_inv (b\<lparr>cur := c\<rparr>) \<and> ring (b\<lparr>cur := c\<rparr>) = rotate1 (ring b)"
  using assms
proof (induction "if cur b \<le> confirmed b then confirmed b - cur b
    else total_pieces b - cur b + 1" arbitrary: b rule: less_induct)
  case less
  let ?b = "b\<lparr>cur := next_cur b\<rparr>"
  have cur: "cur b < total_pieces b" using less.prems by (auto simp: bf_inv_def)
  show ?case
  proof (cases "cur b \<in> owned b")
    case False
    then have "hd (ring b) = cur b" using cur by (simp add: ring_def upt_conv_Cons)
    with False show ?thesis
      using pick_loop_step [OF less.prems] next_cur_inv [OF less.prems] ring_next_cur [OF less.prems]
      by auto
  next
    case True
    then have ne: "cur b \<noteq> confirmed b" using less.prems by (auto simp: bf_inv_def owned_def)
    have "\<exists>c. pick_loop ?b = Some (Ok (Some (of_nat (hd (ring ?b)))), ?b\<lparr>cur := c\<rparr>)
      \<and> bf_inv (?b\<lparr>cur := c\<rparr>) \<and> ring (?b\<lparr>cur := c\<rparr>) = rotate1 (ring ?b)"
    proof (rule less.hyps)
      show "bf_inv ?b" by (rule next_cur_inv [OF less.prems])
      show "confirmed ?b < total_pieces ?b" using less.prems by simp
      show "(if cur ?b \<le> confirmed ?b then confirmed ?b - cur ?b else total_pieces ?b - cur ?b + 1)
        < (if cur b \<le> confirmed b then confirmed b - cur b else total_pieces b - cur b + 1)"
        using ne cur by (auto simp: next_cur_def)
    qed
    with True show ?thesis
      using pick_loop_step [OF less.prems] ring_next_cur [OF less.prems] by simp
  qed
qed

lemma pick_piece_None:
  assumes "bf_inv b" and "ring b = []"
  shows "pick_piece b = (Ok None, b)"
proof -
  have "confirmed b = total_pieces b" using assms by (simp add: ring_Nil_iff)
  then show ?thesis
    by (simp add: pick_piece_def pick_loop.simps [of b])
qed

lemma pick_piece_Some:
  assumes "bf_inv b" and "ring b = i # is"
  shows "\<exists>c. pick_piece b = (Ok (Some (of_nat i)), b\<lparr>cur := c\<rparr>) \<and> bf_inv (b\<lparr>cur := c\<rparr>)
    \<and> ring (b\<lparr>cur := c\<rparr>) = is @ [i]"
proof -
  have "confirmed b \<noteq> total_pieces b" using assms ring_Nil_iff by force
  then have lt: "confirmed b < total_pieces b" using assms(1) by (simp add: bf_inv_def)
  from pick_loop_ring [OF assms(1) lt] assms(2) lt show ?thesis
    by (auto simp: pick_piece_def)
qed

subsection \<open>Counting what is left\<close>

definition ones :: "u8 \<Rightarrow> nat" where
  "ones w = length (filter (bit w) [0..<8])"

lemma ones_card: "ones w = card {k. k < 8 \<and> bit w k}"
proof -
  have "ones w = card (set (filter (bit w) [0..<8]))"
    unfolding ones_def by (rule distinct_card [symmetric]) simp
  also have "set (filter (bit w) [0..<8]) = {k. k < 8 \<and> bit w k}" by auto
  finally show ?thesis .
qed

lemma ones_le: "ones w \<le> 8"
  unfolding ones_def by (rule order_trans [OF length_filter_le]) simp

lemma unat_count_ones: "unat (count_ones w) = ones w"
  using ones_le [of w] by (simp add: count_ones_def ones_def [symmetric] unat_of_nat_u32)

lemma bit_at_Cons:
  "{i. bit_at (w # v) i} = (\<lambda>k. 7 - k) ` {k. k < 8 \<and> bit w k} \<union> (\<lambda>i. i + 8) ` {i. bit_at v i}"
  (is "?L = ?R")
proof (rule set_eqI)
  fix i
  show "i \<in> ?L \<longleftrightarrow> i \<in> ?R"
  proof (cases "i < 8")
    case True
    then have "i \<in> ?L \<longleftrightarrow> bit w (7 - i)" by (simp add: bit_at_def)
    also have "\<dots> \<longleftrightarrow> i \<in> (\<lambda>k. 7 - k) ` {k. k < 8 \<and> bit w k}"
      using True by (auto intro!: image_eqI [of _ _ "7 - i"])
    finally show ?thesis using True by auto
  next
    case False
    then obtain j where j: "i = j + 8" by (metis add.commute le_add_diff_inverse not_less)
    have "(j + 8) div 8 = Suc (j div 8)" "(j + 8) mod 8 = j mod 8" by simp_all
    with j have "i \<in> ?L \<longleftrightarrow> bit_at v j" by (simp only: bit_at_def mem_Collect_eq) simp
    then show ?thesis using j by auto
  qed
qed

lemma finite_bit_at: "finite {i. bit_at v i}"
  by (rule finite_subset [of _ "{..< 8 * length v}"]) (auto simp: bit_at_def)

lemma card_bit_at: "card {i. bit_at v i} = sum_list (map ones v)"
proof (induction v)
  case Nil
  then show ?case by (simp add: bit_at_def)
next
  case (Cons w v)
  have "card {i. bit_at (w # v) i} = card ((\<lambda>k. 7 - k) ` {k::nat. k < 8 \<and> bit w k}) +
      card ((\<lambda>i. i + 8) ` {i. bit_at v i})"
    unfolding bit_at_Cons by (rule card_Un_disjoint) (auto simp: finite_bit_at)
  also have "card ((\<lambda>k. 7 - k) ` {k::nat. k < 8 \<and> bit w k}) = ones w"
    unfolding ones_card by (rule card_image) (auto simp: inj_on_def)
  also have "card ((\<lambda>i. i + 8) ` {i. bit_at v i}) = card {i. bit_at v i}"
    by (rule card_image) simp
  finally show ?case using Cons.IH by simp
qed

lemma foldl_count:
  "unat a + sum_list (map ones v) < 2 ^ 32 \<Longrightarrow>
   \<exists>c. foldl (\<lambda>acc i. and_then acc (\<lambda>a. add_chk a (count_ones i))) (Ok a) v = Ok c
     \<and> unat c = unat a + sum_list (map ones v)"
proof (induction v arbitrary: a)
  case Nil
  then show ?case by simp
next
  case (Cons w v)
  have sum: "unat a + ones w < 2 ^ LENGTH(32)" using Cons.prems by simp
  then have step: "add_chk a (count_ones w) = Ok (a + count_ones w)"
    by (simp add: add_chk_def unat_count_ones)
  then have u: "unat (a + count_ones w) = unat a + ones w"
    using add_chk_unat [OF step] by (simp add: unat_count_ones)
  show ?case
    using Cons.IH [of "a + count_ones w"] Cons.prems step u by (simp add: add.assoc)
qed

lemma owned_all_bits: "bf_inv b \<Longrightarrow> owned b = {i. bit_at (piece_ownership b) i}"
  by (auto simp: owned_def bf_inv_def not_less [symmetric])

lemma finite_owned [simp]: "finite (owned b)"
  by (simp add: owned_def)

lemma length_ring: "bf_inv b \<Longrightarrow> length (ring b) = total_pieces b - card (owned b)"
proof -
  assume inv: "bf_inv b"
  have "length (ring b) = card ({..<total_pieces b} - owned b)"
    using in_ring [OF inv] distinct_card [OF distinct_ring] by metis
  also have "\<dots> = total_pieces b - card (owned b)"
    by (subst card_Diff_subset) (auto simp: owned_def)
  finally show ?thesis .
qed

lemma remaining_ring: "bf_inv b \<Longrightarrow> remaining b = Ok (of_nat (length (ring b)))"
proof -
  assume inv: "bf_inv b"
  let ?n = "sum_list (map ones (piece_ownership b))"
  have n: "card (owned b) = ?n" using owned_all_bits [OF inv] card_bit_at by metis
  have "card (owned b) \<le> card {..<total_pieces b}"
    by (rule card_mono) (auto simp: owned_def)
  then have le: "?n \<le> total_pieces b" using n by simp
  have tot: "total_pieces b < 2 ^ 32" using inv by (simp add: bf_inv_def)
  then obtain c where c: "foldl (\<lambda>acc i. and_then acc (\<lambda>a. add_chk a (count_ones i))) (Ok 0)
      (piece_ownership b) = Ok c" and uc: "unat c = ?n"
    using foldl_count [of 0 "piece_ownership b"] le by auto
  have "c \<le> of_nat (total_pieces b)"
    using uc le tot by (simp add: word_le_nat_alt unat_of_nat_u32)
  moreover have "of_nat (total_pieces b) - c = of_nat (length (ring b))"
    using uc le n length_ring [OF inv] by (simp add: of_nat_diff flip: uc)
  ultimately show ?thesis
    using c by (simp add: remaining_def sub_chk_def)
qed

lemma remaining_zero_iff:
  "bf_inv b \<Longrightarrow> remaining b = Ok 0 \<longleftrightarrow> owned b = {..<total_pieces b}"
proof -
  assume inv: "bf_inv b"
  have "length (ring b) < 2 ^ 32" using length_ring [OF inv] inv unfolding bf_inv_def by linarith
  then have "remaining b = Ok 0 \<longleftrightarrow> ring b = []"
    using remaining_ring [OF inv] unat_of_nat_u32 [of "length (ring b)"] by auto
  also have "\<dots> \<longleftrightarrow> {..<total_pieces b} - owned b = {}"
    using in_ring [OF inv] by (metis list.set(1) set_empty)
  also have "\<dots> \<longleftrightarrow> owned b = {..<total_pieces b}" by (auto simp: owned_def)
  finally show ?thesis .
qed

subsection \<open>Recognising a seed\<close>

lemma byte_255_iff: "(w :: u8) = 255 \<longleftrightarrow> (\<forall>k < 8. bit w k)"
proof
  assume "w = 255"
  then have "w = mask 8" by (simp add: mask_eq_decr_exp)
  then show "\<forall>k < 8. bit w k" by (simp add: bit_mask_iff)
next
  assume all: "\<forall>k < 8. bit w k"
  have "w = mask 8" by (rule bit_word_eqI) (use all in \<open>simp add: bit_mask_iff\<close>)
  then show "w = 255" by (simp add: mask_eq_decr_exp)
qed

lemma last_bits_set_eq:
  "(\<And>i. i \<in> set is \<Longrightarrow> i div 8 < length v \<and> i < 2 ^ 32) \<Longrightarrow>
   last_bits_set v is = Ok (\<forall>i \<in> set is. bit_at v i)"
proof (induction "is")
  case Nil
  then show ?case by simp
next
  case (Cons i "is")
  have i: "i div 8 < length v" "unat (of_nat i :: u32) = i"
    using Cons.prems by (auto simp: unat_of_nat_u32)
  have IH: "last_bits_set v is = Ok (\<forall>i \<in> set is. bit_at v i)"
    using Cons by simp
  have off: "unat (ucast (7 - of_nat i mod 8 :: u32) :: u8) = 7 - i mod 8"
    using unat_offset [of "of_nat i"] i(2) by simp
  show ?case
    using i IH by (simp add: piece_bucket_offset_eq off and_push_bit_zero bit_at_def del: push_bit_of_1)
qed

lemma butlast_bits:
  assumes "v \<noteq> []"
  shows "list_all (\<lambda>byte. byte = 255) (butlast v) \<longleftrightarrow> (\<forall>i < (length v - 1) * 8. bit_at v i)"
proof -
  have "list_all (\<lambda>byte. byte = 255) (butlast v) \<longleftrightarrow> (\<forall>j < length v - 1. \<forall>k < 8. bit (v ! j) k)"
    by (simp add: list_all_length nth_butlast byte_255_iff)
  also have "\<dots> \<longleftrightarrow> (\<forall>i < (length v - 1) * 8. bit_at v i)"
  proof (intro iffI allI impI)
    fix i assume all: "\<forall>j < length v - 1. \<forall>k < 8. bit (v ! j) k" and i: "i < (length v - 1) * 8"
    then have "i div 8 < length v - 1" by (simp add: less_mult_imp_div_less)
    with all show "bit_at v i" by (simp add: bit_at_def)
  next
    fix j k :: nat
    assume all: "\<forall>i < (length v - 1) * 8. bit_at v i" and j: "j < length v - 1" and k: "k < 8"
    have "(7 - k) + 8 * j < (length v - 1) * 8" using j k by linarith
    with all have "bit_at v ((7 - k) + 8 * j)" by blast
    moreover have "((7 - k) + 8 * j) div 8 = j" "((7 - k) + 8 * j) mod 8 = 7 - k"
      using k by (simp_all only: div_mult_self2 mod_mult_self2) simp_all
    moreover have "7 - (7 - k) = k" using k by simp
    ultimately show "bit (v ! j) k" by (simp add: bit_at_def)
  qed
  finally show ?thesis .
qed

text \<open>On a vector of the right length the test decides whether every piece bit is set.\<close>

lemma is_seed_exact:
  assumes "0 < n" and "n < 2 ^ 32" and len: "length v = (n + 7) div 8"
  shows "is_seed n v = Ok (\<forall>i < n. bit_at v i)"
proof -
  let ?l = "(length v - 1) * 8"
  have v: "v \<noteq> []" using assms by auto
  have l: "?l < n" "?l \<le> n" "?l < 2 ^ 64" using assms by auto
  have last: "last_bits_set v [?l..<n] = Ok (\<forall>i \<in> set [?l..<n]. bit_at v i)"
    by (rule last_bits_set_eq) (use assms in auto)
  have split: "(\<forall>i < n. bit_at v i) \<longleftrightarrow>
      (\<forall>i < ?l. bit_at v i) \<and> (\<forall>i \<in> set [?l..<n]. bit_at v i)"
    using l by (auto simp: not_less [symmetric])
  have pre: "length v > 1 \<and> \<not> list_all (\<lambda>byte. byte = 255) (butlast v) \<longleftrightarrow>
      \<not> (\<forall>i < ?l. bit_at v i)"
    using v butlast_bits [OF v] by (cases v) auto
  show ?thesis
  proof (cases "\<forall>i < ?l. bit_at v i")
    case True
    then show ?thesis
      using last l v unfolding is_seed_def pre split
      by (simp add: usize_sub_def usize_mul_def Suc_le_eq)
  next
    case False
    then show ?thesis unfolding is_seed_def pre split by simp
  qed
qed

lemma last_bits_set_append:
  "last_bits_set v (xs @ ys) =
     (case last_bits_set v xs of Ok True \<Rightarrow> last_bits_set v ys | r \<Rightarrow> r)"
  by (induction xs) (auto split: prod.split)

lemma last_bits_set_short:
  assumes "l \<le> 8 * length v" and "8 * length v < n" and "n < 2 ^ 32"
  shows "last_bits_set v [l..<n] =
    (if \<forall>i \<in> {l..<8 * length v}. bit_at v i then Panic OutOfBounds else Ok False)"
proof -
  have "[l..<n] = [l..<8 * length v] @ [8 * length v..<n]"
    using upt_add_eq_append [of l "8 * length v" "n - 8 * length v"] assms by simp
  moreover have "last_bits_set v [l..<8 * length v] = Ok (\<forall>i \<in> set [l..<8 * length v]. bit_at v i)"
    by (rule last_bits_set_eq) (use assms in \<open>auto simp: less_mult_imp_div_less mult.commute\<close>)
  moreover have "last_bits_set v [8 * length v..<n] = Panic OutOfBounds"
  proof -
    have "unat (of_nat (8 * length v) :: u32) = 8 * length v" using assms by (intro unat_of_nat_u32) simp
    then show ?thesis using assms(2) by (simp add: upt_conv_Cons piece_bucket_offset_eq)
  qed
  ultimately show ?thesis by (cases "\<forall>i \<in> {l..<8 * length v}. bit_at v i") (simp_all add: last_bits_set_append)
qed

text \<open>
  On any vector: every bit of the bytes before the last is looked at, and the bits of the last
  byte that belong to pieces; then the index runs out of the vector if it is too short.
\<close>

lemma is_seed_eq:
  assumes n: "n < 2 ^ 32" and len: "length v < 2 ^ 61"
  shows "is_seed n v =
    (if v = [] then Panic ArithOverflow
     else if \<exists>i < 8 * length v. (i < n \<or> i < 8 * (length v - 1)) \<and> \<not> bit_at v i then Ok False
     else if 8 * length v < n then Panic OutOfBounds else Ok True)"
proof (cases "v = []")
  case True
  then show ?thesis by (simp add: is_seed_def usize_sub_def)
next
  case False
  let ?l = "(length v - 1) * 8"
  have l: "?l < 8 * length v" "?l < 2 ^ 64" "1 \<le> length v" using False len by (cases v; simp)+
  have pre: "length v > 1 \<and> \<not> list_all (\<lambda>byte. byte = 255) (butlast v) \<longleftrightarrow> \<not> (\<forall>i < ?l. bit_at v i)"
    using False butlast_bits [OF False] by (cases v) auto
  have seed: "is_seed n v = (if \<forall>i < ?l. bit_at v i then last_bits_set v [?l..<n] else Ok False)"
    using l unfolding is_seed_def pre
    by (cases "\<forall>i < ?l. bit_at v i") (auto simp: usize_sub_def usize_mul_def)
  have split: "(\<exists>i < 8 * length v. (i < n \<or> i < 8 * (length v - 1)) \<and> \<not> bit_at v i) \<longleftrightarrow>
      \<not> (\<forall>i < ?l. bit_at v i) \<or> \<not> (\<forall>i \<in> {?l..<min n (8 * length v)}. bit_at v i)"
  proof -
    have "i < 8 * length v \<and> (i < n \<or> i < 8 * (length v - 1)) \<longleftrightarrow> i < ?l \<or> i \<in> {?l..<min n (8 * length v)}" for i
      unfolding mult.commute [of 8 "length v - 1"] using l(1) by (simp only: atLeastLessThan_iff min_less_iff_conj) linarith
    then show ?thesis by blast
  qed
  show ?thesis
  proof (cases "8 * length v < n")
    case True
    then have "min n (8 * length v) = 8 * length v" by simp
    then show ?thesis
      unfolding seed split using last_bits_set_short [OF _ True n, of ?l] l(1) False True by auto
  next
    case fits: False
    have "last_bits_set v [?l..<n] = Ok (\<forall>i \<in> set [?l..<n]. bit_at v i)"
      by (rule last_bits_set_eq) (use fits n in auto)
    moreover have "min n (8 * length v) = n" using fits by simp
    ultimately show ?thesis unfolding seed split using False fits by auto
  qed
qed

text \<open>With a bit for every piece it does not panic.\<close>

lemma is_seed_long:
  assumes "n < 2 ^ 32" and "length v < 2 ^ 61" and "v \<noteq> []" and "n \<le> 8 * length v"
  shows "is_seed n v = Ok (\<forall>i < max n (8 * (length v - 1)). bit_at v i)"
proof -
  have "i < 8 * length v \<and> (i < n \<or> i < 8 * (length v - 1)) \<longleftrightarrow> i < max n (8 * (length v - 1))" for i
    using assms(4) by auto
  then have "(\<exists>i < 8 * length v. (i < n \<or> i < 8 * (length v - 1)) \<and> \<not> bit_at v i) \<longleftrightarrow>
      \<not> (\<forall>i < max n (8 * (length v - 1)). bit_at v i)" by blast
  then show ?thesis unfolding is_seed_eq [OF assms(1,2)] using assms(3,4) by auto
qed

section \<open>The interface the downloader relies on\<close>

text \<open>
  A picker hands out missing pieces; its abstract state is the ring of missing pieces, rotated
  by every pick. The scheduler adds the confirmation of a piece, which leaves the ring, and the
  count of what is left.
\<close>

primrec run_picks :: "('s, u32 option) prog \<Rightarrow> nat \<Rightarrow> 's \<Rightarrow> u32 option res list \<times> 's" where
  "run_picks pick 0 s = ([], s)"
| "run_picks pick (Suc n) s =
     (let (r, s1) = pick s; (rs, s2) = run_picks pick n s1 in (r # rs, s2))"

locale piece_picker =
  fixes pick :: "('s, u32 option) prog"
    and ring_of :: "'s \<Rightarrow> nat list"
    and invar :: "'s \<Rightarrow> bool"
  assumes pick_none: "invar s \<Longrightarrow> ring_of s = [] \<Longrightarrow> pick s = (Ok None, s)"
    and pick_head: "invar s \<Longrightarrow> ring_of s = i # is \<Longrightarrow>
      \<exists>s'. pick s = (Ok (Some (of_nat i)), s') \<and> invar s' \<and> ring_of s' = is @ [i]"
begin

lemma pick_cases:
  assumes "invar s"
  obtains "ring_of s = []" "pick s = (Ok None, s)"
    | i "is" s' where "ring_of s = i # is" "pick s = (Ok (Some (of_nat i)), s')" "invar s'"
        "ring_of s' = is @ [i]"
  using assms pick_none pick_head by (cases "ring_of s") blast+

lemma pick_keeps: "invar s \<Longrightarrow> pick s = (r, s') \<Longrightarrow> invar s' \<and> set (ring_of s') = set (ring_of s)"
proof -
  assume inv: "invar s" and r: "pick s = (r, s')"
  from inv inv r show "invar s' \<and> set (ring_of s') = set (ring_of s)"
    by (cases rule: pick_cases) auto
qed

lemma run_picks_ring:
  "invar s \<Longrightarrow> ring_of s = xs @ ys \<Longrightarrow>
   \<exists>s'. run_picks pick (length xs) s = (map (\<lambda>i. Ok (Some (of_nat i))) xs, s')
     \<and> invar s' \<and> ring_of s' = ys @ xs"
proof (induction xs arbitrary: s ys)
  case Nil
  then show ?case by simp
next
  case (Cons i xs)
  then obtain s1 where s1: "pick s = (Ok (Some (of_nat i)), s1)" "invar s1"
      "ring_of s1 = xs @ (ys @ [i])"
    using pick_head [of s i "xs @ ys"] by auto
  from Cons.IH [OF s1(2,3)] obtain s' where
    "run_picks pick (length xs) s1 = (map (\<lambda>i. Ok (Some (of_nat i))) xs, s')"
    "invar s'" "ring_of s' = (ys @ [i]) @ xs" by blast
  with s1 show ?case by simp
qed

lemma full_round:
  assumes "invar s"
  shows "\<exists>s'. run_picks pick (length (ring_of s)) s =
      (map (\<lambda>i. Ok (Some (of_nat i))) (ring_of s), s') \<and> invar s' \<and> ring_of s' = ring_of s"
  using run_picks_ring [OF assms, of "ring_of s" "[]"] by simp

end

lemma filter_neq_removeAll: "filter (\<lambda>j. j \<noteq> i) xs = removeAll i xs"
  by (induction xs) auto

locale piece_scheduler = piece_picker +
  fixes confirm :: "u32 \<Rightarrow> ('s, unit) prog"
    and left :: "'s \<Rightarrow> u32 res"
  assumes confirm_ring: "invar s \<Longrightarrow> i \<in> set (ring_of s) \<Longrightarrow> confirm (of_nat i) s = (r, s') \<Longrightarrow>
      invar s' \<and> ring_of s' = filter (\<lambda>j. j \<noteq> i) (ring_of s)"
    and left_ring: "invar s \<Longrightarrow> left s = Ok (of_nat (length (ring_of s)))"
    and ring_bound: "invar s \<Longrightarrow> distinct (ring_of s) \<and> length (ring_of s) < 2 ^ 32"
begin

lemma left_zero_iff: "invar s \<Longrightarrow> left s = Ok 0 \<longleftrightarrow> ring_of s = []"
  using left_ring [of s] ring_bound [of s] unat_of_nat_u32 [of "length (ring_of s)"] by auto

lemma confirm_left:
  assumes "invar s" and "i \<in> set (ring_of s)" and "confirm (of_nat i) s = (r, s')"
  shows "\<exists>n. left s = Ok n \<and> 0 < n \<and> left s' = Ok (n - 1)"
proof -
  have s': "invar s'" "ring_of s' = filter (\<lambda>j. j \<noteq> i) (ring_of s)"
    using confirm_ring [OF assms] by auto
  have "filter (\<lambda>j. j \<noteq> i) (ring_of s) = remove1 i (ring_of s)"
    using ring_bound [OF assms(1)] by (simp add: distinct_remove1_removeAll filter_neq_removeAll)
  then have "length (filter (\<lambda>j. j \<noteq> i) (ring_of s)) = length (ring_of s) - 1"
    using assms(2) by (simp add: length_remove1)
  moreover have pos: "0 < length (ring_of s)" using assms(2) by (metis length_pos_if_in_set)
  moreover have "(of_nat (length (ring_of s) - 1) :: u32) = of_nat (length (ring_of s)) - 1"
    using pos by (cases "length (ring_of s)") simp_all
  ultimately have "left s' = Ok (of_nat (length (ring_of s)) - 1)"
    using left_ring [OF s'(1)] s'(2) by simp
  moreover have "(0 :: u32) < of_nat (length (ring_of s))"
    using pos ring_bound [OF assms(1)] by (simp add: word_less_nat_alt unat_of_nat_u32)
  ultimately show ?thesis using left_ring [OF assms(1)] by blast
qed

end

interpretation bf: piece_picker pick_piece ring bf_inv
proof unfold_locales
  show "pick_piece s = (Ok None, s)" if "bf_inv s" "ring s = []" for s
    using that by (rule pick_piece_None)
  show "\<exists>s'. pick_piece s = (Ok (Some (of_nat i)), s') \<and> bf_inv s' \<and> ring s' = is @ [i]"
    if "bf_inv s" "ring s = i # is" for s i "is"
    using pick_piece_Some [OF that] by blast
qed

lemma ring_lt: "bf_inv b \<Longrightarrow> i \<in> set (ring b) \<Longrightarrow> i < total_pieces b \<and> i < 2 ^ 32"
  by (simp add: bf_inv_def)

lemma set_piece_ring:
  assumes inv: "bf_inv b" and i: "i \<in> set (ring b)" and run: "set_piece (of_nat i) b = (r, b')"
  shows "bf_inv b' \<and> ring b' = filter (\<lambda>j. j \<noteq> i) (ring b)"
proof -
  have u: "unat (of_nat i :: u32) = i" using ring_lt [OF inv i] by (simp add: unat_of_nat_u32)
  then have lt: "unat (of_nat i :: u32) < total_pieces b" using ring_lt [OF inv i] by simp
  note s = set_piece_owned [OF inv lt run]
  show ?thesis
    using s u by (auto simp: ring_def conj_commute)
qed

interpretation bf: piece_scheduler pick_piece ring bf_inv set_piece remaining
proof unfold_locales
  show "bf_inv s' \<and> ring s' = filter (\<lambda>j. j \<noteq> i) (ring s)"
    if "bf_inv s" "i \<in> set (ring s)" "set_piece (of_nat i) s = (r, s')" for s i r s'
    using that by (rule set_piece_ring)
  show "remaining s = Ok (of_nat (length (ring s)))" if "bf_inv s" for s
    using that by (rule remaining_ring)
  show "distinct (ring s) \<and> length (ring s) < 2 ^ 32" if "bf_inv s" for s
    using length_ring [OF that] that unfolding bf_inv_def by simp linarith
qed

section \<open>Properties\<close>

text \<open>
  C1. Marking a piece of a well-formed bitfield adds exactly that piece to the owned set and
  keeps the bitfield well formed (in particular \<open>confirmed\<close> is again the first missing piece),
  whatever the outcome of the call; the call itself succeeds unless it completes a torrent
  whose number of pieces is a multiple of eight.
\<close>

theorem set_piece_marks:
  assumes "bf_inv b" and "unat i < total_pieces b" and "set_piece i b = (r, b')"
  shows "bf_inv b' \<and> owned b' = insert (unat i) (owned b) \<and> total_pieces b' = total_pieces b \<and>
    (r = Ok () \<or> owned b' = {..<total_pieces b} \<and> total_pieces b mod 8 = 0)"
  using set_piece_owned [OF assms] set_piece_outcome [OF assms(1,2)] assms(3) by (auto split: if_splits)

theorem set_piece_marks_witness:
  "owned (snd (set_piece 3 (zero_pieces 12))) = {3}"
proof -
  have t: "unat (3 :: u32) < total_pieces (zero_pieces 12)" by simp
  show ?thesis
    using set_piece_marks [OF bf_inv_zero t surjective_pairing] by simp
qed

text \<open>
  C2. Completing a torrent whose number of pieces is a multiple of eight panics: the loop of
  \<open>set\<close> that advances \<open>confirmed\<close> tests the bit after the last piece, which lies outside the
  vector. The bitfield left behind owns every piece and reports that nothing remains.
\<close>

theorem set_last_piece_panics:
  assumes "bf_inv b" and "total_pieces b mod 8 = 0" and "unat i < total_pieces b"
    and "unat i \<notin> owned b" and "{..<total_pieces b} = insert (unat i) (owned b)"
  shows "fst (set_piece i b) = Panic OutOfBounds \<and> remaining (snd (set_piece i b)) = Ok 0"
proof -
  have "bf_inv (snd (set_piece i b))" and "owned (snd (set_piece i b)) = {..<total_pieces b}"
    and "total_pieces (snd (set_piece i b)) = total_pieces b"
    using set_piece_owned [OF assms(1,3) surjective_pairing] assms(5) by simp_all
  then show ?thesis
    using set_piece_outcome [OF assms(1,3)] remaining_zero_iff assms by simp
qed

theorem set_last_piece_panics_witness:
  "fst (set_piece 7 (from_vec 8 [254]\<lparr>confirmed := 7\<rparr>)) = Panic OutOfBounds"
proof -
  let ?b = "from_vec 8 [254]\<lparr>confirmed := 7\<rparr>"
  have bits: "bit_at [254] i \<longleftrightarrow> i < 7" for i
  proof (cases "i < 8")
    case True
    then have "i \<in> {0, 1, 2, 3, 4, 5, 6, 7}" by auto
    then show ?thesis by (auto simp: bit_at_def)
  next
    case False
    then have "0 < i div 8" by (simp add: div_greater_zero_iff)
    with False show ?thesis by (simp add: bit_at_def)
  qed
  have own: "owned ?b = {..<7}" by (auto simp: owned_def from_vec_def bits)
  have inv: "bf_inv ?b" by (simp add: bf_inv_def from_vec_def bits)
  have "{..<8} = insert 7 {..<7::nat}" by auto
  then show ?thesis
    using set_last_piece_panics [OF inv, of 7] own by (simp add: from_vec_def)
qed

text \<open>
  C3. The piece picker always returns. With nothing missing it returns \<open>None\<close> and leaves the
  bitfield alone; otherwise it returns the first missing piece at or after the cursor,
  wrapping around, and moves that piece to the end of the ring of missing pieces without
  changing what is owned.
\<close>

theorem pick_piece_returns:
  assumes "bf_inv b"
  shows "(case ring b of
      [] \<Rightarrow> pick_piece b = (Ok None, b)
    | i # is \<Rightarrow> \<exists>c. pick_piece b = (Ok (Some (of_nat i)), b\<lparr>cur := c\<rparr>) \<and>
        i < total_pieces b \<and> i \<notin> owned b \<and>
        bf_inv (b\<lparr>cur := c\<rparr>) \<and> ring (b\<lparr>cur := c\<rparr>) = is @ [i])"
proof (cases "ring b")
  case Nil
  with pick_piece_None [OF assms] show ?thesis by simp
next
  case (Cons i "is")
  then have "i \<in> {..<total_pieces b} - owned b" using in_ring [OF assms] by force
  with pick_piece_Some [OF assms Cons] Cons show ?thesis by auto
qed

theorem pick_piece_returns_witness:
  "fst (pick_piece (zero_pieces 12)) = Ok (Some 0)"
  using pick_piece_returns [OF bf_inv_zero, of 12]
  by (simp add: ring_def zero_pieces_def owned_def upt_conv_Cons) auto

text \<open>
  C4. Fairness: as many picks as there are missing pieces, with no confirmation in between,
  return each missing piece exactly once and bring the picker back to where it started.
\<close>

theorem picks_visit_every_missing_piece:
  assumes "bf_inv b"
  shows "\<exists>is b'. run_picks pick_piece (length is) b = (map (\<lambda>i. Ok (Some (of_nat i))) is, b') \<and>
    distinct is \<and> set is = {..<total_pieces b} - owned b \<and> ring b' = ring b"
  using bf.full_round [OF assms] in_ring [OF assms] distinct_ring [of b] by blast

theorem picks_visit_every_missing_piece_witness:
  "\<exists>is b'. run_picks pick_piece (length is) (zero_pieces 3) = (map (\<lambda>i. Ok (Some (of_nat i))) is, b') \<and>
    set is = {0, 1, 2}"
proof -
  have three: "{..<3} = {0, 1, 2::nat}" by auto
  show ?thesis
    using picks_visit_every_missing_piece [OF bf_inv_zero, of 3] by (simp add: three) blast
qed

text \<open>
  C5. \<open>remaining\<close> is the number of pieces not owned: no overflow happens, and it is zero
  exactly when every piece is owned.
\<close>

theorem remaining_counts_missing:
  assumes "bf_inv b"
  shows "\<exists>n. remaining b = Ok n \<and> unat n = card ({..<total_pieces b} - owned b) \<and>
    (n = 0 \<longleftrightarrow> owned b = {..<total_pieces b})"
proof -
  have len: "length (ring b) = card ({..<total_pieces b} - owned b)"
    using in_ring [OF assms] distinct_card [OF distinct_ring] by metis
  have "length (ring b) < 2 ^ 32" using bf.ring_bound [OF assms] by simp
  then have "unat (of_nat (length (ring b)) :: u32) = card ({..<total_pieces b} - owned b)"
    using len unat_of_nat_u32 by metis
  then show ?thesis
    using remaining_ring [OF assms] remaining_zero_iff [OF assms] by auto
qed

theorem remaining_counts_missing_witness: "remaining (zero_pieces 1931) = Ok 1931"
proof -
  obtain n where n: "remaining (zero_pieces 1931) = Ok n" and u: "unat n = 1931"
    using remaining_counts_missing [OF bf_inv_zero, of 1931] by auto
  from u have "n = 1931" by (simp add: word_unat_eq_iff)
  with n show ?thesis by simp
qed

text \<open>
  C6. The seed test, for every vector a peer may send. The bits it looks at are those of the pieces
  and all bits of the bytes before the last one; one of them that is not set makes the answer no.
  Otherwise a vector with a bit for every piece is accepted, and a shorter one is indexed out of
  bounds, a panic; an empty vector makes the subtraction in the index of the last byte overflow.
  So a vector of the length the protocol prescribes is accepted exactly when the bit of
  every piece is set.
\<close>

theorem is_seed_decides:
  assumes "n < 2 ^ 32" and "length v < 2 ^ 61"
  shows "is_seed n v =
      (if v = [] then Panic ArithOverflow
       else if \<exists>i < 8 * length v. (i < n \<or> i < 8 * (length v - 1)) \<and> \<not> bit_at v i then Ok False
       else if 8 * length v < n then Panic OutOfBounds else Ok True) \<and>
    (0 < n \<and> length v = (n + 7) div 8 \<longrightarrow> is_seed n v = Ok (\<forall>i < n. bit_at v i))"
  using is_seed_eq [OF assms] is_seed_exact [OF _ assms(1), of v] by simp

theorem is_seed_decides_witness:
  "is_seed 11 [255, 0xE0] = Ok (\<forall>i < 11. bit_at [255, 0xE0] i) \<and> is_seed 9 [0] = Ok False \<and>
   is_seed 9 [255] = Panic OutOfBounds"
proof (intro conjI)
  show "is_seed 11 [255, 0xE0] = Ok (\<forall>i < 11. bit_at [255, 0xE0] i)"
    using conjunct2 [OF is_seed_decides [of 11 "[255, 0xE0]"]] by simp
  have "\<exists>i < 9. i < 8 \<and> \<not> bit_at [0] i" by (intro exI [of _ 0]) (simp add: bit_at_def)
  then show "is_seed 9 [0] = Ok False"
    using is_seed_decides [of 9 "[0]"] by auto
  have "\<forall>i < 8. bit_at [255] i" using byte_255_iff [of 255] by (auto simp: bit_at_def)
  then show "is_seed 9 [255] = Panic OutOfBounds"
    using is_seed_decides [of 9 "[255]"] by auto
qed

end
