(* ===== verification/ByteBuf.thy ===== *)
theory ByteBuf
  imports Prelude
begin

text \<open>
  The byte buffer of the \<open>bytes\<close> crate (\<open>BytesMut\<close> through its traits \<open>Buf\<close> and \<open>BufMut\<close>) is
  third-party code: the codecs and the UDP tracker take its operations as a parameter. The
  locale \<open>bytes_mut\<close> states what the documentation of the crate promises of them, and
  \<open>vec_buf\<close>, a buffer that is the list of its unread bytes, satisfies it.
  The second half is the interface a codec offers to a framed stream.
\<close>

section \<open>The operations the code calls\<close>

record 'b buf_api =
  buf_bytes :: "'b \<Rightarrow> u8 list"
  buf_advance :: "usize \<Rightarrow> ('b, unit) prog"
  buf_get_u8 :: "('b, u8) prog"
  buf_get_u16 :: "('b, u16) prog"
  buf_get_u32 :: "('b, u32) prog"
  buf_get_u64 :: "('b, u64) prog"
  buf_copy_to_slice :: "usize \<Rightarrow> ('b, u8 list) prog"
  buf_put_u8 :: "u8 \<Rightarrow> 'b \<Rightarrow> 'b"
  buf_put_u16 :: "u16 \<Rightarrow> 'b \<Rightarrow> 'b"
  buf_put_u32 :: "u32 \<Rightarrow> 'b \<Rightarrow> 'b"
  buf_put_u64 :: "u64 \<Rightarrow> 'b \<Rightarrow> 'b"
  buf_put :: "u8 list \<Rightarrow> 'b \<Rightarrow> 'b"
  buf_put_bytes :: "u8 \<Rightarrow> usize \<Rightarrow> 'b \<Rightarrow> 'b"
  buf_reserve :: "usize \<Rightarrow> 'b \<Rightarrow> 'b"
  buf_clear :: "'b \<Rightarrow> 'b"

text \<open>A sequence of writes, which cannot fail: the buffer grows as needed.\<close>

definition write_all :: "('b \<Rightarrow> 'b) list \<Rightarrow> ('b, unit) prog" where
  "write_all ws = (\<lambda>dst. (Ok (), fold (\<lambda>w. w) ws dst))"

text \<open>
  \<open>buf_bytes\<close> is the slice the buffer dereferences to. A read at the front returns the value
  and advances past it; a read of more bytes than there are panics. A write appends.
\<close>

definition skip :: "'b buf_api \<Rightarrow> usize \<Rightarrow> 'b \<Rightarrow> 'b" where
  "skip B n b = snd (buf_advance B n b)"

locale bytes_mut =
  fixes B :: "'b buf_api"
  assumes advance_ok: "n \<le> length (buf_bytes B b) \<Longrightarrow>
      \<exists>b'. buf_advance B n b = (Ok (), b') \<and> buf_bytes B b' = drop n (buf_bytes B b)"
    and get_u8_ok: "1 \<le> length (buf_bytes B b) \<Longrightarrow>
      buf_get_u8 B b = (Ok (hd (buf_bytes B b)), snd (buf_advance B 1 b))"
    and get_u16_ok: "2 \<le> length (buf_bytes B b) \<Longrightarrow>
      buf_get_u16 B b = (Ok (from_be (take 2 (buf_bytes B b))), snd (buf_advance B 2 b))"
    and get_u32_ok: "4 \<le> length (buf_bytes B b) \<Longrightarrow>
      buf_get_u32 B b = (Ok (from_be (take 4 (buf_bytes B b))), snd (buf_advance B 4 b))"
    and get_u64_ok: "8 \<le> length (buf_bytes B b) \<Longrightarrow>
      buf_get_u64 B b = (Ok (from_be (take 8 (buf_bytes B b))), snd (buf_advance B 8 b))"
    and copy_ok: "n \<le> length (buf_bytes B b) \<Longrightarrow>
      buf_copy_to_slice B n b = (Ok (take n (buf_bytes B b)), snd (buf_advance B n b))"
    and get_u8_short: "length (buf_bytes B b) < 1 \<Longrightarrow> fst (buf_get_u8 B b) = Panic BufExhausted"
    and get_u16_short: "length (buf_bytes B b) < 2 \<Longrightarrow> fst (buf_get_u16 B b) = Panic BufExhausted"
    and get_u32_short: "length (buf_bytes B b) < 4 \<Longrightarrow> fst (buf_get_u32 B b) = Panic BufExhausted"
    and get_u64_short: "length (buf_bytes B b) < 8 \<Longrightarrow> fst (buf_get_u64 B b) = Panic BufExhausted"
    and copy_short: "length (buf_bytes B b) < n \<Longrightarrow> fst (buf_copy_to_slice B n b) = Panic BufExhausted"
    and put_u8_bytes: "buf_bytes B (buf_put_u8 B x8 b) = buf_bytes B b @ [x8]"
    and put_u16_bytes: "buf_bytes B (buf_put_u16 B x16 b) = buf_bytes B b @ to_be 2 x16"
    and put_u32_bytes: "buf_bytes B (buf_put_u32 B x32 b) = buf_bytes B b @ to_be 4 x32"
    and put_u64_bytes: "buf_bytes B (buf_put_u64 B x64 b) = buf_bytes B b @ to_be 8 x64"
    and put_bytes: "buf_bytes B (buf_put B v b) = buf_bytes B b @ v"
    and put_rep_bytes: "buf_bytes B (buf_put_bytes B x8 n b) = buf_bytes B b @ replicate n x8"
    and reserve_bytes: "buf_bytes B (buf_reserve B n b) = buf_bytes B b"
    and clear_bytes: "buf_bytes B (buf_clear B b) = []"
begin

lemmas put_simps = put_u8_bytes put_u16_bytes put_u32_bytes put_u64_bytes put_bytes put_rep_bytes
  reserve_bytes clear_bytes

lemma advance_run:
  "n \<le> length (buf_bytes B b) \<Longrightarrow> buf_advance B n b = (Ok (), snd (buf_advance B n b))"
  using advance_ok by fastforce

lemma advance_bytes:
  "n \<le> length (buf_bytes B b) \<Longrightarrow> buf_bytes B (snd (buf_advance B n b)) = drop n (buf_bytes B b)"
  using advance_ok by fastforce

text \<open>
  Reads as equations: \<open>skip B n b\<close> is the buffer after \<open>n\<close> bytes were taken from its front, so
  simplification runs a sequence of reads over contents whose layout is known.
\<close>

lemma skip_bytes:
  "n \<le> length (buf_bytes B b) \<Longrightarrow> buf_bytes B (skip B n b) = drop n (buf_bytes B b)"
  by (simp add: skip_def advance_bytes)

lemma advance_skip: "n \<le> length (buf_bytes B b) \<Longrightarrow> buf_advance B n b = (Ok (), skip B n b)"
  unfolding skip_def by (rule advance_run)

lemmas read_simps = skip_bytes advance_skip
  get_u8_ok [folded skip_def] get_u16_ok [folded skip_def] get_u32_ok [folded skip_def]
  get_u64_ok [folded skip_def] copy_ok [folded skip_def]

lemma bnd_get_u8_short:
    "length (buf_bytes B b) < 1 \<Longrightarrow> fst (bnd (buf_get_u8 B) f b) = Panic BufExhausted"
  and bnd_get_u32_short:
    "length (buf_bytes B b) < 4 \<Longrightarrow> fst (bnd (buf_get_u32 B) g b) = Panic BufExhausted"
  and bnd_copy_short:
    "length (buf_bytes B b) < n \<Longrightarrow> fst (bnd (buf_copy_to_slice B n) h b) = Panic BufExhausted"
  by (simp_all add: bnd_panics get_u8_short get_u32_short copy_short)

lemmas read_short = bnd_get_u8_short bnd_get_u32_short bnd_copy_short

end

section \<open>A buffer that is the list of its unread bytes\<close>

definition list_read :: "usize \<Rightarrow> (u8 list \<Rightarrow> 'a) \<Rightarrow> (u8 list, 'a) prog" where
  "list_read n val = (\<lambda>b. if n \<le> length b then (Ok (val (take n b)), drop n b)
     else (Panic BufExhausted, b))"

definition vec_buf :: "u8 list buf_api" where
  "vec_buf = \<lparr>
     buf_bytes = (\<lambda>b. b),
     buf_advance = (\<lambda>n. list_read n (\<lambda>_. ())),
     buf_get_u8 = list_read 1 hd,
     buf_get_u16 = list_read 2 from_be,
     buf_get_u32 = list_read 4 from_be,
     buf_get_u64 = list_read 8 from_be,
     buf_copy_to_slice = (\<lambda>n. list_read n (\<lambda>v. v)),
     buf_put_u8 = (\<lambda>x b. b @ [x]),
     buf_put_u16 = (\<lambda>x b. b @ to_be 2 x),
     buf_put_u32 = (\<lambda>x b. b @ to_be 4 x),
     buf_put_u64 = (\<lambda>x b. b @ to_be 8 x),
     buf_put = (\<lambda>v b. b @ v),
     buf_put_bytes = (\<lambda>x n b. b @ replicate n x),
     buf_reserve = (\<lambda>n b. b),
     buf_clear = (\<lambda>b. [])\<rparr>"

interpretation vec: bytes_mut vec_buf
proof unfold_locales
  fix b :: "u8 list"
  assume "1 \<le> length (buf_bytes vec_buf b)"
  then show "buf_get_u8 vec_buf b = (Ok (hd (buf_bytes vec_buf b)), snd (buf_advance vec_buf 1 b))"
    by (cases b) (simp_all add: vec_buf_def list_read_def)
qed (simp_all add: vec_buf_def list_read_def)

lemma vec_bytes [simp]: "buf_bytes vec_buf b = b"
  by (simp add: vec_buf_def)

section \<open>The interface of a codec\<close>

text \<open>
  What a framed stream needs of a decoder over a buffer with contents \<open>view\<close>: a complete frame
  at the front is decoded and removed, a proper prefix of a frame is left alone.
  \<open>drain\<close> decodes while messages come out; \<open>feed\<close> receives the stream chunk by chunk and
  drains after each.
\<close>

primrec drain :: "nat \<Rightarrow> ('b, 'm option) prog \<Rightarrow> 'b \<Rightarrow> 'm list \<times> 'b" where
  "drain 0 decode b = ([], b)"
| "drain (Suc n) decode b =
     (case decode b of
        (Ok (Some m), b') \<Rightarrow> (let (ms, b'') = drain n decode b' in (m # ms, b''))
      | (_, b') \<Rightarrow> ([], b'))"

primrec feed :: "('b \<Rightarrow> u8 list) \<Rightarrow> (u8 list \<Rightarrow> 'b \<Rightarrow> 'b) \<Rightarrow> ('b, 'm option) prog
    \<Rightarrow> u8 list list \<Rightarrow> 'b \<Rightarrow> 'm list \<times> 'b" where
  "feed view put decode [] b = ([], b)"
| "feed view put decode (c # cs) b =
     (let b1 = put c b;
          (ms, b2) = drain (length (view b1)) decode b1;
          (ms', b3) = feed view put decode cs b2
      in (ms @ ms', b3))"

locale frame_codec =
  fixes view :: "'b \<Rightarrow> u8 list"
    and put :: "u8 list \<Rightarrow> 'b \<Rightarrow> 'b"
    and decode :: "('b, 'm option) prog"
    and frame :: "'m \<Rightarrow> u8 list"
    and sendable :: "'m \<Rightarrow> bool"
  assumes view_put: "view (put c b) = view b @ c"
    and frame_nonempty: "sendable m \<Longrightarrow> frame m \<noteq> []"
    and decode_frame: "sendable m \<Longrightarrow> view b = frame m @ rest \<Longrightarrow>
      \<exists>b'. decode b = (Ok (Some m), b') \<and> view b' = rest"
    and decode_prefix: "sendable m \<Longrightarrow> frame m = view b @ q \<Longrightarrow> q \<noteq> [] \<Longrightarrow>
      \<exists>b'. decode b = (Ok None, b') \<and> view b' = view b"
    and decode_empty: "view b = [] \<Longrightarrow> \<exists>b'. decode b = (Ok None, b') \<and> view b' = []"
begin

lemma drain_stops:
  assumes "view b = [] \<or> (\<exists>m q. sendable m \<and> frame m = view b @ q \<and> q \<noteq> [])"
  shows "\<exists>b'. drain n decode b = ([], b') \<and> view b' = view b"
proof (cases n)
  case (Suc k)
  from assms have "\<exists>b'. decode b = (Ok None, b') \<and> view b' = view b"
    using decode_empty decode_prefix by metis
  with Suc show ?thesis by auto
qed simp

text \<open>
  Draining a buffer that holds a prefix of a sequence of frames yields the messages whose
  frames are complete, and leaves the beginning of the next frame.
\<close>

lemma drain_frames:
  assumes "\<forall>m \<in> set ms. sendable m" and "view b @ r = concat (map frame ms)"
    and "length (view b) \<le> n"
  shows "\<exists>got todo b'. ms = got @ todo \<and> drain n decode b = (got, b') \<and>
    view b' @ r = concat (map frame todo) \<and>
    (view b' = [] \<or> (\<exists>m q. sendable m \<and> frame m = view b' @ q \<and> q \<noteq> []))"
  using assms
proof (induction ms arbitrary: b n)
  case Nil
  then have "view b = []" by simp
  with drain_stops [of b n] Nil show ?case by auto
next
  case (Cons m ms)
  have m: "sendable m" and ms: "\<forall>m \<in> set ms. sendable m" using Cons.prems(1) by auto
  show ?case
  proof (cases "length (frame m) \<le> length (view b)")
    case True
    then obtain rest where rest: "view b = frame m @ rest"
      using Cons.prems(2) by (metis append_eq_append_conv_if append_take_drop_id concat.simps(2) list.simps(9))
    obtain b1 where b1: "decode b = (Ok (Some m), b1)" "view b1 = rest"
      using decode_frame [OF m rest] by blast
    have "0 < length (frame m)" using frame_nonempty [OF m] by simp
    then have "Suc (length rest) \<le> n"
      using Cons.prems(3) unfolding rest length_append by linarith
    then obtain k where n: "n = Suc k" and k: "length rest \<le> k" by (cases n) auto
    have eq: "view b1 @ r = concat (map frame ms)"
      using Cons.prems(2) rest b1 by simp
    have le: "length (view b1) \<le> k" using k b1(2) by simp
    from Cons.IH [OF ms eq le] obtain got todo b' where
      "ms = got @ todo" "drain k decode b1 = (got, b')"
      "view b' @ r = concat (map frame todo)"
      "view b' = [] \<or> (\<exists>m q. sendable m \<and> frame m = view b' @ q \<and> q \<noteq> [])"
      by (elim exE conjE)
    then show ?thesis using b1 n by (intro exI [of _ "m # got"] exI [of _ todo] exI [of _ b']) simp
  next
    case False
    then have "view b = take (length (view b)) (frame m)"
      using arg_cong [OF Cons.prems(2), of "take (length (view b))"] by simp
    then have "frame m = view b @ drop (length (view b)) (frame m)"
      by (metis append_take_drop_id)
    moreover have "drop (length (view b)) (frame m) \<noteq> []" using False by simp
    ultimately have stop: "view b = [] \<or> (\<exists>m q. sendable m \<and> frame m = view b @ q \<and> q \<noteq> [])"
      using m by blast
    obtain b' where "drain n decode b = ([], b')" "view b' = view b"
      using drain_stops [OF stop] by blast
    with stop Cons.prems(2) show ?thesis
      by (intro exI [of _ "[]"] exI [of _ "m # ms"] exI [of _ b']) simp
  qed
qed

text \<open>The decoded messages do not depend on how the stream is cut into chunks.\<close>

lemma feed_frames:
  assumes "\<forall>m \<in> set ms. sendable m" and "view b @ concat cs = concat (map frame ms)"
    and "view b = [] \<or> (\<exists>m q. sendable m \<and> frame m = view b @ q \<and> q \<noteq> [])"
  shows "\<exists>b'. feed view put decode cs b = (ms, b') \<and> view b' = []"
  using assms
proof (induction cs arbitrary: b ms)
  case Nil
  show ?case
  proof (cases ms)
    case (Cons m ms')
    with Nil have *: "view b = frame m @ concat (map frame ms')" "sendable m" by auto
    have "frame m \<noteq> []" using frame_nonempty *(2) by blast
    with Nil.prems(3) * obtain m' q where "sendable m'" "frame m' = view b @ q" "q \<noteq> []" by auto
    then have "\<exists>b'. decode b = (Ok None, b') \<and> view b' = view b" by (rule decode_prefix)
    with decode_frame [OF *(2,1)] show ?thesis by auto
  qed (use Nil in auto)
next
  case (Cons c cs)
  let ?b1 = "put c b"
  have "view ?b1 @ concat cs = concat (map frame ms)"
    using Cons.prems(2) by (simp add: view_put)
  from drain_frames [OF Cons.prems(1) this order_refl] obtain got todo b2 where
    ms: "ms = got @ todo" and drain: "drain (length (view ?b1)) decode ?b1 = (got, b2)"
    and b2: "view b2 @ concat cs = concat (map frame todo)"
      "view b2 = [] \<or> (\<exists>m q. sendable m \<and> frame m = view b2 @ q \<and> q \<noteq> [])"
    by blast
  have "\<forall>m \<in> set todo. sendable m" using Cons.prems(1) ms by simp
  from Cons.IH [OF this b2] obtain b' where "feed view put decode cs b2 = (todo, b')" "view b' = []"
    by blast
  with drain ms show ?case by (simp add: Let_def)
qed

end

end
