(* ===== verification/Handshake.thy ===== *)
theory Handshake
  imports ByteBuf
begin

text \<open>
  The handshake of the peer protocol and its codec, \<open>src/download/handshake.rs\<close>.
  Byte arrays of a fixed size are lists; \<open>wf_handshake\<close> states the sizes of the Rust types.
\<close>

section \<open>The code\<close>

record handshake =
  hs_length :: u8
  hs_protocol :: "u8 list"
  hs_reserved :: "u8 list"
  hs_info_hash :: "u8 list"
  hs_peer_id :: "u8 list"

definition wf_handshake :: "handshake \<Rightarrow> bool" where
  "wf_handshake h \<longleftrightarrow> length (hs_protocol h) = 19 \<and> length (hs_reserved h) = 8 \<and>
     length (hs_info_hash h) = 20 \<and> length (hs_peer_id h) = 20"

definition new_handshake :: "u8 list \<Rightarrow> u8 list \<Rightarrow> handshake" where
  "new_handshake info_hash peer_id =
     \<lparr>hs_length = 19,
      hs_protocol = ascii_bytes ''BitTorrent protocol'',
      hs_reserved = replicate 8 0,
      hs_info_hash = info_hash,
      hs_peer_id = peer_id\<rparr>"

definition default_handshake :: handshake where
  "default_handshake =
     \<lparr>hs_length = 0,
      hs_protocol = replicate 19 0,
      hs_reserved = replicate 8 0,
      hs_info_hash = replicate 20 0,
      hs_peer_id = replicate 20 0\<rparr>"

lemma default_handshake_filled [simp]:
  "default_handshake\<lparr>hs_length := l, hs_protocol := p, hs_reserved := r, hs_info_hash := i, hs_peer_id := d\<rparr> =
     \<lparr>hs_length = l, hs_protocol = p, hs_reserved = r, hs_info_hash = i, hs_peer_id = d\<rparr>"
  by (simp add: default_handshake_def)

definition handshake_size :: usize where
  "handshake_size = 68"

definition decode_handshake :: "'b buf_api \<Rightarrow> ('b, handshake option) prog" where
  "decode_handshake B = (\<lambda>buf.
     if length (buf_bytes B buf) < handshake_size then (Ok None, buf)
     else (bnd (buf_get_u8 B) (\<lambda>len.
           bnd (buf_copy_to_slice B 19) (\<lambda>protocol.
           bnd (buf_copy_to_slice B 8) (\<lambda>reserved.
           bnd (buf_copy_to_slice B 20) (\<lambda>info_hash.
           bnd (buf_copy_to_slice B 20) (\<lambda>peer_id.
           ret (Some (default_handshake\<lparr>hs_length := len, hs_protocol := protocol, hs_reserved := reserved,
                      hs_info_hash := info_hash, hs_peer_id := peer_id\<rparr>)))))))) buf)"

definition encode_handshake :: "'b buf_api \<Rightarrow> handshake \<Rightarrow> ('b, unit) prog" where
  "encode_handshake B item = write_all
     [buf_reserve B handshake_size,
      buf_put_u8 B (hs_length item),
      buf_put B (hs_protocol item),
      buf_put_bytes B 0 8,
      buf_put B (hs_info_hash item),
      buf_put B (hs_peer_id item)]"

section \<open>What is on the wire\<close>

definition handshake_bytes :: "handshake \<Rightarrow> u8 list" where
  "handshake_bytes h = [hs_length h] @ hs_protocol h @ hs_reserved h @ hs_info_hash h @ hs_peer_id h"

text \<open>The encoder always sends clear reserved bytes.\<close>

definition sent_form :: "handshake \<Rightarrow> handshake" where
  "sent_form h = h\<lparr>hs_reserved := replicate 8 0\<rparr>"

lemma length_handshake_bytes: "wf_handshake h \<Longrightarrow> length (handshake_bytes h) = handshake_size"
  by (simp add: wf_handshake_def handshake_bytes_def handshake_size_def)

lemma wf_default_handshake: "wf_handshake default_handshake"
  by (simp add: wf_handshake_def default_handshake_def)

lemma wf_sent_form: "wf_handshake h \<Longrightarrow> wf_handshake (sent_form h)"
  by (simp add: wf_handshake_def sent_form_def)

lemma wf_new_handshake:
  "length ih = 20 \<Longrightarrow> length pid = 20 \<Longrightarrow> wf_handshake (new_handshake ih pid)"
  by (simp add: wf_handshake_def new_handshake_def ascii_bytes_def)

lemma sent_form_new: "sent_form (new_handshake ih pid) = new_handshake ih pid"
  by (simp add: sent_form_def new_handshake_def)

text \<open>Every 68 bytes are the wire form of exactly one handshake.\<close>

lemma handshake_bytes_surj:
  assumes "length v = handshake_size"
  obtains h where "wf_handshake h" "v = handshake_bytes h"
proof
  let ?h = "\<lparr>hs_length = hd v, hs_protocol = take 19 (drop 1 v), hs_reserved = take 8 (drop 20 v),
    hs_info_hash = take 20 (drop 28 v), hs_peer_id = drop 48 v\<rparr>"
  have n: "length v = 68" using assms by (simp add: handshake_size_def)
  then show "wf_handshake ?h" by (simp add: wf_handshake_def)
  have cut: "take k (drop n v) @ drop (n + k) v = drop n v" for n k
    by (metis add.commute append_take_drop_id drop_drop)
  have "v = take 1 v @ take 19 (drop 1 v) @ take 8 (drop 20 v) @ take 20 (drop 28 v) @ drop 48 v"
    using cut [of 20 28] cut [of 8 20] cut [of 19 1] append_take_drop_id [of 1 v] by simp
  moreover have "take 1 v = [hd v]" using n by (cases v) auto
  ultimately show "v = handshake_bytes ?h" by (simp add: handshake_bytes_def)
qed

context bytes_mut
begin

lemma encode_handshake_run:
  "\<exists>b'. encode_handshake B h b = (Ok (), b') \<and>
     buf_bytes B b' = buf_bytes B b @ handshake_bytes (sent_form h)"
  by (simp add: encode_handshake_def write_all_def put_simps handshake_bytes_def sent_form_def)

lemma decode_handshake_run:
  assumes "wf_handshake h" and view: "buf_bytes B b = handshake_bytes h @ rest"
  shows "\<exists>b'. decode_handshake B b = (Ok (Some h), b') \<and> buf_bytes B b' = rest"
proof -
  note wf = assms(1) [unfolded wf_handshake_def]
  have "\<not> length (buf_bytes B b) < handshake_size"
    using length_handshake_bytes [OF assms(1)] view by simp
  then show ?thesis
    using wf view by (simp add: decode_handshake_def handshake_bytes_def read_simps)
qed

lemma decode_handshake_short:
  "length (buf_bytes B b) < handshake_size \<Longrightarrow> decode_handshake B b = (Ok None, b)"
  by (simp add: decode_handshake_def)

lemma handshake_frame_codec:
  "frame_codec (buf_bytes B) (buf_put B) (decode_handshake B) handshake_bytes wf_handshake"
proof unfold_locales
  show "\<exists>b'. decode_handshake B b = (Ok None, b') \<and> buf_bytes B b' = buf_bytes B b"
    if "wf_handshake m" "handshake_bytes m = buf_bytes B b @ q" "q \<noteq> []" for m b q
  proof -
    have "length (buf_bytes B b) < handshake_size"
      using that(3) arg_cong [OF that(2), of length] length_handshake_bytes [OF that(1)]
      by (cases q) simp_all
    then show ?thesis by (simp add: decode_handshake_short)
  qed
qed (auto simp: put_simps handshake_bytes_def decode_handshake_short handshake_size_def
      intro: decode_handshake_run)

end

interpretation hs_codec: frame_codec "buf_bytes vec_buf" "buf_put vec_buf"
    "decode_handshake vec_buf" handshake_bytes wf_handshake
  by (rule vec.handshake_frame_codec)

section \<open>Properties\<close>

text \<open>
  C28. Round trip of the handshake: a handshake of the declared field sizes is encoded to 68
  bytes without an error, and decoding them, followed by any other bytes, returns the
  handshake with its reserved bytes cleared (the encoder never sends the reserved field) and
  leaves exactly the other bytes. The handshake the client builds is returned unchanged.
\<close>

theorem handshake_roundtrip:
  assumes "bytes_mut B" and "wf_handshake h" and "buf_bytes B b = []"
    and "encode_handshake B h b = (r, b1)"
  shows "r = Ok () \<and> length (buf_bytes B b1) = handshake_size \<and>
    (\<exists>b2. decode_handshake B (buf_put B rest b1) = (Ok (Some (h\<lparr>hs_reserved := replicate 8 0\<rparr>)), b2) \<and>
       buf_bytes B b2 = rest) \<and>
    (h = new_handshake ih pid \<longrightarrow> h\<lparr>hs_reserved := replicate 8 0\<rparr> = h)"
proof -
  have "r = Ok ()" and v1: "buf_bytes B b1 = handshake_bytes (sent_form h)"
    and v2: "buf_bytes B (buf_put B rest b1) = handshake_bytes (sent_form h) @ rest"
    using bytes_mut.encode_handshake_run [OF assms(1), of h b] assms(3,4)
      bytes_mut.put_simps [OF assms(1)] by simp_all
  note wf = wf_sent_form [OF assms(2)]
  show ?thesis
    using \<open>r = Ok ()\<close> length_handshake_bytes [OF wf] v1
      bytes_mut.decode_handshake_run [OF assms(1) wf v2] sent_form_new [of ih pid]
    by (auto simp: sent_form_def)
qed

theorem handshake_roundtrip_witness:
  "\<exists>b2. decode_handshake vec_buf
      (buf_put vec_buf [9] (snd (encode_handshake vec_buf (new_handshake (replicate 20 1) (replicate 20 2)) [])))
    = (Ok (Some (new_handshake (replicate 20 1) (replicate 20 2))), b2)"
proof -
  let ?h = "new_handshake (replicate 20 1) (replicate 20 2)"
  have "wf_handshake ?h" by (rule wf_new_handshake) simp_all
  from handshake_roundtrip [OF vec.bytes_mut_axioms this, of "[]", OF _ surjective_pairing,
      of "[9]" "replicate 20 1" "replicate 20 2"]
  show ?thesis by auto
qed

text \<open>
  The decoder accepts every 68 bytes: it waits for them and leaves a shorter buffer alone,
  then returns the one handshake with that wire form. Neither the length byte, the protocol
  name nor the info hash is compared with anything.
\<close>

theorem handshake_decoder_accepts_anything:
  assumes "bytes_mut B"
  shows "if length (buf_bytes B b) < 68 then decode_handshake B b = (Ok None, b)
    else \<exists>h b'. decode_handshake B b = (Ok (Some h), b') \<and> wf_handshake h \<and>
      buf_bytes B b = handshake_bytes h @ buf_bytes B b'"
proof (cases "length (buf_bytes B b) < 68")
  case True
  then show ?thesis
    using bytes_mut.decode_handshake_short [OF assms] by (simp add: handshake_size_def)
next
  case False
  then obtain h where "wf_handshake h" and "take 68 (buf_bytes B b) = handshake_bytes h"
    using handshake_bytes_surj [of "take 68 (buf_bytes B b)"] by (auto simp: handshake_size_def)
  then show ?thesis
    using False bytes_mut.decode_handshake_run [OF assms, of h b "drop 68 (buf_bytes B b)"]
    by (metis append_take_drop_id)
qed

theorem handshake_decoder_accepts_anything_witness:
  "\<exists>h b'. decode_handshake vec_buf (replicate 70 0) = (Ok (Some h), b') \<and> wf_handshake h \<and>
     replicate 70 0 = handshake_bytes h @ b'"
  using handshake_decoder_accepts_anything [OF vec.bytes_mut_axioms, of "replicate 70 0"] by simp

end
