(* ===== verification/PeerMsg.thy ===== *)
theory PeerMsg
  imports ByteBuf
begin

text \<open>
  The messages of the peer protocol and their length-prefixed codec,
  \<open>src/download/peer_msg.rs\<close>. The decoder trusts the length prefix only for the variable part
  of a message; what it does when prefix and type disagree is part of the model.
\<close>

section \<open>The code\<close>

datatype message =
    KeepAlive
  | Choke
  | Unchoke
  | Interested
  | NotInterested
  | Have u32
  | BitfieldMsg "u8 list"
  | Request u32 u32 u32
  | Piece u32 u32 "u8 list"
  | Cancel u32 u32 u32

datatype message_type =
    TChoke
  | TUnchoke
  | TInterested
  | TNotInterested
  | THave
  | TBitfield
  | TRequest
  | TPiece
  | TCancel

text \<open>The discriminants of the \<open>repr(u8)\<close> enum, and the conversion back.\<close>

primrec message_type_as_u8 :: "message_type \<Rightarrow> u8" where
  "message_type_as_u8 TChoke = 0"
| "message_type_as_u8 TUnchoke = 1"
| "message_type_as_u8 TInterested = 2"
| "message_type_as_u8 TNotInterested = 3"
| "message_type_as_u8 THave = 4"
| "message_type_as_u8 TBitfield = 5"
| "message_type_as_u8 TRequest = 6"
| "message_type_as_u8 TPiece = 7"
| "message_type_as_u8 TCancel = 8"

definition message_type_try_from :: "u8 \<Rightarrow> message_type res" where
  "message_type_try_from value =
     (if value = 0 then Ok TChoke
      else if value = 1 then Ok TUnchoke
      else if value = 2 then Ok TInterested
      else if value = 3 then Ok TNotInterested
      else if value = 4 then Ok THave
      else if value = 5 then Ok TBitfield
      else if value = 6 then Ok TRequest
      else if value = 7 then Ok TPiece
      else if value = 8 then Ok TCancel
      else Err InvalidData)"

text \<open>The body of a message, after the length prefix and the type byte.\<close>

definition decode_body :: "'b buf_api \<Rightarrow> usize \<Rightarrow> message_type \<Rightarrow> ('b, message) prog" where
  "decode_body B msg_len msg_type =
     (case msg_type of
        TChoke \<Rightarrow> ret Choke
      | TUnchoke \<Rightarrow> ret Unchoke
      | TInterested \<Rightarrow> ret Interested
      | TNotInterested \<Rightarrow> ret NotInterested
      | THave \<Rightarrow> bnd (buf_get_u32 B) (\<lambda>piece_index. ret (Have piece_index))
      | TBitfield \<Rightarrow>
          bnd (lift (usize_sub msg_len 1)) (\<lambda>n.
          bnd (buf_copy_to_slice B n) (\<lambda>bitfield. ret (BitfieldMsg bitfield)))
      | TRequest \<Rightarrow>
          bnd (buf_get_u32 B) (\<lambda>index.
          bnd (buf_get_u32 B) (\<lambda>begin.
          bnd (buf_get_u32 B) (\<lambda>len. ret (Request index begin len))))
      | TPiece \<Rightarrow>
          bnd (lift (usize_sub msg_len 9)) (\<lambda>n.
          bnd (buf_get_u32 B) (\<lambda>index.
          bnd (buf_get_u32 B) (\<lambda>begin.
          bnd (buf_copy_to_slice B n) (\<lambda>block. ret (Piece index begin block)))))
      | TCancel \<Rightarrow>
          bnd (buf_get_u32 B) (\<lambda>index.
          bnd (buf_get_u32 B) (\<lambda>begin.
          bnd (buf_get_u32 B) (\<lambda>len. ret (Cancel index begin len)))))"

definition decode_message :: "'b buf_api \<Rightarrow> ('b, message option) prog" where
  "decode_message B = (\<lambda>src.
     if length (buf_bytes B src) < 4 then (Ok None, src)
     else
       let len_bytes = take 4 (buf_bytes B src);
           msg_len = unat (from_be len_bytes :: u32)
       in if length (buf_bytes B src) \<ge> 4 + msg_len then
            bnd (buf_advance B 4) (\<lambda>_.
              if msg_len = 0 then ret (Some KeepAlive)
              else
                bnd (buf_get_u8 B) (\<lambda>type_byte.
                bnd (lift (message_type_try_from type_byte)) (\<lambda>msg_type.
                bnd (decode_body B msg_len msg_type) (\<lambda>msg. ret (Some msg))))) src
          else (Ok None, buf_reserve B (4 + msg_len - length (buf_bytes B src)) src))"

definition encode_message :: "'b buf_api \<Rightarrow> message \<Rightarrow> ('b, unit) prog" where
  "encode_message B item =
     (case item of
        KeepAlive \<Rightarrow> write_all [buf_put_u32 B 0]
      | Choke \<Rightarrow> write_all [buf_put_u32 B 1, buf_put_u8 B (message_type_as_u8 TChoke)]
      | Unchoke \<Rightarrow> write_all [buf_put_u32 B 1, buf_put_u8 B (message_type_as_u8 TUnchoke)]
      | Interested \<Rightarrow> write_all [buf_put_u32 B 1, buf_put_u8 B (message_type_as_u8 TInterested)]
      | NotInterested \<Rightarrow> write_all [buf_put_u32 B 1, buf_put_u8 B (message_type_as_u8 TNotInterested)]
      | Have piece_index \<Rightarrow>
          write_all [buf_put_u32 B 5, buf_put_u8 B (message_type_as_u8 THave), buf_put_u32 B piece_index]
      | BitfieldMsg bitfield \<Rightarrow>
          bnd (lift (usize_add (length bitfield) 5)) (\<lambda>n.
          bnd (write_all [buf_reserve B n]) (\<lambda>_.
          bnd (lift (add_chk (of_nat (length bitfield)) 1)) (\<lambda>len.
          write_all [buf_put_u32 B len, buf_put_u8 B (message_type_as_u8 TBitfield), buf_put B bitfield])))
      | Request index begin len \<Rightarrow>
          write_all [buf_reserve B 17, buf_put_u32 B 13, buf_put_u8 B (message_type_as_u8 TRequest),
            buf_put_u32 B index, buf_put_u32 B begin, buf_put_u32 B len]
      | Piece index begin block \<Rightarrow>
          bnd (lift (usize_add 13 (length block))) (\<lambda>n.
          bnd (write_all [buf_reserve B n]) (\<lambda>_.
          bnd (lift (add_chk 9 (of_nat (length block)))) (\<lambda>len.
          write_all [buf_put_u32 B len, buf_put_u8 B (message_type_as_u8 TPiece),
            buf_put_u32 B index, buf_put_u32 B begin, buf_put B block])))
      | Cancel index begin len \<Rightarrow>
          write_all [buf_reserve B 17, buf_put_u32 B 13, buf_put_u8 B (message_type_as_u8 TCancel),
            buf_put_u32 B index, buf_put_u32 B begin, buf_put_u32 B len])"

section \<open>The wire format\<close>

text \<open>The payload the protocol assigns to a message, with its type byte, and the whole frame.\<close>

primrec message_payload :: "message \<Rightarrow> u8 list" where
  "message_payload KeepAlive = []"
| "message_payload Choke = [0]"
| "message_payload Unchoke = [1]"
| "message_payload Interested = [2]"
| "message_payload NotInterested = [3]"
| "message_payload (Have i) = 4 # to_be 4 i"
| "message_payload (BitfieldMsg v) = 5 # v"
| "message_payload (Request i b l) = 6 # to_be 4 i @ to_be 4 b @ to_be 4 l"
| "message_payload (Piece i b v) = 7 # to_be 4 i @ to_be 4 b @ v"
| "message_payload (Cancel i b l) = 8 # to_be 4 i @ to_be 4 b @ to_be 4 l"

definition message_frame :: "message \<Rightarrow> u8 list" where
  "message_frame m = to_be 4 (of_nat (length (message_payload m)) :: u32) @ message_payload m"

text \<open>The length prefix has 32 bits.\<close>

definition fits_frame :: "message \<Rightarrow> bool" where
  "fits_frame m \<longleftrightarrow> length (message_payload m) < 2 ^ 32"

lemma try_from_as_u8 [simp]: "message_type_try_from (message_type_as_u8 t) = Ok t"
  by (cases t) (simp_all add: message_type_try_from_def)

lemma try_from_Ok: "message_type_try_from v = Ok t \<Longrightarrow> v = message_type_as_u8 t"
  by (auto simp: message_type_try_from_def split: if_splits)

lemma try_from_cases:
  obtains t where "v = message_type_as_u8 t" | "message_type_try_from v = Err InvalidData" "8 < v"
proof (cases "message_type_try_from v")
  case (Ok t)
  with try_from_Ok that(1) show ?thesis by blast
next
  case (Err e)
  have "8 < v"
  proof (rule ccontr)
    assume "\<not> 8 < v"
    then have "unat v \<le> 8" by (simp add: word_less_nat_alt)
    then have "unat v \<in> {0, 1, 2, 3, 4, 5, 6, 7, 8}" by auto
    then have "v \<in> {0, 1, 2, 3, 4, 5, 6, 7, 8}" by (auto simp: word_unat_eq_iff)
    with Err show False by (auto simp: message_type_try_from_def)
  qed
  with Err that(2) show ?thesis by (auto simp: message_type_try_from_def split: if_splits)
qed (auto simp: message_type_try_from_def split: if_splits)

context bytes_mut
begin

lemma encode_message_run:
  assumes "fits_frame m"
  shows "\<exists>b'. encode_message B m b = (Ok (), b') \<and>
    buf_bytes B b' = buf_bytes B b @ message_frame m"
proof (cases m)
  case (BitfieldMsg v)
  with assms have n: "length v + 1 < 2 ^ 32" by (simp add: fits_frame_def)
  then have "unat (of_nat (length v) :: u32) = length v" by (intro unat_of_nat_u32) simp
  with n have "add_chk (of_nat (length v)) 1 = Ok (of_nat (length v) + (1 :: u32))"
    "usize_add (length v) 5 = Ok (length v + 5)"
    by (simp_all add: add_chk_def usize_add_def)
  with BitfieldMsg show ?thesis
    by (simp add: encode_message_def write_all_def put_simps message_frame_def add.commute)
next
  case (Piece i k v)
  with assms have n: "length v + 9 < 2 ^ 32" by (simp add: fits_frame_def)
  then have "unat (of_nat (length v) :: u32) = length v" by (intro unat_of_nat_u32) simp
  with n have "add_chk 9 (of_nat (length v)) = Ok (9 + of_nat (length v) :: u32)"
    "usize_add 13 (length v) = Ok (13 + length v)"
    by (simp_all add: add_chk_def usize_add_def)
  with Piece show ?thesis
    by (simp add: encode_message_def write_all_def put_simps message_frame_def)
qed (simp_all add: encode_message_def write_all_def put_simps message_frame_def)

lemma decode_message_waits:
  assumes "length (buf_bytes B b) < 4 \<or>
    length (buf_bytes B b) < 4 + unat (from_be (take 4 (buf_bytes B b)) :: u32)"
  shows "\<exists>b'. decode_message B b = (Ok None, b') \<and> buf_bytes B b' = buf_bytes B b"
  using assms by (auto simp: decode_message_def Let_def reserve_bytes)

text \<open>With a complete frame at the front, the decoder is a function of type byte and body.\<close>

lemma decode_message_frame:
  fixes n :: u32
  assumes "buf_bytes B b = to_be 4 n @ t # body" and "unat n \<le> Suc (length body)" and "n \<noteq> 0"
  shows "decode_message B b =
    bnd (lift (message_type_try_from t)) (\<lambda>msg_type.
      bnd (decode_body B (unat n) msg_type) (\<lambda>msg. ret (Some msg))) (skip B 1 (skip B 4 b))"
    and "buf_bytes B (skip B 1 (skip B 4 b)) = body"
  using assms
  by (simp_all add: decode_message_def Let_def read_simps from_be_to_be unat_eq_zero)

lemma get_three:
  shows "12 \<le> length (buf_bytes B b) \<Longrightarrow>
    bnd (buf_get_u32 B) (\<lambda>x. bnd (buf_get_u32 B) (\<lambda>y. bnd (buf_get_u32 B) (\<lambda>z. ret (f x y z)))) b =
      (Ok (f (from_be (take 4 (buf_bytes B b))) (from_be (take 4 (drop 4 (buf_bytes B b))))
        (from_be (take 4 (drop 8 (buf_bytes B b))))), skip B 4 (skip B 4 (skip B 4 b)))"
    and "length (buf_bytes B b) < 12 \<Longrightarrow>
    fst (bnd (buf_get_u32 B) (\<lambda>x. bnd (buf_get_u32 B) (\<lambda>y. bnd (buf_get_u32 B) (k x y))) b) = Panic BufExhausted"
proof -
  show "12 \<le> length (buf_bytes B b) \<Longrightarrow> bnd (buf_get_u32 B) (\<lambda>x. bnd (buf_get_u32 B) (\<lambda>y. bnd (buf_get_u32 B) (\<lambda>z. ret (f x y z)))) b =
      (Ok (f (from_be (take 4 (buf_bytes B b))) (from_be (take 4 (drop 4 (buf_bytes B b))))
        (from_be (take 4 (drop 8 (buf_bytes B b))))), skip B 4 (skip B 4 (skip B 4 b)))"
    by (simp add: read_simps)
  assume short: "length (buf_bytes B b) < 12"
  consider "length (buf_bytes B b) < 4" | "4 \<le> length (buf_bytes B b)" "length (buf_bytes B b) < 8"
    | "8 \<le> length (buf_bytes B b)" by linarith
  then show "fst (bnd (buf_get_u32 B) (\<lambda>x. bnd (buf_get_u32 B) (\<lambda>y. bnd (buf_get_u32 B) (k x y))) b) = Panic BufExhausted"
    by cases (use short in \<open>simp_all add: read_simps read_short\<close>)
qed

lemma decode_message_run:
  assumes "fits_frame m" and view: "buf_bytes B b = message_frame m @ rest"
  shows "\<exists>b'. decode_message B b = (Ok (Some m), b') \<and> buf_bytes B b' = rest"
proof (cases "message_payload m")
  case Nil
  then have "m = KeepAlive" by (cases m) auto
  then show ?thesis
    using view by (simp add: message_frame_def decode_message_def Let_def read_simps from_be_to_be)
next
  case (Cons t body)
  let ?n = "of_nat (length (message_payload m)) :: u32"
  have n: "unat ?n = Suc (length body)"
    using assms(1) Cons unat_of_nat_u32 [of "length (message_payload m)"] by (simp add: fits_frame_def)
  have b: "buf_bytes B b = to_be 4 ?n @ t # (body @ rest)"
    using view Cons by (simp add: message_frame_def)
  have "?n \<noteq> 0" using n by (metis unat_0 nat.distinct(1))
  note dec = decode_message_frame [OF b _ this]
  have s: "buf_bytes B (skip B 1 (skip B 4 b)) = body @ rest"
    using dec(2) n by simp
  show ?thesis
    using Cons dec(1) n s
    by (cases m) (auto simp: message_type_try_from_def decode_body_def read_simps from_be_to_be usize_sub_def)
qed

lemma message_frame_codec:
  "frame_codec (buf_bytes B) (buf_put B) (decode_message B) message_frame fits_frame"
proof unfold_locales
  fix m b q
  assume m: "fits_frame m" "message_frame m = buf_bytes B b @ q" "q \<noteq> []"
  let ?v = "buf_bytes B b" and ?n = "of_nat (length (message_payload m)) :: u32"
  have len: "length ?v < 4 + length (message_payload m)"
    using arg_cong [OF m(2), of length] m(3) by (cases q) (simp_all add: message_frame_def)
  have "length ?v < 4 \<or> length ?v < 4 + unat (from_be (take 4 ?v) :: u32)"
  proof (cases "length ?v < 4")
    case False
    then have "take 4 ?v = to_be 4 ?n"
      using arg_cong [OF m(2), of "take 4"] by (simp add: message_frame_def)
    then show ?thesis
      using len unat_of_nat_u32 m(1) by (simp add: from_be_to_be fits_frame_def)
  qed simp
  then show "\<exists>b'. decode_message B b = (Ok None, b') \<and> buf_bytes B b' = buf_bytes B b"
    by (rule decode_message_waits)
next
  show "message_frame m \<noteq> []" for m by (simp add: message_frame_def)
  show "\<exists>b'. decode_message B b = (Ok (Some m), b') \<and> buf_bytes B b' = rest"
    if "fits_frame m" "buf_bytes B b = message_frame m @ rest" for m b rest
    using that by (rule decode_message_run)
qed (simp_all add: put_simps decode_message_def)

end

interpretation msg_codec: frame_codec "buf_bytes vec_buf" "buf_put vec_buf"
    "decode_message vec_buf" message_frame fits_frame
  by (rule vec.message_frame_codec)

lemma as_u8_bound [simp]: "\<not> 8 < message_type_as_u8 t"
  by (cases t) simp_all

context bytes_mut
begin

text \<open>What a successful read consumed.\<close>

lemma bnd_get_u32_OkD:
  assumes "bnd (buf_get_u32 B) f b = (Ok x, b')"
  shows "\<exists>v b1. buf_bytes B b = to_be 4 v @ buf_bytes B b1 \<and> f v b1 = (Ok x, b')"
proof -
  have n: "4 \<le> length (buf_bytes B b)"
    using assms bnd_get_u32_short [of b f] by (cases "length (buf_bytes B b) < 4") auto
  then have "to_be 4 (from_be (take 4 (buf_bytes B b)) :: u32) = take 4 (buf_bytes B b)"
    using to_be_from_be [where 'a = 32, of "take 4 (buf_bytes B b)"] by simp
  with n assms show ?thesis
    by (intro exI [of _ "from_be (take 4 (buf_bytes B b))"] exI [of _ "skip B 4 b"])
      (simp add: read_simps)
qed

lemma bnd_copy_OkD:
  assumes "bnd (buf_copy_to_slice B n) f b = (Ok x, b')"
  shows "\<exists>v b1. buf_bytes B b = v @ buf_bytes B b1 \<and> length v = n \<and> f v b1 = (Ok x, b')"
proof -
  have "n \<le> length (buf_bytes B b)"
    using assms bnd_copy_short [of b n f] by (cases "length (buf_bytes B b) < n") auto
  with assms show ?thesis
    by (intro exI [of _ "take n (buf_bytes B b)"] exI [of _ "skip B n b"]) (simp add: read_simps)
qed

lemma decode_body_inv:
  assumes "decode_body B n mt b = (Ok m, b')"
  shows "message_type_as_u8 mt # buf_bytes B b = message_payload m @ buf_bytes B b'"
  using assms
  by (cases mt)
    (auto simp: decode_body_def usize_sub_def dest!: bnd_get_u32_OkD bnd_copy_OkD split: if_splits)

lemma decode_message_inv:
  assumes dec: "decode_message B b = (Ok (Some m), b')"
    and len: "unat (from_be (take 4 (buf_bytes B b)) :: u32) = length (message_payload m)"
  shows "buf_bytes B b = message_frame m @ buf_bytes B b'"
proof -
  define n :: u32 where "n = from_be (take 4 (buf_bytes B b))"
  have full: "4 + unat n \<le> length (buf_bytes B b)"
    using dec by (auto simp: decode_message_def Let_def n_def split: if_splits)
  then have head: "take 4 (buf_bytes B b) = to_be 4 n"
    using to_be_from_be [where 'a = 32, of "take 4 (buf_bytes B b)"] by (simp add: n_def)
  then have view: "buf_bytes B b = to_be 4 n @ drop 4 (buf_bytes B b)"
    by (metis append_take_drop_id)
  have pre: "to_be 4 (of_nat (length (message_payload m)) :: u32) = to_be 4 n"
    using len by (simp add: n_def flip: len)
  show ?thesis
  proof (cases "n = 0")
    case True
    then have "m = KeepAlive" "buf_bytes B b' = drop 4 (buf_bytes B b)"
      using dec full by (auto simp: decode_message_def Let_def n_def read_simps)
    with view pre show ?thesis by (simp add: message_frame_def)
  next
    case False
    have "unat n \<noteq> 0" using False by (simp add: unat_eq_zero)
    with full have "drop 4 (buf_bytes B b) \<noteq> []" by simp
    then obtain t body where rest: "drop 4 (buf_bytes B b) = t # body"
      by (cases "drop 4 (buf_bytes B b)") auto
    have "length (drop 4 (buf_bytes B b)) = Suc (length body)" using rest by simp
    then have "unat n \<le> Suc (length body)" using full by simp
    note frame = decode_message_frame [OF view [unfolded rest] this False]
    have "bnd (lift (message_type_try_from t)) (\<lambda>mt. bnd (decode_body B (unat n) mt)
        (\<lambda>msg. ret (Some msg))) (skip B 1 (skip B 4 b)) = (Ok (Some m), b')"
      using frame(1) dec by simp
    then obtain mt where mt: "message_type_try_from t = Ok mt"
      and body: "decode_body B (unat n) mt (skip B 1 (skip B 4 b)) = (Ok m, b')"
      by (auto dest!: bnd_OkD)
    show ?thesis
      using decode_body_inv [OF body] try_from_Ok [OF mt] view pre rest frame(2)
      by (simp add: message_frame_def)
  qed
qed

end

section \<open>Properties\<close>

text \<open>
  C24. Round trip: a message whose payload fits the 32-bit length prefix is encoded without an
  error, and decoding what was written, followed by any other bytes, returns the same message
  and leaves exactly those other bytes.
\<close>

theorem message_roundtrip:
  assumes "bytes_mut B" and "fits_frame m" and "buf_bytes B b = []"
    and "encode_message B m b = (r, b1)"
  shows "r = Ok () \<and>
    (\<exists>b2. decode_message B (buf_put B rest b1) = (Ok (Some m), b2) \<and> buf_bytes B b2 = rest)"
proof -
  have "r = Ok ()" and "buf_bytes B (buf_put B rest b1) = message_frame m @ rest"
    using bytes_mut.encode_message_run [OF assms(1,2), of b] assms(3,4) bytes_mut.put_simps [OF assms(1)]
    by simp_all
  then show ?thesis using bytes_mut.decode_message_run [OF assms(1,2)] by blast
qed

theorem message_roundtrip_witness:
  "fst (encode_message vec_buf (Request 3 16384 32768) []) = Ok () \<and>
   (\<exists>b2. decode_message vec_buf (buf_put vec_buf [1, 2] (snd (encode_message vec_buf (Request 3 16384 32768) [])))
     = (Ok (Some (Request 3 16384 32768)), b2) \<and> b2 = [1, 2])"
  using message_roundtrip [OF vec.bytes_mut_axioms, of "Request 3 16384 32768" "[]" _ _ "[1, 2]",
      OF _ _ surjective_pairing]
  by (simp add: fits_frame_def)

text \<open>
  C25. A stream of well-formed frames: however the network cuts it into chunks, feeding the
  concatenated frames of a list of messages, and decoding after each chunk, yields exactly that list
  and an empty buffer. (Of a stream with a malformed frame this does not hold, since such a frame may
  take bytes of the next one if they are there.)
\<close>

theorem message_stream_any_chunks:
  assumes "bytes_mut B" and "\<forall>m \<in> set ms. fits_frame m" and "buf_bytes B b = []"
    and "concat chunks = concat (map message_frame ms)"
  shows "\<exists>b'. feed (buf_bytes B) (buf_put B) (decode_message B) chunks b = (ms, b') \<and> buf_bytes B b' = []"
  using frame_codec.feed_frames [OF bytes_mut.message_frame_codec [OF assms(1)] assms(2), of b chunks]
    assms(3,4) by simp

theorem message_stream_any_chunks_witness:
  "\<exists>b'. feed (buf_bytes vec_buf) (buf_put vec_buf) (decode_message vec_buf)
     [[0, 0], [0, 1, 1, 0], [0, 0, 5], [4, 0, 0, 0, 9]] [] = ([Unchoke, Have 9], b')"
proof -
  have "concat [[0, 0], [0, 1, 1, 0], [0, 0, 5], [4, 0, 0, 0, 9]] =
      concat (map message_frame [Unchoke, Have 9])"
    by (simp add: message_frame_def to_be_def upt_rec)
  then show ?thesis
    using message_stream_any_chunks [OF vec.bytes_mut_axioms, of "[Unchoke, Have 9]" "[]"
        "[[0, 0], [0, 1, 1, 0], [0, 0, 5], [4, 0, 0, 0, 9]]"]
    by (simp add: fits_frame_def del: feed.simps)
qed

lemma malformed_stream_depends_on_chunks:
  "fst (feed (buf_bytes vec_buf) (buf_put vec_buf) (decode_message vec_buf) [[0, 0, 0, 1, 4], [0, 0, 0, 9]] []) = [] \<and>
   fst (feed (buf_bytes vec_buf) (buf_put vec_buf) (decode_message vec_buf) [[0, 0, 0, 1, 4, 0, 0, 0, 9]] []) = [Have 9]"
proof -
  have "decode_message vec_buf [0, 0, 0, 1, 4] = (Panic BufExhausted, [])"
    "decode_message vec_buf [0, 0, 0, 9] = (Ok None, [0, 0, 0, 9])"
    "decode_message vec_buf [0, 0, 0, 1, 4, 0, 0, 0, 9] = (Ok (Some (Have 9)), [])"
    "decode_message vec_buf [] = (Ok None, [])"
    by (simp_all add: decode_message_def vec_buf_def list_read_def decode_body_def
        message_type_try_from_def from_be_def Let_def bnd_def)
  moreover have "buf_put vec_buf v b = b @ v" for v b by (simp add: vec_buf_def)
  ultimately show ?thesis by simp
qed

text \<open>
  Decoding is the inverse of encoding on well-formed frames: when the decoder returns a
  message whose payload has the announced length, what it consumed is the frame of that
  message, byte for byte.
\<close>

theorem decode_message_sound:
  assumes "bytes_mut B" and "decode_message B b = (Ok (Some m), b')"
    and "unat (from_be (take 4 (buf_bytes B b)) :: u32) = length (message_payload m)"
  shows "buf_bytes B b = message_frame m @ buf_bytes B b'"
  using assms(2,3) by (rule bytes_mut.decode_message_inv [OF assms(1)])

theorem decode_message_sound_witness:
  "[0, 0, 0, 5, 4, 0, 0, 0, 9, 7] = message_frame (Have 9) @ [7]"
proof -
  have "decode_message vec_buf [0, 0, 0, 5, 4, 0, 0, 0, 9, 7] = (Ok (Some (Have 9)), [7])"
    by (simp add: decode_message_def vec_buf_def list_read_def decode_body_def
        message_type_try_from_def from_be_def Let_def bnd_def)
  then show ?thesis
    using decode_message_sound [OF vec.bytes_mut_axioms, of "[0, 0, 0, 5, 4, 0, 0, 0, 9, 7]" "Have 9" "[7]"]
    by (simp add: from_be_def)
qed

text \<open>
  C26. Frames whose length prefix disagrees with their type. When the bytes the prefix \<open>n\<close> announces
  have arrived, \<open>body\<close> being everything after the type byte \<open>t\<close>, later frames included: messages
  without a body leave whatever the prefix announced beyond the type byte to be read as the next
  frame; \<open>Have\<close>, \<open>Request\<close> and \<open>Cancel\<close> take four or twelve bytes whatever the prefix says, so a
  frame that is too short takes bytes of the next frame if they are there, and panics if not, and
  one that is too long leaves its end; a \<open>Piece\<close> frame of less than nine bytes overflows a
  subtraction; only bitfields and longer pieces follow the prefix; an unknown type is an
  error with the body still in the buffer.
\<close>

theorem malformed_frames:
  fixes n :: u32
  assumes "bytes_mut B" and "buf_bytes B b = to_be 4 n @ t # body"
    and "n \<noteq> 0" and "unat n \<le> Suc (length body)" and "decode_message B b = (r, b')"
  defines "word \<equiv> \<lambda>k. from_be (take 4 (drop k body)) :: u32"
  shows "(t < 4 \<longrightarrow> r = Ok (Some ([Choke, Unchoke, Interested, NotInterested] ! unat t)) \<and> buf_bytes B b' = body) \<and>
    (t = 4 \<longrightarrow> (if length body < 4 then r = Panic BufExhausted
       else r = Ok (Some (Have (word 0))) \<and> buf_bytes B b' = drop 4 body)) \<and>
    (t = 5 \<longrightarrow> r = Ok (Some (BitfieldMsg (take (unat n - 1) body))) \<and> buf_bytes B b' = drop (unat n - 1) body) \<and>
    (t = 6 \<longrightarrow> (if length body < 12 then r = Panic BufExhausted
       else r = Ok (Some (Request (word 0) (word 4) (word 8))) \<and> buf_bytes B b' = drop 12 body)) \<and>
    (t = 7 \<longrightarrow> (if n < 9 then r = Panic ArithOverflow
       else r = Ok (Some (Piece (word 0) (word 4) (take (unat n - 9) (drop 8 body)))) \<and>
         buf_bytes B b' = drop (unat n - 1) body)) \<and>
    (t = 8 \<longrightarrow> (if length body < 12 then r = Panic BufExhausted
       else r = Ok (Some (Cancel (word 0) (word 4) (word 8))) \<and> buf_bytes B b' = drop 12 body)) \<and>
    (8 < t \<longrightarrow> r = Err InvalidData \<and> buf_bytes B b' = body)"
proof -
  note frame = bytes_mut.decode_message_frame [OF assms(1,2,4,3)]
  define c where "c = skip B 1 (skip B 4 b)"
  have body: "buf_bytes B c = body" using frame(2) by (simp add: c_def)
  have run: "r = fst (bnd (lift (message_type_try_from t)) (\<lambda>mt. bnd (decode_body B (unat n) mt) (\<lambda>msg. ret (Some msg))) c)"
    "b' = snd (bnd (lift (message_type_try_from t)) (\<lambda>mt. bnd (decode_body B (unat n) mt) (\<lambda>msg. ret (Some msg))) c)"
    using assms(5) frame(1) by (simp_all add: c_def)
  note read = bytes_mut.read_simps [OF assms(1)] bytes_mut.read_short [OF assms(1)] bytes_mut.get_three [OF assms(1)]
  have n: "n < 9 \<longleftrightarrow> unat n < 9" "0 < unat n" using assms(3) by (simp_all add: word_less_nat_alt unat_gt_0)
  show ?thesis
  proof (cases t rule: try_from_cases)
    case (1 mt)
    then show ?thesis
      using n assms(4) unfolding run
      by (cases mt) (auto simp: message_type_try_from_def decode_body_def usize_sub_def word_def bnd_assoc read body)
  next
    case 2
    moreover have "\<not> t < 4" using 2(2) by (simp add: word_less_nat_alt)
    ultimately show ?thesis unfolding run by (auto simp: body)
  qed
qed

theorem malformed_frames_witness:
  "fst (decode_message vec_buf [0, 0, 0, 1, 7]) = Panic ArithOverflow \<and>
   fst (decode_message vec_buf [0, 0, 0, 1, 4]) = Panic BufExhausted \<and>
   decode_message vec_buf [0, 0, 0, 1, 4, 0, 0, 0, 9] = (Ok (Some (Have 9)), []) \<and>
   decode_message vec_buf [0, 0, 0, 3, 1, 8, 8] = (Ok (Some Unchoke), [8, 8])"
proof -
  have be: "to_be 4 (1 :: u32) = [0, 0, 0, 1]" "to_be 4 (3 :: u32) = [0, 0, 0, 3]"
    by (simp_all add: to_be_def upt_rec)
  note run = malformed_frames [OF vec.bytes_mut_axioms _ _ _ surjective_pairing]
  show ?thesis
    using run [of "[0, 0, 0, 1, 7]" 1 7 "[]"] run [of "[0, 0, 0, 1, 4]" 1 4 "[]"]
      run [of "[0, 0, 0, 1, 4, 0, 0, 0, 9]" 1 4 "[0, 0, 0, 9]"] run [of "[0, 0, 0, 3, 1, 8, 8]" 3 1 "[8, 8]"]
    by (simp add: be from_be_def prod_eq_iff)
qed

end
