(* ===== verification/MetaInfo.thy ===== *)
theory MetaInfo
  imports Prelude
begin

text \<open>
  The metainfo of a torrent, \<open>src/bencode/meta_info.rs\<close>: the types read from a torrent file,
  the division of the content into pieces, and the conversion of the \<open>pieces\<close> byte string to
  and from the list of piece hashes. The serializer of the \<open>serde_bencode\<close> crate and the hash of
  the \<open>sha1\<close> crate are parameters.
\<close>

section \<open>The code\<close>

record torrent_file =
  tf_length :: u64
  tf_path :: "string list"

datatype download_type =
    SingleFile u64
  | MultiFile "torrent_file list"

record info =
  info_name :: string
  info_piece_length :: u32
  info_pieces :: "u8 list list"
  info_download_type :: download_type

record torrent =
  announce :: string
  announce_list :: "string list list"
  torrent_info :: info

text \<open>\<open>DownloadType::len\<close>: the fold over the files adds with overflow checks.\<close>

primrec download_len :: "download_type \<Rightarrow> u64 res" where
  "download_len (SingleFile len) = Ok len"
| "download_len (MultiFile files) =
     foldl (\<lambda>acc f. and_then acc (\<lambda>len. add_chk len (tf_length f))) (Ok 0) files"

definition total_length :: "info \<Rightarrow> u64 res" where
  "total_length i = download_len (info_download_type i)"

definition get_piece_length :: "info \<Rightarrow> u32 \<Rightarrow> u32 res" where
  "get_piece_length i piece_index =
     and_then (download_len (info_download_type i)) (\<lambda>len.
     and_then (mul_chk (ucast piece_index) (ucast (info_piece_length i))) (\<lambda>begin.
     and_then (add_chk begin (ucast (info_piece_length i))) (\<lambda>end.
       if end > len then
         and_then (sub_chk len begin) (\<lambda>rest.
           if unat rest < 2 ^ 32 then Ok (ucast rest) else Panic UnwrapFailed)
       else Ok (info_piece_length i))))"

definition num_pieces :: "info \<Rightarrow> u32 res" where
  "num_pieces i =
     and_then (download_len (info_download_type i)) (\<lambda>file_len.
       let piece_len = ucast (info_piece_length i) in
       and_then (add_chk file_len piece_len) (\<lambda>s.
       and_then (sub_chk s 1) (\<lambda>d.
       and_then (div_chk d piece_len) (\<lambda>num. Ok (ucast num)))))"

definition info_hash_of :: "(info \<Rightarrow> u8 list res) \<Rightarrow> (u8 list \<Rightarrow> u8 list) \<Rightarrow> info \<Rightarrow> u8 list res" where
  "info_hash_of to_bytes sha1 i =
     (case to_bytes i of Ok info_bytes \<Rightarrow> Ok (sha1 info_bytes) | _ \<Rightarrow> Panic UnwrapFailed)"

text \<open>\<open>Pieces\<close>: what \<open>serialize\<close> hands to the serializer, and \<open>PiecesVisitor::visit_bytes\<close>.\<close>

definition pieces_serialize :: "u8 list list \<Rightarrow> u8 list" where
  "pieces_serialize hashes = concat hashes"

definition pieces_visit_bytes :: "u8 list \<Rightarrow> u8 list list res" where
  "pieces_visit_bytes v =
     (if length v mod 20 \<noteq> 0
      then Err (Anyhow ''expecting length to be a multiple of 20'')
      else Ok (chunks_exact 20 v))"

definition pieces_visitor :: "u8 list list visitor" where
  "pieces_visitor = \<lparr>expecting = ''byte array whose length is a multiple of 20'', visit_bytes = pieces_visit_bytes\<rparr>"

text \<open>The data format calls back the visitor, and is given the bytes to write.\<close>

definition pieces_deserialize :: "(u8 list list visitor \<Rightarrow> u8 list list res) \<Rightarrow> u8 list list res" where
  "pieces_deserialize deserialize_bytes = deserialize_bytes pieces_visitor"

lemma pieces_deserialize_bytes [simp]: "pieces_deserialize (\<lambda>v. visit_bytes v bytes) = pieces_visit_bytes bytes"
  by (simp add: pieces_deserialize_def pieces_visitor_def)

section \<open>Lengths\<close>

text \<open>The length of the content as a number, without the width of the machine.\<close>

primrec content_length :: "download_type \<Rightarrow> nat" where
  "content_length (SingleFile len) = unat len"
| "content_length (MultiFile files) = sum_list (map (\<lambda>f. unat (tf_length f)) files)"

lemma foldl_panicked [simp]:
  "foldl (\<lambda>acc f. and_then acc (g f)) (Panic p) fs = Panic p"
  by (induction fs) auto

lemma foldl_len:
  fixes files :: "torrent_file list"
  shows
  "foldl (\<lambda>acc f. and_then acc (\<lambda>len. add_chk len (tf_length f))) (Ok a) files =
     (if unat a + sum_list (map (\<lambda>f. unat (tf_length f)) files) < 2 ^ 64
      then Ok (of_nat (unat a + sum_list (map (\<lambda>f. unat (tf_length f)) files)))
      else Panic ArithOverflow)"
proof (induction files arbitrary: a)
  case Nil
  then show ?case using unsigned_less [of a] by simp
next
  case (Cons f files)
  show ?case
  proof (cases "unat a + unat (tf_length f) < 2 ^ 64")
    case True
    then have "unat (a + tf_length f) = unat a + unat (tf_length f)"
      by (simp add: unat_word_ariths)
    moreover from True have "add_chk a (tf_length f) = Ok (a + tf_length f)"
      by (simp add: add_chk_def)
    ultimately show ?thesis
      using Cons.IH [of "a + tf_length f"] by (simp add: add.assoc)
  next
    case False
    then have "add_chk a (tf_length f) = Panic ArithOverflow" by (simp add: add_chk_def)
    with False show ?thesis by simp
  qed
qed

lemma download_len_eq:
  "download_len d =
     (if content_length d < 2 ^ 64 then Ok (of_nat (content_length d)) else Panic ArithOverflow)"
  using foldl_len [of 0] unsigned_less [where ?'a = nat and ?'b = 64] by (cases d) auto

text \<open>The size of piece \<open>k\<close> as a number: the last one is whatever is left.\<close>

definition piece_size :: "info \<Rightarrow> nat \<Rightarrow> nat" where
  "piece_size i k =
     min (unat (info_piece_length i))
       (content_length (info_download_type i) - k * unat (info_piece_length i))"

definition piece_count :: "info \<Rightarrow> nat" where
  "piece_count i =
     (content_length (info_download_type i) + unat (info_piece_length i) - 1) div unat (info_piece_length i)"

text \<open>
  What the arithmetic of the client needs of a torrent: a nonzero piece length, a content
  length far enough from the end of \<open>u64\<close>, and a piece count that fits \<open>u32\<close>.
\<close>

definition wf_info :: "info \<Rightarrow> bool" where
  "wf_info i \<longleftrightarrow> 0 < info_piece_length i \<and>
     content_length (info_download_type i) + unat (info_piece_length i) < 2 ^ 64 \<and>
     piece_count i < 2 ^ 32"

lemma unat_ucast_64 [simp]: "unat (ucast (x :: u32) :: u64) = unat x"
  using unat_u32_lt [of x] by (simp add: unsigned_ucast_eq take_bit_nat_eq_self)

lemma unat_u32_mult_bound: "unat (a :: u32) * unat (b :: u32) + unat b < 2 ^ 64"
proof -
  have "unat a \<le> 2 ^ 32 - 1" "unat b \<le> 2 ^ 32 - 1"
    using unat_u32_lt [of a] unat_u32_lt [of b] by simp_all
  then have "unat a * unat b + unat b \<le> (2 ^ 32 - 1) * (2 ^ 32 - 1) + (2 ^ 32 - 1)"
    by (intro add_mono mult_mono) simp_all
  also have "\<dots> < 2 ^ 64" by simp
  finally show ?thesis .
qed

lemma get_piece_length_eq:
  assumes "content_length (info_download_type i) < 2 ^ 64"
  shows "get_piece_length i k =
    (if unat k * unat (info_piece_length i) \<le> content_length (info_download_type i)
     then Ok (of_nat (piece_size i (unat k))) else Panic ArithOverflow)"
proof -
  let ?P = "unat (info_piece_length i)" and ?L = "content_length (info_download_type i)"
  let ?b = "ucast k * ucast (info_piece_length i) :: u64"
  note bound = unat_u32_mult_bound [of k "info_piece_length i"]
  have mul: "mul_chk (ucast k) (ucast (info_piece_length i)) = Ok ?b"
    using bound by (simp add: mul_chk_def)
  then have ub: "unat ?b = unat k * ?P" using mul_chk_unat [OF mul] by simp
  have add: "add_chk ?b (ucast (info_piece_length i)) = Ok (?b + ucast (info_piece_length i))"
    using bound ub by (simp add: add_chk_def)
  have ue: "unat (?b + ucast (info_piece_length i)) = unat k * ?P + ?P"
    using add_chk_unat [OF add] ub by simp
  have uL: "unat (of_nat ?L :: u64) = ?L" using assms by (rule unat_of_nat_u64)
  have le: "?b \<le> of_nat ?L \<longleftrightarrow> unat k * ?P \<le> ?L"
    and gt: "?b + ucast (info_piece_length i) > of_nat ?L \<longleftrightarrow> ?L < unat k * ?P + ?P"
    using ub ue uL by (simp_all add: word_le_nat_alt word_less_nat_alt)
  show ?thesis
  proof (cases "?L < unat k * ?P + ?P")
    case False
    then have "piece_size i (unat k) = ?P" "unat k * ?P \<le> ?L" by (auto simp: piece_size_def)
    with False mul add gt assms show ?thesis
      by (simp add: get_piece_length_def download_len_eq)
  next
    case True
    show ?thesis
    proof (cases "unat k * ?P \<le> ?L")
      case False
      with True mul add gt le assms show ?thesis
        by (simp add: get_piece_length_def download_len_eq sub_chk_def)
    next
      case inside: True
      have "unat (of_nat ?L - ?b) = ?L - unat k * ?P"
        using inside le ub uL by (simp add: unat_sub)
      moreover from this have "ucast (of_nat ?L - ?b) = (of_nat (?L - unat k * ?P) :: u32)"
        by (metis of_nat_unat)
      moreover have "?L - unat k * ?P < 2 ^ 32"
        using True unat_u32_lt [of "info_piece_length i"] by simp
      moreover have "piece_size i (unat k) = ?L - unat k * ?P" using True by (simp add: piece_size_def)
      ultimately show ?thesis
        using True inside mul add gt le assms
        by (simp add: get_piece_length_def download_len_eq sub_chk_def)
    qed
  qed
qed

lemma wf_info_len: "wf_info i \<Longrightarrow> content_length (info_download_type i) < 2 ^ 64"
  by (simp add: wf_info_def)

lemma wf_info_piece_length: "wf_info i \<Longrightarrow> 0 < unat (info_piece_length i)"
  by (simp add: wf_info_def word_less_nat_alt)

lemma num_pieces_eq:
  assumes "wf_info i"
  shows "num_pieces i = Ok (of_nat (piece_count i))"
proof -
  let ?P = "unat (info_piece_length i)" and ?L = "content_length (info_download_type i)"
  let ?p = "ucast (info_piece_length i) :: u64" and ?l = "of_nat ?L :: u64"
  have P: "0 < ?P" and sum: "?L + ?P < 2 ^ 64"
    using assms wf_info_piece_length by (auto simp: wf_info_def)
  have uL: "unat ?l = ?L" using wf_info_len [OF assms] by (rule unat_of_nat_u64)
  have add: "add_chk ?l ?p = Ok (?l + ?p)" using sum uL by (simp add: add_chk_def)
  then have us: "unat (?l + ?p) = ?L + ?P" using add_chk_unat [OF add] uL by simp
  have sub: "sub_chk (?l + ?p) 1 = Ok (?l + ?p - 1)"
    using us P by (simp add: sub_chk_def word_le_nat_alt)
  have ud: "unat (?l + ?p - 1) = ?L + ?P - 1" using sub_chk_unat [OF sub] us by simp
  have "?p \<noteq> 0" using P by (metis unat_0 unat_ucast_64 less_not_refl)
  then have "num_pieces i = Ok (ucast ((?l + ?p - 1) div ?p))"
    using wf_info_len [OF assms] add sub
    by (simp add: num_pieces_def download_len_eq Let_def div_chk_def)
  moreover have "unat ((?l + ?p - 1) div ?p) = piece_count i"
    using ud by (simp add: piece_count_def unat_div)
  ultimately show ?thesis by (metis of_nat_unat)
qed

lemma piece_count_bounds:
  assumes "wf_info i" and "k < piece_count i"
  shows "k * unat (info_piece_length i) < content_length (info_download_type i)"
proof -
  let ?P = "unat (info_piece_length i)" and ?L = "content_length (info_download_type i)"
  have P: "0 < ?P" using wf_info_piece_length [OF assms(1)] .
  have "Suc k \<le> (?L + ?P - 1) div ?P" using assms(2) by (simp add: piece_count_def)
  then have "Suc k * ?P \<le> ?L + ?P - 1" using P by (simp only: less_eq_div_iff_mult_less_eq)
  then show ?thesis using P by simp
qed

lemma piece_count_covers:
  assumes "wf_info i"
  shows "content_length (info_download_type i) \<le> piece_count i * unat (info_piece_length i)"
proof -
  let ?P = "unat (info_piece_length i)" and ?L = "content_length (info_download_type i)"
  have P: "0 < ?P" using wf_info_piece_length [OF assms] .
  have "?L + ?P - 1 < (Suc (piece_count i)) * ?P"
    unfolding piece_count_def using P by (metis dividend_less_div_times mult_Suc add.commute)
  then show ?thesis using P by simp
qed

lemma get_piece_length_size:
  assumes "wf_info i" and "k < piece_count i"
  shows "get_piece_length i (of_nat k) = Ok (of_nat (piece_size i k))"
    and "0 < piece_size i k" and "piece_size i k \<le> unat (info_piece_length i)"
    and "k * unat (info_piece_length i) + piece_size i k \<le> content_length (info_download_type i)"
    and "piece_size i k < 2 ^ 32"
proof -
  have "k < 2 ^ 32" using assms by (simp add: wf_info_def)
  then have "unat (of_nat k :: u32) = k" by (rule unat_of_nat_u32)
  then show "get_piece_length i (of_nat k) = Ok (of_nat (piece_size i k))"
    using get_piece_length_eq [OF wf_info_len [OF assms(1)], of "of_nat k"] piece_count_bounds [OF assms]
    by simp
  show "0 < piece_size i k" "piece_size i k \<le> unat (info_piece_length i)"
    "k * unat (info_piece_length i) + piece_size i k \<le> content_length (info_download_type i)"
    using piece_count_bounds [OF assms] wf_info_piece_length [OF assms(1)]
    by (auto simp: piece_size_def)
  then show "piece_size i k < 2 ^ 32" using unat_u32_lt [of "info_piece_length i"] by simp
qed

lemma sum_piece_sizes:
  "(\<Sum>k<m. piece_size i k) = min (m * unat (info_piece_length i)) (content_length (info_download_type i))"
  by (induction m) (auto simp: piece_size_def)

section \<open>Properties\<close>

text \<open>
  C27. The pieces partition the content: for a torrent within the arithmetic bounds
  \<open>num_pieces\<close> returns the rounded-up quotient, every piece below it has a nonzero length of at
  most the piece length and ends inside the content, and the lengths add up to the length of
  the content.
\<close>

theorem pieces_partition_content:
  assumes "wf_info i"
  shows "num_pieces i = Ok (of_nat (piece_count i)) \<and>
    (\<forall>k < piece_count i. \<exists>p. get_piece_length i (of_nat k) = Ok p \<and> 0 < p \<and>
       p \<le> info_piece_length i \<and>
       k * unat (info_piece_length i) + unat p \<le> content_length (info_download_type i)) \<and>
    (\<Sum>k < piece_count i. case get_piece_length i (of_nat k) of Ok p \<Rightarrow> unat p | _ \<Rightarrow> 0) =
      content_length (info_download_type i)"
proof -
  have size: "unat (of_nat (piece_size i k) :: u32) = piece_size i k" if "k < piece_count i" for k
    using get_piece_length_size(5) [OF assms that] by (rule unat_of_nat_u32)
  have "(\<Sum>k < piece_count i. case get_piece_length i (of_nat k) of Ok p \<Rightarrow> unat p | _ \<Rightarrow> 0) =
      (\<Sum>k < piece_count i. piece_size i k)"
    by (rule sum.cong) (simp_all add: get_piece_length_size(1) [OF assms] size)
  also have "\<dots> = content_length (info_download_type i)"
    using piece_count_covers [OF assms] by (simp add: sum_piece_sizes)
  moreover have "\<exists>p. get_piece_length i (of_nat k) = Ok p \<and> 0 < p \<and> p \<le> info_piece_length i \<and>
      k * unat (info_piece_length i) + unat p \<le> content_length (info_download_type i)"
    if "k < piece_count i" for k
    using get_piece_length_size [OF assms that] size [OF that]
    by (intro exI [of _ "of_nat (piece_size i k)"]) (simp add: word_less_nat_alt word_le_nat_alt)
  ultimately show ?thesis using num_pieces_eq [OF assms] by simp
qed

definition sample_info :: info where
  "sample_info = \<lparr>info_name = ''sample.txt'', info_piece_length = 32768,
     info_pieces = replicate 3 (replicate 20 0), info_download_type = SingleFile 92063\<rparr>"

lemma wf_sample_info: "wf_info sample_info" "piece_count sample_info = 3"
  by (simp_all add: wf_info_def sample_info_def piece_count_def)

theorem pieces_partition_content_witness:
  "num_pieces sample_info = Ok 3 \<and> (\<exists>p. get_piece_length sample_info (of_nat 2) = Ok p \<and> 0 < p)"
  using pieces_partition_content [OF wf_sample_info(1), THEN conjunct1]
    pieces_partition_content [OF wf_sample_info(1), THEN conjunct2, THEN conjunct1, rule_format, of 2]
    wf_sample_info(2) by auto

text \<open>
  \<open>get_piece_length\<close> on every torrent whose content length fits \<open>u64\<close> and every index: the
  widening to 64 bits makes the product and the sum exact, a piece that starts inside the
  content gets the rest of it or a whole piece, and a piece that starts behind the end makes
  the subtraction overflow.
\<close>

theorem get_piece_length_exact:
  assumes "content_length (info_download_type i) < 2 ^ 64"
  shows "get_piece_length i k =
    (let P = unat (info_piece_length i); L = content_length (info_download_type i)
     in if unat k * P + P \<le> L then Ok (info_piece_length i)
        else if unat k * P \<le> L then Ok (of_nat (L - unat k * P))
        else Panic ArithOverflow)"
  using get_piece_length_eq [OF assms] by (auto simp: Let_def piece_size_def min_def)

theorem get_piece_length_exact_witness:
  "get_piece_length sample_info 2 = Ok 26527 \<and> get_piece_length sample_info 3 = Panic ArithOverflow"
  using get_piece_length_exact [of sample_info] by (simp add: sample_info_def Let_def)

text \<open>
  The piece hashes: a byte string is accepted as the hashes \<open>hs\<close> exactly when every hash has
  twenty bytes and \<open>hs\<close> serializes to that byte string, so both directions of the conversion
  lose nothing and a length that is not a multiple of twenty is refused.
\<close>

theorem pieces_bytes_roundtrip:
  "pieces_visit_bytes v = Ok hs \<longleftrightarrow> (\<forall>h \<in> set hs. length h = 20) \<and> pieces_serialize hs = v"
proof
  assume ok: "pieces_visit_bytes v = Ok hs"
  then have "length v mod 20 = 0" "hs = chunks_exact 20 v"
    by (auto simp: pieces_visit_bytes_def split: if_splits)
  then show "(\<forall>h \<in> set hs. length h = 20) \<and> pieces_serialize hs = v"
    using length_chunks_exact concat_chunks_exact [of 20 v] by (auto simp: pieces_serialize_def)
next
  assume *: "(\<forall>h \<in> set hs. length h = 20) \<and> pieces_serialize hs = v"
  have "length (concat hs) = 20 * length hs"
    using * length_concat_same [of hs 20] by simp
  then show "pieces_visit_bytes v = Ok hs"
    using * chunks_exact_concat [of 20 hs] by (auto simp: pieces_visit_bytes_def pieces_serialize_def)
qed

theorem pieces_bytes_roundtrip_witness:
  "pieces_visit_bytes (replicate 20 1 @ replicate 20 2) = Ok [replicate 20 1, replicate 20 2]"
  using pieces_bytes_roundtrip [of "replicate 20 1 @ replicate 20 2" "[replicate 20 1, replicate 20 2]"]
  by (simp add: pieces_serialize_def)

text \<open>
  Degenerate torrents are not refused when they are read: with a zero piece length the
  number of pieces cannot be computed, whatever the content, and the client panics.
\<close>

theorem zero_piece_length_panics:
  assumes "info_piece_length i = 0"
  shows "num_pieces i = Panic ArithOverflow \<or> num_pieces i = Panic DivByZero"
proof (cases "content_length (info_download_type i) < 2 ^ 64")
  case True
  let ?l = "of_nat (content_length (info_download_type i)) :: u64"
  show ?thesis
  proof (cases "?l = 0")
    case zero: True
    with True assms show ?thesis
      by (simp add: num_pieces_def download_len_eq Let_def add_chk_def sub_chk_def)
  next
    case False
    then have "1 \<le> ?l" by (simp add: word_le_nat_alt unat_gt_0 Suc_le_eq)
    with True assms show ?thesis
      using unat_u64_lt [of ?l]
      by (simp add: num_pieces_def download_len_eq Let_def add_chk_def sub_chk_def div_chk_def)
  qed
qed (simp add: num_pieces_def download_len_eq)

theorem zero_piece_length_panics_witness:
  "num_pieces (sample_info\<lparr>info_piece_length := 0\<rparr>) = Panic ArithOverflow \<or>
   num_pieces (sample_info\<lparr>info_piece_length := 0\<rparr>) = Panic DivByZero"
  by (rule zero_piece_length_panics) simp

end
