(* ===== verification/Downloader.thy ===== *)
theory Downloader
  imports Bitfield PeerMsg MetaInfo
begin

text \<open>
  One connection to a seed, \<open>SeedDownloader\<close> of \<open>src/download/mod.rs\<close>: the pipeline of block
  requests, the reaction to every message of the peer, and the main loop of the task.
  The fields that stand for the network and the channel record what was sent. The connection
  (\<open>tokio\<close>), the channel (\<open>kanal\<close>), the hash function (\<open>sha1\<close>) and the iteration order of a
  hash map are parameters, collected in \<open>env\<close>.
\<close>

section \<open>The state\<close>

record piece_download =
  piece_hash :: "u8 list"
  dl_piece_length :: u32
  requested :: u32
  remaining_blocks :: u16
  dl_bytes :: "u8 list"

record block_download =
  blk_piece_index :: u32
  blk_begin :: u32
  blk_len :: u32

datatype downloader_msg =
    Disconnect socket_addr
  | PieceMsg u32 u32 "u8 list"

text \<open>
  \<open>own_bitfield\<close> is shared with the other tasks behind a mutex; \<open>inflight\<close> is the local counter
  of the task, handed to the methods by reference; \<open>stream_sent\<close> and \<open>tx_sent\<close> are the messages
  written to the peer and to the channel so far.
\<close>

record seed_downloader =
  sd_addr :: socket_addr
  choked_us :: bool
  sd_info :: info
  own_bitfield :: bitfield
  stream_sent :: "message list"
  tx_sent :: "downloader_msg list"
  pending_pieces :: "u32 \<rightharpoonup> piece_download"
  pending_blocks :: "block_download set"
  inflight :: u8

text \<open>
  The parameters: whether a write to the peer and to the channel succeeds given what was
  written before, in which order a hash map is iterated, and the hash of a byte string.
\<close>

record env =
  env_send_ok :: "message list \<Rightarrow> message \<Rightarrow> bool"
  env_tx_ok :: "downloader_msg list \<Rightarrow> downloader_msg \<Rightarrow> bool"
  env_iter_order :: "(u32 \<rightharpoonup> piece_download) \<Rightarrow> u32 list"
  env_sha1 :: "u8 list \<Rightarrow> u8 list"

definition block_size :: u32 where
  "block_size = push_bit 14 1"

definition max_inflight_per_peer :: u8 where
  "max_inflight_per_peer = 5"

section \<open>The code\<close>

definition new_downloader :: "info \<Rightarrow> bitfield \<Rightarrow> socket_addr \<Rightarrow> seed_downloader" where
  "new_downloader i b a =
     \<lparr>sd_addr = a, choked_us = True, sd_info = i, own_bitfield = b, stream_sent = [], tx_sent = [],
      pending_pieces = Map.empty, pending_blocks = {}, inflight = 0\<rparr>"

definition send_message :: "env \<Rightarrow> message \<Rightarrow> (seed_downloader, unit) prog" where
  "send_message env m = (\<lambda>s.
     if env_send_ok env (stream_sent s) m
     then (Ok (), s\<lparr>stream_sent := stream_sent s @ [m]\<rparr>) else (Err IoFailed, s))"

definition send_tx :: "env \<Rightarrow> downloader_msg \<Rightarrow> (seed_downloader, unit) prog" where
  "send_tx env m = (\<lambda>s.
     if env_tx_ok env (tx_sent s) m
     then (Ok (), s\<lparr>tx_sent := tx_sent s @ [m]\<rparr>) else (Err IoFailed, s))"

definition with_bitfield :: "(bitfield, 'a) prog \<Rightarrow> (seed_downloader, 'a) prog" where
  "with_bitfield m = (\<lambda>s. case m (own_bitfield s) of (r, b) \<Rightarrow> (r, s\<lparr>own_bitfield := b\<rparr>))"

text \<open>
  \<open>request_blocks\<close>: one round of its loop, on the piece at hand and the downloader; the result
  says whether the round ends with \<open>break\<close>.
\<close>

definition request_block :: "env \<Rightarrow> u32 \<Rightarrow> (piece_download \<times> seed_downloader, bool) prog" where
  "request_block env piece_index = (\<lambda>(dl, s).
     let rest = dl_piece_length dl - requested dl;
         block_len = (if rest > block_size then block_size else rest);
         block_dl = \<lparr>blk_piece_index = piece_index, blk_begin = requested dl, blk_len = block_len\<rparr>
     in bnd (zoom_snd (send_message env (Request piece_index (requested dl) block_len))) (\<lambda>_.
        bnd (zoom_snd (gets (\<lambda>s. block_dl \<notin> pending_blocks s))) (\<lambda>inserted.
        bnd (zoom_snd (modify (\<lambda>s. s\<lparr>pending_blocks := insert block_dl (pending_blocks s)\<rparr>))) (\<lambda>_.
        bnd (assert_that inserted) (\<lambda>_.
        bnd (lift (add_chk (requested dl) block_len)) (\<lambda>req.
        bnd (modify (\<lambda>(dl, s). (dl\<lparr>requested := req\<rparr>, s))) (\<lambda>_.
        bnd (lift (add_chk (inflight s) 1)) (\<lambda>n.
        bnd (zoom_snd (modify (\<lambda>s. s\<lparr>inflight := n\<rparr>))) (\<lambda>_.
        ret (n = max_inflight_per_peer))))))))) (dl, s))"

lemma request_block_Ok:
  assumes "request_block env i (dl, s) = (Ok brk, (dl', s'))"
  defines "len \<equiv> min (dl_piece_length dl - requested dl) block_size"
  shows "unat (requested dl) + unat len < 2 ^ 32 \<and> dl' = dl\<lparr>requested := requested dl + len\<rparr>"
  using assms
  by (auto simp: request_block_def Let_def send_message_def zoom_snd_def gets_def modify_def
      add_chk_def min_def bnd_def lift_def assert_that_def ret_def split: if_splits)

function request_blocks :: "env \<Rightarrow> u32 \<Rightarrow> (piece_download \<times> seed_downloader, unit) prog" where
  "request_blocks env piece_index (dl, s) =
     (if requested dl < dl_piece_length dl then
        case request_block env piece_index (dl, s) of
          (Ok brk, (dl', s')) \<Rightarrow>
            if brk then (Ok (), (dl', s')) else request_blocks env piece_index (dl', s')
        | (Err e, st) \<Rightarrow> (Err e, st)
        | (Panic p, st) \<Rightarrow> (Panic p, st)
        | (Hang, st) \<Rightarrow> (Hang, st)
      else (Ok (), (dl, s)))"
  by pat_completeness auto
termination
proof (relation "measure (\<lambda>(env, i, dl, s). unat (dl_piece_length dl) - unat (requested dl))")
  fix env i dl s r st brk dl' s'
  assume lt: "requested dl < dl_piece_length dl"
    and step: "(r, st) = request_block env i (dl, s)" "r = Ok brk" "(dl', s') = st" "\<not> brk"
  have "0 < dl_piece_length dl - requested dl"
    using lt by (metis right_minus_eq word_gt_0 less_irrefl)
  then have pos: "0 < unat (min (dl_piece_length dl - requested dl) block_size)"
    by (auto simp: min_def block_size_def unat_gt_0)
  from step have "request_block env i (dl, s) = (Ok brk, (dl', s'))" by simp
  from request_block_Ok [OF this] pos lt
  show "((env, i, dl', s'), (env, i, dl, s)) \<in> measure
      (\<lambda>(env, i, dl, s). unat (dl_piece_length dl) - unat (requested dl))"
    by (auto simp: word_less_nat_alt unat_word_ariths)
qed auto

declare request_blocks.simps [simp del]

text \<open>\<open>request_pieces\<close>: the pieces already started, then at most one new piece.\<close>

definition continue_piece :: "env \<Rightarrow> u32 \<Rightarrow> (seed_downloader, unit) prog" where
  "continue_piece env k = (\<lambda>s.
     case pending_pieces s k of
       None \<Rightarrow> (Ok (), s)
     | Some dl \<Rightarrow>
         bnd (assert_that (requested dl \<le> dl_piece_length dl)) (\<lambda>_.
         bnd (assert_that (remaining_blocks dl > 0)) (\<lambda>_.
         if requested dl = dl_piece_length dl then ret ()
         else (\<lambda>s. case request_blocks env k (dl, s) of
             (r, (dl', s')) \<Rightarrow> (r, s'\<lparr>pending_pieces := (pending_pieces s')(k \<mapsto> dl')\<rparr>)))) s)"

primrec continue_pieces :: "env \<Rightarrow> u32 list \<Rightarrow> (seed_downloader, unit) prog" where
  "continue_pieces env [] = ret ()"
| "continue_pieces env (k # ks) = bnd (continue_piece env k) (\<lambda>_. continue_pieces env ks)"

definition start_piece :: "env \<Rightarrow> u32 \<Rightarrow> (seed_downloader, unit) prog" where
  "start_piece env piece_index = (\<lambda>s.
     bnd (lift (get_piece_length (sd_info s) piece_index)) (\<lambda>piece_length.
     bnd (lift (and_then (add_chk piece_length block_size) (\<lambda>x. sub_chk x 1))) (\<lambda>x.
     let num_blocks = x div block_size in
     bnd (lift (if unat piece_index < length (info_pieces (sd_info s))
                then Ok (info_pieces (sd_info s) ! unat piece_index) else Panic OutOfBounds)) (\<lambda>hash.
     let piece_dl = \<lparr>piece_hash = hash, dl_piece_length = piece_length, requested = 0,
           remaining_blocks = ucast num_blocks, dl_bytes = replicate (unat piece_length) 0\<rparr> in
     (\<lambda>s. case request_blocks env piece_index (piece_dl, s) of
        (r, (dl', s')) \<Rightarrow>
          (case r of
             Ok u \<Rightarrow>
               bnd (gets (\<lambda>s. pending_pieces s piece_index = None)) (\<lambda>fresh.
               bnd (modify (\<lambda>s. s\<lparr>pending_pieces := (pending_pieces s)(piece_index \<mapsto> dl')\<rparr>)) (\<lambda>_.
               assert_that fresh)) s'
           | _ \<Rightarrow> (r, s')))))) s)"

text \<open>
  The method is given in the parts between which other tasks may run: everything up to the lock on
  the bitfield, with the result whether it gets there, and what follows the lock.
\<close>

definition request_more :: "env \<Rightarrow> (seed_downloader, bool) prog" where
  "request_more env =
     bnd (gets choked_us) (\<lambda>choked.
     if choked then ret False
     else
       bnd (gets pending_pieces) (\<lambda>pieces.
       bnd (continue_pieces env (env_iter_order env pieces)) (\<lambda>_.
       bnd (gets inflight) (\<lambda>n. ret (n < max_inflight_per_peer)))))"

definition begin_piece :: "env \<Rightarrow> u32 option \<Rightarrow> (seed_downloader, unit) prog" where
  "begin_piece env picked =
     (case picked of
        None \<Rightarrow> ret ()
      | Some piece_index \<Rightarrow>
          bnd (gets (\<lambda>s. pending_pieces s piece_index \<noteq> None)) (\<lambda>dup.
          if dup then ret () else start_piece env piece_index))"

definition request_pieces :: "env \<Rightarrow> (seed_downloader, unit) prog" where
  "request_pieces env =
     bnd (request_more env) (\<lambda>more.
     if more then bnd (with_bitfield pick_piece) (begin_piece env) else ret ())"

definition validate_piece :: "env \<Rightarrow> u8 list \<Rightarrow> u8 list \<Rightarrow> bool" where
  "validate_piece env piece hash \<longleftrightarrow> hash = env_sha1 env piece"

text \<open>\<open>Vec::splice\<close> with the replaced range dropped.\<close>

definition splice_vec :: "usize \<Rightarrow> usize \<Rightarrow> 'a list \<Rightarrow> 'a list \<Rightarrow> 'a list res" where
  "splice_vec lo hi new v =
     (if lo \<le> hi \<and> hi \<le> length v then Ok (take lo v @ new @ drop hi v) else Panic OutOfBounds)"

definition reset_piece :: "piece_download \<Rightarrow> piece_download res" where
  "reset_piece dl =
     and_then (add_chk (dl_piece_length dl) block_size) (\<lambda>x.
     and_then (sub_chk x 1) (\<lambda>y.
       Ok (dl\<lparr>requested := 0, remaining_blocks := ucast (y div block_size)\<rparr>)))"

text \<open>The loop of the \<open>Choke\<close> handler over the pending pieces.\<close>

primrec reset_pieces :: "u32 list \<Rightarrow> (seed_downloader, unit) prog" where
  "reset_pieces [] = ret ()"
| "reset_pieces (k # ks) = (\<lambda>s.
     case pending_pieces s k of
       None \<Rightarrow> reset_pieces ks s
     | Some dl \<Rightarrow>
         (case reset_piece dl of
            Ok dl' \<Rightarrow> reset_pieces ks (s\<lparr>pending_pieces := (pending_pieces s)(k \<mapsto> dl')\<rparr>)
          | Err e \<Rightarrow> (Err e, s)
          | Panic p \<Rightarrow> (Panic p, s\<lparr>pending_pieces := (pending_pieces s)(k \<mapsto> dl\<lparr>requested := 0\<rparr>)\<rparr>)
          | Hang \<Rightarrow> (Hang, s)))"

text \<open>
  The \<open>Piece\<close> handler: the block is stored (the result says whether it was the last one of its
  piece); a finished piece is marked, taken out and tested, which yields the message for the
  channel; the message is sent. The lock on the bitfield is held from the mark to the end of
  the sending.
\<close>

definition store_block :: "u32 \<Rightarrow> u32 \<Rightarrow> u8 list \<Rightarrow> (seed_downloader, bool) prog" where
  "store_block index begin block =
     (let block_dl = \<lparr>blk_piece_index = index, blk_begin = begin, blk_len = of_nat (length block)\<rparr> in
     bnd (gets (\<lambda>s. block_dl \<in> pending_blocks s)) (\<lambda>removed.
     bnd (modify (\<lambda>s. s\<lparr>pending_blocks := pending_blocks s - {block_dl}\<rparr>)) (\<lambda>_.
     bnd (ensure removed (Anyhow ''received unrequested block'')) (\<lambda>_.
     bnd (gets (\<lambda>s. pending_pieces s index)) (\<lambda>entry.
     case entry of
       None \<Rightarrow> lift (Err (Anyhow ''received block for unrequested piece''))
     | Some dl \<Rightarrow>
         bnd (lift (sub_chk (remaining_blocks dl) 1)) (\<lambda>left.
         bnd (modify (\<lambda>s. s\<lparr>pending_pieces := (pending_pieces s)(index \<mapsto> dl\<lparr>remaining_blocks := left\<rparr>)\<rparr>)) (\<lambda>_.
         bnd (gets inflight) (\<lambda>n.
         bnd (lift (sub_chk n 1)) (\<lambda>n'.
         bnd (modify (\<lambda>s. s\<lparr>inflight := n'\<rparr>)) (\<lambda>_.
         bnd (lift (splice_vec (unat begin) (unat begin + length block) block (dl_bytes dl))) (\<lambda>bytes.
         let dl' = dl\<lparr>remaining_blocks := left, dl_bytes := bytes\<rparr> in
         bnd (modify (\<lambda>s. s\<lparr>pending_pieces := (pending_pieces s)(index \<mapsto> dl')\<rparr>)) (\<lambda>_.
         ret (left = 0)))))))))))))"

definition mark_piece :: "env \<Rightarrow> u32 \<Rightarrow> (seed_downloader, downloader_msg) prog" where
  "mark_piece env index =
     bnd (with_bitfield (set_piece index)) (\<lambda>_.
     bnd (gets (\<lambda>s. pending_pieces s index)) (\<lambda>entry.
     case entry of
       None \<Rightarrow> lift (Panic UnwrapFailed)
     | Some dl \<Rightarrow>
         bnd (modify (\<lambda>s. s\<lparr>pending_pieces := (pending_pieces s)(index := None)\<rparr>)) (\<lambda>_.
         bnd (ensure (validate_piece env (dl_bytes dl) (piece_hash dl))
               (Anyhow ''piece validation failed'')) (\<lambda>_.
         ret (PieceMsg index (dl_piece_length dl) (dl_bytes dl))))))"

definition finish_piece :: "env \<Rightarrow> u32 \<Rightarrow> (seed_downloader, unit) prog" where
  "finish_piece env index = bnd (mark_piece env index) (send_tx env)"

definition handle_piece :: "env \<Rightarrow> u32 \<Rightarrow> u32 \<Rightarrow> u8 list \<Rightarrow> (seed_downloader, unit) prog" where
  "handle_piece env index begin block =
     bnd (store_block index begin block) (\<lambda>last.
     bnd (if last then finish_piece env index else ret ()) (\<lambda>_.
     request_pieces env))"

definition handle_msg :: "env \<Rightarrow> message \<Rightarrow> (seed_downloader, unit) prog" where
  "handle_msg env msg =
     (case msg of
        KeepAlive \<Rightarrow> ret ()
      | Choke \<Rightarrow>
          bnd (modify (\<lambda>s. s\<lparr>choked_us := True\<rparr>)) (\<lambda>_.
          bnd (gets pending_pieces) (\<lambda>pieces.
          bnd (reset_pieces (env_iter_order env pieces)) (\<lambda>_.
          modify (\<lambda>s. s\<lparr>pending_blocks := {}\<rparr>))))
      | Unchoke \<Rightarrow>
          bnd (gets choked_us) (\<lambda>choked.
          if \<not> choked then ret ()
          else bnd (modify (\<lambda>s. s\<lparr>choked_us := False\<rparr>)) (\<lambda>_. request_pieces env))
      | BitfieldMsg _ \<Rightarrow> lift (Err (Anyhow ''sent bitfield out of order''))
      | Have _ \<Rightarrow> ret ()
      | Request _ _ _ \<Rightarrow> lift (Panic TodoReached)
      | Interested \<Rightarrow> ret ()
      | NotInterested \<Rightarrow> ret ()
      | Piece index begin block \<Rightarrow> handle_piece env index begin block
      | Cancel _ _ _ \<Rightarrow> lift (Panic TodoReached))"

text \<open>
  The loop of the task. What one round waits for is its input: the keep-alive timer fires, the
  stream ends, the stream reports an error, or a message arrives. The result says whether
  the loop ends; errors of the handlers are only printed.
\<close>

datatype download_input =
    KeepAliveTimeout
  | StreamEnd
  | StreamError
  | Received message

definition ignore_err :: "('s, unit) prog \<Rightarrow> ('s, unit) prog" where
  "ignore_err m = (\<lambda>s. case m s of (Err e, s') \<Rightarrow> (Ok (), s') | out \<Rightarrow> out)"

definition download_round :: "env \<Rightarrow> download_input \<Rightarrow> (seed_downloader, bool) prog" where
  "download_round env inp =
     bnd (gets own_bitfield) (\<lambda>b.
     bnd (lift (remaining b)) (\<lambda>left.
     if left = 0 then ret True
     else
       case inp of
         KeepAliveTimeout \<Rightarrow> bnd (ignore_err (send_message env KeepAlive)) (\<lambda>_. ret False)
       | StreamEnd \<Rightarrow>
           bnd (gets sd_addr) (\<lambda>a. bnd (ignore_err (send_tx env (Disconnect a))) (\<lambda>_. ret True))
       | StreamError \<Rightarrow> ret False
       | Received msg \<Rightarrow> bnd (ignore_err (handle_msg env msg)) (\<lambda>_. ret False)))"

section \<open>The blocks of a piece\<close>

text \<open>
  A piece of \<open>len\<close> bytes is requested as \<open>num_blocks len\<close> blocks; \<open>block_pos len j\<close> is what
  \<open>requested\<close> holds after \<open>j\<close> of them.
\<close>

definition num_blocks :: "nat \<Rightarrow> nat" where
  "num_blocks len = (len + 16383) div 16384"

definition block_pos :: "nat \<Rightarrow> nat \<Rightarrow> nat" where
  "block_pos len j = min len (j * 16384)"

definition block_len_at :: "nat \<Rightarrow> nat \<Rightarrow> nat" where
  "block_len_at len j = min 16384 (len - j * 16384)"

definition block_at :: "u32 \<Rightarrow> nat \<Rightarrow> nat \<Rightarrow> block_download" where
  "block_at k len j =
     \<lparr>blk_piece_index = k, blk_begin = of_nat (block_pos len j), blk_len = of_nat (block_len_at len j)\<rparr>"

definition request_at :: "u32 \<Rightarrow> nat \<Rightarrow> nat \<Rightarrow> message" where
  "request_at k len j = Request k (of_nat (block_pos len j)) (of_nat (block_len_at len j))"

lemma block_size_eq: "block_size = 16384"
  by (simp add: block_size_def)

lemma block_at_index [simp]: "blk_piece_index (block_at k len j) = k"
  by (simp add: block_at_def)

lemma less_num_blocks: "j < num_blocks len \<longleftrightarrow> j * 16384 < len"
proof -
  have "j < num_blocks len \<longleftrightarrow> Suc j * 16384 \<le> len + 16383"
    unfolding num_blocks_def by (simp only: Suc_le_eq [symmetric] less_eq_div_iff_mult_less_eq zero_less_numeral)
  also have "\<dots> \<longleftrightarrow> j * 16384 < len" by auto
  finally show ?thesis .
qed

lemma num_blocks_pos: "0 < len \<longleftrightarrow> 0 < num_blocks len"
  by (simp add: less_num_blocks)

lemma block_pos_0 [simp]: "block_pos len 0 = 0"
  by (simp add: block_pos_def)

lemma block_pos_all [simp]: "num_blocks len \<le> j \<Longrightarrow> block_pos len j = len"
  using less_num_blocks [of j len] by (simp add: block_pos_def)

lemma block_pos_le: "block_pos len j \<le> len"
  by (simp add: block_pos_def)

lemma block_pos_lt: "j < num_blocks len \<Longrightarrow> block_pos len j = j * 16384 \<and> block_pos len j < len"
  by (simp add: less_num_blocks block_pos_def)

lemma block_pos_Suc: "block_pos len (Suc j) = block_pos len j + block_len_at len j"
  by (auto simp: block_pos_def block_len_at_def)

lemma unat_block_pos: "len < 2 ^ 32 \<Longrightarrow> unat (of_nat (block_pos len j) :: u32) = block_pos len j"
  using block_pos_le [of len j] by (intro unat_of_nat_u32) simp

lemma unat_block_len: "unat (of_nat (block_len_at len j) :: u32) = block_len_at len j"
  by (rule unat_of_nat_u32) (simp add: block_len_at_def)

lemma block_at_inj:
  assumes "i < num_blocks len" and "j < num_blocks len" and "len < 2 ^ 32"
  shows "block_at k len i = block_at k len j \<longleftrightarrow> i = j"
proof
  assume "block_at k len i = block_at k len j"
  then have "unat (of_nat (block_pos len i) :: u32) = unat (of_nat (block_pos len j) :: u32)"
    by (simp add: block_at_def)
  then have "block_pos len i = block_pos len j"
    by (simp only: unat_block_pos [OF assms(3)])
  then show "i = j"
    using block_pos_lt [OF assms(1)] block_pos_lt [OF assms(2)] by simp
qed simp

lemma inj_block_at: "len < 2 ^ 32 \<Longrightarrow> A \<subseteq> {..<num_blocks len} \<Longrightarrow> inj_on (block_at k len) A"
  by (rule inj_onI) (metis block_at_inj lessThan_iff subsetD)

section \<open>The request loop in closed form\<close>

text \<open>A connection on which every write succeeds.\<close>

definition link_up :: "env \<Rightarrow> bool" where
  "link_up env \<longleftrightarrow> (\<forall>sent m. env_send_ok env sent m)"

text \<open>How many blocks \<open>request_blocks\<close> asks for when \<open>n\<close> are in flight and \<open>todo\<close> are left.\<close>

definition burst :: "nat \<Rightarrow> nat \<Rightarrow> nat" where
  "burst n todo = (if n < 5 then min (5 - n) todo else todo)"

definition after_requests :: "u32 \<Rightarrow> nat \<Rightarrow> nat \<Rightarrow> nat \<Rightarrow> seed_downloader \<Rightarrow> seed_downloader" where
  "after_requests k len j m s =
     s\<lparr>stream_sent := stream_sent s @ map (request_at k len) [j..<j + m],
       pending_blocks := pending_blocks s \<union> block_at k len ` {j..<j + m},
       inflight := inflight s + of_nat m\<rparr>"

lemma link_up_send: "link_up env \<Longrightarrow> env_send_ok env sent m"
  by (simp add: link_up_def)

lemma request_block_up:
  assumes up: "env_send_ok env (stream_sent s) (Request k (requested dl) l)"
    and fresh: "\<lparr>blk_piece_index = k, blk_begin = requested dl, blk_len = l\<rparr> \<notin> pending_blocks s"
    and l: "(if dl_piece_length dl - requested dl > block_size then block_size
             else dl_piece_length dl - requested dl) = l"
    and r: "add_chk (requested dl) l = Ok r"
  defines "s' \<equiv> s\<lparr>stream_sent := stream_sent s @ [Request k (requested dl) l],
      pending_blocks := insert \<lparr>blk_piece_index = k, blk_begin = requested dl, blk_len = l\<rparr> (pending_blocks s)\<rparr>"
  shows "request_block env k (dl, s) =
    (if unat (inflight s) + 1 < 256
     then (Ok (inflight s + 1 = 5), (dl\<lparr>requested := r\<rparr>, s'\<lparr>inflight := inflight s + 1\<rparr>))
     else (Panic ArithOverflow, (dl\<lparr>requested := r\<rparr>, s')))"
proof -
  have send: "zoom_snd (send_message env (Request k (requested dl) l)) (dl, s) =
      (Ok (), (dl, s\<lparr>stream_sent := stream_sent s @ [Request k (requested dl) l]\<rparr>))"
    using up by (simp add: send_message_def zoom_snd_def)
  have z: "zoom_snd (gets f) (d, x) = (Ok (f x), (d, x))"
    "zoom_snd (modify g) (d, x) = (Ok (), (d, g x))" for f :: "seed_downloader \<Rightarrow> 'b" and g d x
    by (simp_all add: zoom_snd_def)
  show ?thesis
    unfolding request_block_def prod.case Let_def l bnd_def send
    using fresh by (simp add: z r add_chk_def [of "inflight s"] max_inflight_per_peer_def s'_def)
qed

text \<open>What the next round of the loop asks for, and the position after it.\<close>

lemma next_block:
  assumes len: "len = unat (dl_piece_length dl)" and req: "requested dl = of_nat (block_pos len j)" and j: "j < num_blocks len"
  shows "(if dl_piece_length dl - requested dl > block_size then block_size
          else dl_piece_length dl - requested dl) = of_nat (block_len_at len j)"
    and "add_chk (requested dl) (of_nat (block_len_at len j)) = Ok (of_nat (block_pos len (Suc j)))"
    and "requested dl < dl_piece_length dl"
proof -
  have len32: "len < 2 ^ 32" unfolding len by (rule unat_u32_lt)
  have ur: "unat (requested dl) = j * 16384" and lt: "j * 16384 < len"
    using j req block_pos_lt [OF j] unat_block_pos [OF len32, of j] by (simp_all add: less_num_blocks)
  show "requested dl < dl_piece_length dl" using lt ur by (simp add: word_less_nat_alt len)
  then have urest: "unat (dl_piece_length dl - requested dl) = len - j * 16384"
    by (simp add: unat_sub ur len)
  let ?rest = "dl_piece_length dl - requested dl"
  show "(if ?rest > block_size then block_size else ?rest) = of_nat (block_len_at len j)"
  proof (cases "?rest > block_size")
    case True
    then have "16384 < len - j * 16384" by (simp add: block_size_eq word_less_nat_alt urest)
    with True show ?thesis by (simp add: block_size_eq block_len_at_def)
  next
    case False
    then have "\<not> 16384 < len - j * 16384" by (simp add: block_size_eq word_less_nat_alt urest)
    then have "block_len_at len j = unat ?rest" by (simp add: block_len_at_def urest)
    with False show ?thesis by simp
  qed
  have pos: "block_pos len (Suc j) = j * 16384 + block_len_at len j"
    using block_pos_lt [OF j] by (simp add: block_pos_Suc)
  have "unat (requested dl) + block_len_at len j < 2 ^ 32"
    using block_pos_le [of len "Suc j"] len32 pos ur by simp
  then show "add_chk (requested dl) (of_nat (block_len_at len j)) = Ok (of_nat (block_pos len (Suc j)))"
    by (simp add: add_chk_def unat_block_len) (simp add: req block_pos_Suc)
qed

lemma request_block_step:
  assumes up: "env_send_ok env (stream_sent s) (request_at k len j)" and len: "len = unat (dl_piece_length dl)"
    and req: "requested dl = of_nat (block_pos len j)" and j: "j < num_blocks len"
    and fresh: "block_at k len j \<notin> pending_blocks s"
  shows "request_block env k (dl, s) =
    (if unat (inflight s) + 1 < 256
     then (Ok (inflight s + 1 = 5),
           (dl\<lparr>requested := of_nat (block_pos len (Suc j))\<rparr>, after_requests k len j 1 s))
     else (Panic ArithOverflow,
           (dl\<lparr>requested := of_nat (block_pos len (Suc j))\<rparr>,
            (after_requests k len j 1 s)\<lparr>inflight := inflight s\<rparr>)))"
proof -
  note next_one = next_block [OF len req j]
  have fresh': "\<lparr>blk_piece_index = k, blk_begin = requested dl, blk_len = of_nat (block_len_at len j)\<rparr>
      \<notin> pending_blocks s"
    using fresh by (simp add: req block_at_def)
  have "env_send_ok env (stream_sent s) (Request k (requested dl) (of_nat (block_len_at len j)))"
    using up by (simp add: request_at_def req)
  from request_block_up [OF this fresh' next_one(1,2)] show ?thesis
    by (simp add: block_at_def request_at_def req after_requests_def)
qed

text \<open>A round whose write fails, and a round for a block that is pending already.\<close>

lemma request_block_down:
  assumes down: "\<not> env_send_ok env (stream_sent s) (request_at k len j)" and len: "len = unat (dl_piece_length dl)"
    and req: "requested dl = of_nat (block_pos len j)" and j: "j < num_blocks len"
  shows "request_block env k (dl, s) = (Err IoFailed, (dl, s))"
proof -
  have "send_message env (Request k (requested dl) (of_nat (block_len_at len j))) s = (Err IoFailed, s)"
    using down by (simp add: send_message_def request_at_def req)
  then show ?thesis
    unfolding request_block_def prod.case Let_def next_block(1) [OF len req j] by (simp add: bnd_def zoom_snd_def)
qed

lemma request_block_again:
  assumes up: "env_send_ok env (stream_sent s) (request_at k len j)" and len: "len = unat (dl_piece_length dl)"
    and req: "requested dl = of_nat (block_pos len j)" and j: "j < num_blocks len"
    and again: "block_at k len j \<in> pending_blocks s"
  shows "fst (request_block env k (dl, s)) = Panic AssertFailed"
proof -
  have "send_message env (Request k (requested dl) (of_nat (block_len_at len j))) s =
      (Ok (), s\<lparr>stream_sent := stream_sent s @ [request_at k len j]\<rparr>)"
    using up by (simp add: send_message_def request_at_def req)
  moreover have "\<lparr>blk_piece_index = k, blk_begin = requested dl, blk_len = of_nat (block_len_at len j)\<rparr> \<in> pending_blocks s"
    using again by (simp add: req block_at_def)
  ultimately show ?thesis
    unfolding request_block_def prod.case Let_def next_block(1) [OF len req j]
    by (simp add: bnd_def zoom_snd_def gets_def modify_def assert_that_def)
qed

text \<open>The loop of \<open>request_blocks\<close>.\<close>

lemma burst_0 [simp]: "burst n 0 = 0"
  by (simp add: burst_def)

lemma after_requests_0 [simp]: "after_requests k len j 0 s = s"
  by (simp add: after_requests_def)

lemma after_requests_step:
  "after_requests k len (Suc j) m (after_requests k len j (Suc 0) s) = after_requests k len j (Suc m) s"
proof -
  have "[j..<Suc (j + m)] = j # [Suc j..<Suc (j + m)]" by (simp add: upt_conv_Cons)
  moreover have "{j..<Suc (j + m)} = insert j {Suc j..<Suc (j + m)}" by auto
  ultimately show ?thesis by (simp add: after_requests_def Un_insert_left Un_commute)
qed

lemma request_blocks_eq:
  assumes up: "link_up env" and len: "len = unat (dl_piece_length dl)"
    and req: "requested dl = of_nat (block_pos len j)" and j: "j \<le> num_blocks len"
    and fresh: "\<forall>i \<in> {j..<num_blocks len}. block_at k len i \<notin> pending_blocks s"
  defines "m \<equiv> burst (unat (inflight s)) (num_blocks len - j)"
  shows "if unat (inflight s) + m < 256
    then request_blocks env k (dl, s) =
      (Ok (), (dl\<lparr>requested := of_nat (block_pos len (j + m))\<rparr>, after_requests k len j m s))
    else fst (request_blocks env k (dl, s)) = Panic ArithOverflow"
  using len req j fresh unfolding m_def
proof (induction "num_blocks len - j" arbitrary: j dl s)
  case 0
  then have "requested dl = dl_piece_length dl" by simp
  moreover have "dl\<lparr>requested := dl_piece_length dl\<rparr> = dl" if "requested dl = dl_piece_length dl"
    using that by (metis piece_download.surjective piece_download.update_convs(3))
  ultimately show ?case
    using 0 unat_u8_lt [of "inflight s"] by (simp add: request_blocks.simps)
next
  case (Suc d)
  then have j: "j < num_blocks len" by simp
  let ?dl = "dl\<lparr>requested := of_nat (block_pos len (Suc j))\<rparr>"
  let ?s = "after_requests k len j 1 s"
  have len32: "len < 2 ^ 32" unfolding Suc.prems(1) by (rule unat_u32_lt)
  have lt: "requested dl < dl_piece_length dl"
    using block_pos_lt [OF j] unat_block_pos [OF len32, of j] Suc.prems(1,2)
    by (simp add: word_less_nat_alt)
  note step = request_block_step [OF link_up_send [OF up] Suc.prems(1,2) j, of k s]
  have fr: "block_at k len j \<notin> pending_blocks s" using Suc.prems(4) j by simp
  show ?case
  proof (cases "unat (inflight s) + 1 < 256")
    case False
    then have "fst (request_blocks env k (dl, s)) = Panic ArithOverflow"
      using step [OF fr] lt by (simp add: request_blocks.simps)
    moreover have "0 < burst (unat (inflight s)) (num_blocks len - j)"
      using False j by (simp add: burst_def)
    ultimately show ?thesis using False by simp
  next
    case True
    then have infl: "unat (inflight ?s) = unat (inflight s) + 1"
      by (simp add: after_requests_def unat_word_ariths)
    have stop: "inflight s + 1 = 5 \<longleftrightarrow> unat (inflight s) = 4"
      using infl by (simp add: after_requests_def word_unat_eq_iff)
    have run: "request_blocks env k (dl, s) =
        (if unat (inflight s) = 4 then (Ok (), (?dl, ?s)) else request_blocks env k (?dl, ?s))"
      using step [OF fr] lt True stop by (simp add: request_blocks.simps [of env k dl s])
    show ?thesis
    proof (cases "unat (inflight s) = 4")
      case True
      then show ?thesis using run j by (simp add: burst_def)
    next
      case False
      have "\<forall>i \<in> {Suc j..<num_blocks len}. block_at k len i \<notin> pending_blocks ?s"
        using Suc.prems(4) j len32 by (auto simp: after_requests_def block_at_inj)
      moreover have "d = num_blocks len - Suc j" using Suc.hyps(2) by simp
      ultimately have IH: "if unat (inflight ?s) + burst (unat (inflight ?s)) (num_blocks len - Suc j) < 256
          then request_blocks env k (?dl, ?s) =
            (Ok (), (?dl\<lparr>requested := of_nat (block_pos len (Suc j + burst (unat (inflight ?s)) (num_blocks len - Suc j)))\<rparr>,
              after_requests k len (Suc j) (burst (unat (inflight ?s)) (num_blocks len - Suc j)) ?s))
          else fst (request_blocks env k (?dl, ?s)) = Panic ArithOverflow"
        using j Suc.prems(1) by (intro Suc.hyps(1)) simp_all
      have "burst (unat (inflight s)) (num_blocks len - j) =
          Suc (burst (unat (inflight ?s)) (num_blocks len - Suc j))"
        using False j unfolding infl burst_def by auto
      then show ?thesis
        using IH run False infl by (simp add: after_requests_step split: if_splits)
    qed
  qed
qed

end
