(* ===== verification/Pipeline.thy ===== *)
theory Pipeline
  imports Downloader
begin

text \<open>
  What the downloader of one connection guarantees: only pieces whose hash matches reach the
  channel, the bookkeeping of the request pipeline is consistent, and the bytes of an honest
  peer are assembled whatever the order of its answers.
\<close>

section \<open>The parts of the handlers\<close>

lemma bnd_if: "bnd (if c then m else n) f = (if c then bnd m f else bnd n f)"
  by simp

lemma request_pieces_unfold:
  "request_pieces env =
     bnd (gets choked_us) (\<lambda>choked.
     if choked then ret ()
     else
       bnd (gets pending_pieces) (\<lambda>pieces.
       bnd (continue_pieces env (env_iter_order env pieces)) (\<lambda>_.
       bnd (gets inflight) (\<lambda>n.
       if n < max_inflight_per_peer then bnd (with_bitfield pick_piece) (begin_piece env) else ret ()))))"
  unfolding request_pieces_def request_more_def bnd_assoc bnd_if bnd_ret by simp

section \<open>Invariants of programs\<close>

text \<open>\<open>keeps I m\<close>: every outcome of \<open>m\<close>, errors and panics included, leaves \<open>I\<close> true.\<close>

definition keeps :: "('s \<Rightarrow> bool) \<Rightarrow> ('s, 'a) prog \<Rightarrow> bool" where
  "keeps I m \<longleftrightarrow> (\<forall>s. I s \<longrightarrow> I (snd (m s)))"

named_theorems keeps \<open>programs that keep an invariant\<close>

lemma keepsD: "keeps I m \<Longrightarrow> I s \<Longrightarrow> m s = (r, s') \<Longrightarrow> I s'"
  unfolding keeps_def by (metis snd_conv)

lemma keeps_ret [keeps]: "keeps I (ret a)"
  and keeps_lift [keeps]: "keeps I (lift r)"
  and keeps_gets [keeps]: "keeps I (gets f)"
  and keeps_ensure [keeps]: "keeps I (ensure c e)"
  and keeps_assert [keeps]: "keeps I (assert_that c)"
  by (simp_all add: keeps_def)

lemma keeps_modify [keeps]: "(\<And>s. I s \<Longrightarrow> I (f s)) \<Longrightarrow> keeps I (modify f)"
  by (simp add: keeps_def)

lemma keeps_bnd [keeps]: "keeps I m \<Longrightarrow> (\<And>a. keeps I (f a)) \<Longrightarrow> keeps I (bnd m f)"
  by (auto simp: keeps_def bnd_def split: prod.splits res.splits)


lemma keeps_if [keeps]: "keeps I m \<Longrightarrow> keeps I n \<Longrightarrow> keeps I (if c then m else n)"
  by simp

lemma keeps_Pair [keeps]: "keeps I (Pair r)"
  by (simp add: keeps_def)

lemma keeps_if_at: "keeps I m \<Longrightarrow> keeps I n \<Longrightarrow> keeps I (\<lambda>s. if c s then m s else n s)"
  by (simp add: keeps_def)

lemma keeps_at: "(\<And>s. I s \<Longrightarrow> keeps I (m s)) \<Longrightarrow> keeps I (\<lambda>s. m s s)"
  by (simp add: keeps_def)

lemma keeps_ignore_err [keeps]: "keeps I m \<Longrightarrow> keeps I (ignore_err m)"
  unfolding keeps_def ignore_err_def by (auto split: prod.splits res.splits)

section \<open>Only validated pieces reach the channel\<close>

fun tx_msg_ok :: "env \<Rightarrow> info \<Rightarrow> downloader_msg \<Rightarrow> bool" where
  "tx_msg_ok env i (Disconnect a) \<longleftrightarrow> True"
| "tx_msg_ok env i (PieceMsg k len bytes) \<longleftrightarrow> unat k < length (info_pieces i) \<and>
     env_sha1 env bytes = info_pieces i ! unat k \<and>
     get_piece_length i k = Ok len \<and> length bytes = unat len"

definition piece_dl_ok :: "info \<Rightarrow> u32 \<Rightarrow> piece_download \<Rightarrow> bool" where
  "piece_dl_ok i k dl \<longleftrightarrow> unat k < length (info_pieces i) \<and> piece_hash dl = info_pieces i ! unat k \<and>
     get_piece_length i k = Ok (dl_piece_length dl) \<and> length (dl_bytes dl) = unat (dl_piece_length dl)"

definition hash_inv :: "env \<Rightarrow> info \<Rightarrow> seed_downloader \<Rightarrow> bool" where
  "hash_inv env i s \<longleftrightarrow> sd_info s = i \<and>
     (\<forall>k dl. pending_pieces s k = Some dl \<longrightarrow> piece_dl_ok i k dl) \<and>
     (\<forall>m \<in> set (tx_sent s). tx_msg_ok env i m)"

lemma piece_dl_ok_update [simp]:
  "piece_dl_ok i k (dl\<lparr>requested := q\<rparr>) = piece_dl_ok i k dl"
  "piece_dl_ok i k (dl\<lparr>remaining_blocks := n\<rparr>) = piece_dl_ok i k dl"
  by (simp_all add: piece_dl_ok_def)

lemma piece_dl_ok_bytes:
  "piece_dl_ok i k dl \<Longrightarrow> length bs = length (dl_bytes dl) \<Longrightarrow> piece_dl_ok i k (dl\<lparr>dl_bytes := bs\<rparr>)"
  by (simp add: piece_dl_ok_def)

lemma hash_inv_update [simp]:
  "hash_inv env i (s\<lparr>stream_sent := x1\<rparr>) = hash_inv env i s"
  "hash_inv env i (s\<lparr>pending_blocks := x2\<rparr>) = hash_inv env i s"
  "hash_inv env i (s\<lparr>inflight := x3\<rparr>) = hash_inv env i s"
  "hash_inv env i (s\<lparr>own_bitfield := x4\<rparr>) = hash_inv env i s"
  "hash_inv env i (s\<lparr>choked_us := x5\<rparr>) = hash_inv env i s"
  by (simp_all add: hash_inv_def)

lemma hash_inv_update_pending [simp]:
  "hash_inv env i (s\<lparr>pending_blocks := x2, pending_pieces := p\<rparr>) = hash_inv env i (s\<lparr>pending_pieces := p\<rparr>)"
  "hash_inv env i (s\<lparr>inflight := x3, pending_pieces := p\<rparr>) = hash_inv env i (s\<lparr>pending_pieces := p\<rparr>)"
  "hash_inv env i (s\<lparr>own_bitfield := x4, pending_pieces := p\<rparr>) = hash_inv env i (s\<lparr>pending_pieces := p\<rparr>)"
  by (simp_all add: hash_inv_def)

lemma hash_inv_put:
  "hash_inv env i s \<Longrightarrow> piece_dl_ok i k dl \<Longrightarrow>
   hash_inv env i (s\<lparr>pending_pieces := (pending_pieces s)(k \<mapsto> dl)\<rparr>)"
  by (simp add: hash_inv_def)

lemma hash_inv_del:
  "hash_inv env i s \<Longrightarrow> hash_inv env i (s\<lparr>pending_pieces := (pending_pieces s)(k := None)\<rparr>)"
  by (simp add: hash_inv_def)

text \<open>What the request loop leaves alone.\<close>

definition same_frame :: "piece_download \<times> seed_downloader \<Rightarrow> piece_download \<times> seed_downloader \<Rightarrow> bool" where
  "same_frame = (\<lambda>(dl, s) (dl', s').
     piece_hash dl' = piece_hash dl \<and> dl_piece_length dl' = dl_piece_length dl \<and>
     remaining_blocks dl' = remaining_blocks dl \<and> dl_bytes dl' = dl_bytes dl \<and>
     pending_pieces s' = pending_pieces s \<and> tx_sent s' = tx_sent s \<and> sd_info s' = sd_info s \<and>
     own_bitfield s' = own_bitfield s \<and> choked_us s' = choked_us s \<and> sd_addr s' = sd_addr s)"

lemma request_block_frame: "same_frame st (snd (request_block env k st))"
  by (cases st) (auto simp: same_frame_def request_block_def Let_def send_message_def zoom_snd_def
      gets_def modify_def bnd_def lift_def assert_that_def ret_def split: if_splits res.splits)

lemma same_frame_trans: "same_frame a b \<Longrightarrow> same_frame b c \<Longrightarrow> same_frame a c"
  by (auto simp: same_frame_def)

lemma same_frame_refl: "same_frame a a"
  by (auto simp: same_frame_def)

lemma request_blocks_frame: "same_frame (dl, s) (snd (request_blocks env k (dl, s)))"
proof (induction env k "(dl, s)" arbitrary: dl s rule: request_blocks.induct)
  case (1 env k dl s)
  obtain r dl' s' where run: "request_block env k (dl, s) = (r, (dl', s'))"
    by (metis surj_pair)
  have b: "same_frame (dl, s) (dl', s')"
    using request_block_frame [of "(dl, s)" env k] run by simp
  show ?case
  proof (cases "requested dl < dl_piece_length dl \<and> r = Ok False")
    case True
    then have "same_frame (dl', s') (snd (request_blocks env k (dl', s')))"
      using run by (intro 1 [of "Ok False" "(dl', s')" False]) simp_all
    with b True run show ?thesis
      by (subst request_blocks.simps) (auto intro: same_frame_trans)
  next
    case False
    with b run show ?thesis
      by (subst request_blocks.simps) (auto split: res.splits simp: same_frame_refl)
  qed
qed

lemma request_blocks_hash_inv:
  assumes "request_blocks env k (dl, s) = (r, (dl', s'))" and "hash_inv e i s"
  shows "hash_inv e i s' \<and> piece_dl_ok i k' dl' = piece_dl_ok i k' dl"
  using request_blocks_frame [of dl s env k] assms
  by (simp add: same_frame_def hash_inv_def piece_dl_ok_def)

named_theorems keeps_hash \<open>operations of the downloader that keep \<open>hash_inv\<close>\<close>

lemma send_message_hash [keeps_hash]: "keeps (hash_inv e i) (send_message env m)"
  by (simp add: keeps_def send_message_def)

lemma with_bitfield_hash [keeps_hash]: "keeps (hash_inv e i) (with_bitfield m)"
  by (simp add: keeps_def with_bitfield_def split: prod.splits)

lemma continue_piece_hash [keeps_hash]: "keeps (hash_inv e i) (continue_piece env k)"
  unfolding keeps_def
proof (intro allI impI)
  fix s assume inv: "hash_inv e i s"
  show "hash_inv e i (snd (continue_piece env k s))"
  proof (cases "pending_pieces s k")
    case None
    with inv show ?thesis by (simp add: continue_piece_def)
  next
    case (Some dl)
    obtain r dl' s' where run: "request_blocks env k (dl, s) = (r, (dl', s'))" by (metis surj_pair)
    have "piece_dl_ok i k dl" using inv Some by (simp add: hash_inv_def)
    then have "hash_inv e i (s'\<lparr>pending_pieces := (pending_pieces s')(k \<mapsto> dl')\<rparr>)"
      using request_blocks_hash_inv [OF run inv] by (simp add: hash_inv_put)
    with Some inv run show ?thesis by (simp add: continue_piece_def bnd_def)
  qed
qed

lemma continue_pieces_hash [keeps_hash]: "keeps (hash_inv e i) (continue_pieces env ks)"
  by (induction ks) (simp_all add: keeps keeps_hash)

lemma start_piece_hash [keeps_hash]: "keeps (hash_inv e i) (start_piece env k)"
  unfolding keeps_def
proof (intro allI impI)
  fix s assume inv: "hash_inv e i s"
  then have info: "sd_info s = i" by (simp add: hash_inv_def)
  show "hash_inv e i (snd (start_piece env k s))"
  proof (cases "(\<exists>len x. get_piece_length i k = Ok len \<and>
      and_then (add_chk len block_size) (\<lambda>x. sub_chk x 1) = Ok x) \<and> unat k < length (info_pieces i)")
    case False
    with inv info show ?thesis
      by (auto simp: start_piece_def bnd_def Let_def split: res.splits)
  next
    case True
    then obtain len x where len: "get_piece_length i k = Ok len"
      and x: "and_then (add_chk len block_size) (\<lambda>x. sub_chk x 1) = Ok x"
      and k: "unat k < length (info_pieces i)" by blast
    let ?dl = "\<lparr>piece_hash = info_pieces i ! unat k, dl_piece_length = len, requested = 0,
        remaining_blocks = ucast (x div block_size), dl_bytes = replicate (unat len) 0\<rparr>"
    obtain r dl' s' where run: "request_blocks env k (?dl, s) = (r, (dl', s'))" by (metis surj_pair)
    have "piece_dl_ok i k ?dl" using len k by (simp add: piece_dl_ok_def)
    then have s': "hash_inv e i s'" "hash_inv e i (s'\<lparr>pending_pieces := (pending_pieces s')(k \<mapsto> dl')\<rparr>)"
      using request_blocks_hash_inv [OF run inv] by (simp_all add: hash_inv_put)
    show ?thesis
      using s' len x k run info
      by (cases r) (simp_all add: start_piece_def bnd_def Let_def)
  qed
qed

lemma request_more_hash [keeps_hash]: "keeps (hash_inv e i) (request_more env)"
  unfolding request_more_def by (auto intro!: keeps keeps_hash)

lemma begin_piece_hash [keeps_hash]: "keeps (hash_inv e i) (begin_piece env picked)"
  unfolding begin_piece_def by (auto intro!: keeps keeps_hash split: option.splits)

lemma splice_vec_length:
  "splice_vec lo hi new v = Ok w \<Longrightarrow> length new = hi - lo \<Longrightarrow> length w = length v"
  by (auto simp: splice_vec_def split: if_splits)

lemma reset_pieces_hash [keeps_hash]: "keeps (hash_inv e i) (reset_pieces ks)"
proof (induction ks)
  case Nil
  then show ?case by (simp add: keeps)
next
  case (Cons k ks)
  show ?case
    unfolding keeps_def
  proof (intro allI impI)
    fix s assume inv: "hash_inv e i s"
    show "hash_inv e i (snd (reset_pieces (k # ks) s))"
    proof (cases "pending_pieces s k")
      case None
      with Cons inv show ?thesis by (simp add: keeps_def)
    next
      case (Some dl)
      have ok: "piece_dl_ok i k dl" using inv Some by (simp add: hash_inv_def)
      have "piece_dl_ok i k dl'" if "reset_piece dl = Ok dl'" for dl'
        using that ok by (auto simp: reset_piece_def and_then_Ok_iff)
      then show ?thesis
        using Cons inv Some ok by (auto simp: keeps_def hash_inv_put split: res.splits)
    qed
  qed
qed

lemma store_block_hash [keeps_hash]: "keeps (hash_inv env i) (store_block k begin block)"
  unfolding keeps_def
proof (intro allI impI)
  fix s assume inv: "hash_inv env i s"
  show "hash_inv env i (snd (store_block k begin block s))"
  proof (cases "pending_pieces s k")
    case None
    with inv show ?thesis by (auto simp: store_block_def bnd_def Let_def)
  next
    case (Some dl)
    have ok: "piece_dl_ok i k dl" using inv Some by (simp add: hash_inv_def)
    have spl: "piece_dl_ok i k (dl\<lparr>remaining_blocks := n, dl_bytes := bs\<rparr>)"
      if "splice_vec (unat begin) (unat begin + length block) block (dl_bytes dl) = Ok bs" for n bs
      using piece_dl_ok_bytes [of i k "dl\<lparr>remaining_blocks := n\<rparr>" bs] ok splice_vec_length [OF that] by simp
    show ?thesis
      using inv Some ok spl
      by (auto simp: store_block_def bnd_def Let_def hash_inv_put split: res.splits)
  qed
qed

lemma set_piece_hash [keeps_hash]: "keeps (hash_inv e i) (with_bitfield (set_piece k))"
  by (rule with_bitfield_hash)

text \<open>Marking a piece yields its message only when the piece passes the test.\<close>

lemma mark_piece_run:
  assumes "mark_piece env k s = (r, s')"
  obtains "\<forall>m. r \<noteq> Ok m" "\<exists>P. s' = s\<lparr>own_bitfield := snd (set_piece k (own_bitfield s)), pending_pieces := P\<rparr> \<and> P \<subseteq>\<^sub>m pending_pieces s"
    | dl b where "r = Ok (PieceMsg k (dl_piece_length dl) (dl_bytes dl))" "pending_pieces s k = Some dl"
      "validate_piece env (dl_bytes dl) (piece_hash dl)" "set_piece k (own_bitfield s) = (Ok (), b)"
      "s' = s\<lparr>own_bitfield := b, pending_pieces := (pending_pieces s)(k := None)\<rparr>"
proof -
  obtain r1 b where set: "set_piece k (own_bitfield s) = (r1, b)" by (metis surj_pair)
  have same: "s\<lparr>own_bitfield := b\<rparr> = s\<lparr>own_bitfield := b, pending_pieces := pending_pieces s\<rparr>" by simp
  have less: "(pending_pieces s)(k := None) \<subseteq>\<^sub>m pending_pieces s" by (simp add: map_le_def)
  show thesis
  proof (cases "r1 = Ok () \<and> (\<exists>dl. pending_pieces s k = Some dl \<and> validate_piece env (dl_bytes dl) (piece_hash dl))")
    case True
    then obtain dl where dl: "pending_pieces s k = Some dl" "validate_piece env (dl_bytes dl) (piece_hash dl)"
      by blast
    show thesis
      by (rule that(2) [OF _ dl]) (use assms set True dl in \<open>auto simp: mark_piece_def with_bitfield_def\<close>)
  next
    case False
    then have "(\<forall>m. r \<noteq> Ok m) \<and> (s' = s\<lparr>own_bitfield := b\<rparr> \<or>
        s' = s\<lparr>own_bitfield := b, pending_pieces := (pending_pieces s)(k := None)\<rparr>)"
      using assms set
      by (cases r1) (auto simp: mark_piece_def with_bitfield_def split: option.splits if_splits)
    then show thesis using that(1) same less map_le_refl set by (metis snd_conv)
  qed
qed

lemma mark_piece_Ok:
  assumes "set_piece k (own_bitfield s) = (Ok (), b)" and "pending_pieces s k = Some dl"
    and "validate_piece env (dl_bytes dl) (piece_hash dl)"
  shows "mark_piece env k s = (Ok (PieceMsg k (dl_piece_length dl) (dl_bytes dl)),
    s\<lparr>own_bitfield := b, pending_pieces := (pending_pieces s)(k := None)\<rparr>)"
  using assms by (simp add: mark_piece_def with_bitfield_def)

lemma mark_piece_frame:
  assumes "mark_piece env k s = (r, s')"
  shows "\<exists>P. s' = s\<lparr>own_bitfield := snd (set_piece k (own_bitfield s)), pending_pieces := P\<rparr> \<and> P \<subseteq>\<^sub>m pending_pieces s"
  using assms
proof (cases rule: mark_piece_run)
  case 2
  then show ?thesis
    by (intro exI [of _ "(pending_pieces s)(k := None)"]) (simp add: map_le_def)
qed auto

lemma hash_inv_less: "hash_inv e i s \<Longrightarrow> P \<subseteq>\<^sub>m pending_pieces s \<Longrightarrow> hash_inv e i (s\<lparr>pending_pieces := P\<rparr>)"
  unfolding hash_inv_def map_le_def by simp (metis domI)

lemma mark_piece_hash:
  assumes "hash_inv env i s" and "mark_piece env k s = (r, s')"
  shows "hash_inv env i s'" and "r = Ok m \<Longrightarrow> tx_msg_ok env i m"
  using assms(2)
proof (atomize (full), cases rule: mark_piece_run)
  case 1
  then show "hash_inv env i s' \<and> (r = Ok m \<longrightarrow> tx_msg_ok env i m)" using assms(1) hash_inv_less by auto
next
  case (2 dl b)
  then have "piece_dl_ok i k dl" using assms(1) by (simp add: hash_inv_def)
  then show "hash_inv env i s' \<and> (r = Ok m \<longrightarrow> tx_msg_ok env i m)"
    using 2 assms(1) hash_inv_del by (auto simp: piece_dl_ok_def validate_piece_def)
qed

lemma send_tx_hash:
  "hash_inv env i s \<Longrightarrow> tx_msg_ok env i m \<Longrightarrow> hash_inv env i (snd (send_tx env' m s))"
  by (auto simp: send_tx_def hash_inv_def)

lemma choke_hash: "keeps (hash_inv env i) (handle_msg env' Choke)"
  by (auto simp: handle_msg_def intro!: keeps keeps_hash)

section \<open>The request pipeline\<close>

text \<open>
  What the sizes of a torrent must satisfy for the counters of the downloader: \<open>remaining_blocks\<close>
  is a \<open>u16\<close>.
\<close>

definition wf_download :: "info \<Rightarrow> bool" where
  "wf_download i \<longleftrightarrow> wf_info i \<and> length (info_pieces i) = piece_count i \<and>
     num_blocks (unat (info_piece_length i)) < 2 ^ 16"

definition of_piece :: "u32 \<Rightarrow> block_download set \<Rightarrow> block_download set" where
  "of_piece k P = {b \<in> P. blk_piece_index b = k}"

text \<open>
  Piece \<open>k\<close> after its first \<open>j\<close> blocks were requested. \<open>Q k begin block\<close> is what is known of a
  block the peer sent; it holds of every segment of the buffer that was received.
\<close>

type_synonym block_law = "u32 \<Rightarrow> nat \<Rightarrow> u8 list \<Rightarrow> bool"

definition segment :: "nat \<Rightarrow> nat \<Rightarrow> 'a list \<Rightarrow> 'a list" where
  "segment len j v = take (block_len_at len j) (drop (j * 16384) v)"

definition pipe_at :: "block_law \<Rightarrow> u32 \<Rightarrow> block_download set \<Rightarrow> piece_download \<Rightarrow> nat \<Rightarrow> bool" where
  "pipe_at Q k B dl j \<longleftrightarrow>
     (let len = unat (dl_piece_length dl) in
      j \<le> num_blocks len \<and> requested dl = of_nat (block_pos len j) \<and>
      B \<subseteq> block_at k len ` {..<j} \<and>
      unat (remaining_blocks dl) = card B + (num_blocks len - j) \<and>
      (\<forall>i < j. block_at k len i \<notin> B \<longrightarrow> Q k (i * 16384) (segment len i (dl_bytes dl))))"

definition piece_pipe :: "block_law \<Rightarrow> info \<Rightarrow> u32 \<Rightarrow> block_download set \<Rightarrow> piece_download \<Rightarrow> bool" where
  "piece_pipe Q i k B dl \<longleftrightarrow> piece_dl_ok i k dl \<and> unat k < piece_count i \<and>
     num_blocks (unat (dl_piece_length dl)) < 2 ^ 16 \<and> (\<exists>j. pipe_at Q k B dl j)"

definition sent_ok :: "info \<Rightarrow> message \<Rightarrow> bool" where
  "sent_ok i m \<longleftrightarrow> m = KeepAlive \<or>
     (\<exists>k len j. get_piece_length i k = Ok len \<and> unat k < piece_count i \<and>
        j < num_blocks (unat len) \<and> m = request_at k (unat len) j)"

definition pipe_inv :: "block_law \<Rightarrow> info \<Rightarrow> seed_downloader \<Rightarrow> bool" where
  "pipe_inv Q i s \<longleftrightarrow> sd_info s = i \<and> bf_inv (own_bitfield s) \<and>
     total_pieces (own_bitfield s) = piece_count i \<and>
     finite (pending_blocks s) \<and> card (pending_blocks s) \<le> unat (inflight s) \<and>
     (\<forall>m \<in> set (stream_sent s). sent_ok i m) \<and>
     (\<forall>b \<in> pending_blocks s. pending_pieces s (blk_piece_index b) \<noteq> None) \<and>
     (\<forall>k dl. pending_pieces s k = Some dl \<longrightarrow>
        piece_pipe Q i k (of_piece k (pending_blocks s)) dl \<and> 0 < remaining_blocks dl)"

text \<open>The pieces of which some block still has to be requested, and the requests lost to a choke.\<close>

definition partial :: "seed_downloader \<Rightarrow> u32 set" where
  "partial s = {k. \<exists>dl. pending_pieces s k = Some dl \<and> requested dl \<noteq> dl_piece_length dl}"

definition leak :: "seed_downloader \<Rightarrow> nat" where
  "leak s = unat (inflight s) - card (pending_blocks s)"

lemma of_piece_Un: "of_piece k (A \<union> B) = of_piece k A \<union> of_piece k B"
  by (auto simp: of_piece_def)

lemma of_piece_blocks [simp]:
  "of_piece k (block_at k' len ` I) = (if k = k' then block_at k' len ` I else {})"
  by (auto simp: of_piece_def)

lemma of_piece_subset: "of_piece k P \<subseteq> P"
  by (auto simp: of_piece_def)

lemma of_piece_mem [simp]: "block_at k len j \<in> of_piece k P \<longleftrightarrow> block_at k len j \<in> P"
  by (simp add: of_piece_def)

lemma pipe_at_fresh:
  assumes "pipe_at Q k B dl j" and "len = unat (dl_piece_length dl)" and "i \<in> {j..<num_blocks len}"
  shows "block_at k len i \<notin> B"
proof
  assume "block_at k len i \<in> B"
  then have "block_at k len i \<in> block_at k len ` {..<j}"
    using assms(1,2) unfolding pipe_at_def Let_def by blast
  then obtain i' where i': "block_at k len i = block_at k len i'" "i' < j" by auto
  have "len < 2 ^ 32" using assms(2) unat_u32_lt by simp
  then show False using i' assms(3) block_at_inj [of i len i' k] by simp
qed

lemma pipe_at_requests:
  assumes at: "pipe_at Q k B dl j" and len: "len = unat (dl_piece_length dl)"
    and m: "j + m \<le> num_blocks len"
  shows "pipe_at Q k (B \<union> block_at k len ` {j..<j + m})
      (dl\<lparr>requested := of_nat (block_pos len (j + m))\<rparr>) (j + m)"
proof -
  have len32: "len < 2 ^ 32" unfolding len by (rule unat_u32_lt)
  have B: "B \<subseteq> block_at k len ` {..<j}" and rem: "unat (remaining_blocks dl) = card B + (num_blocks len - j)"
    using at by (simp_all add: pipe_at_def Let_def len)
  have "inj_on (block_at k len) {j..<j + m}" using m by (intro inj_block_at [OF len32]) auto
  then have "card (block_at k len ` {j..<j + m}) = m" by (simp add: card_image)
  moreover have "B \<inter> block_at k len ` {j..<j + m} = {}"
    using pipe_at_fresh [OF at len] m by auto
  moreover have "finite B" using B finite_surj by blast
  ultimately have "card (B \<union> block_at k len ` {j..<j + m}) = card B + m"
    by (simp add: card_Un_disjoint)
  moreover have "block_at k len ` {..<j} \<union> block_at k len ` {j..<j + m} = block_at k len ` {..<j + m}"
    by (simp only: image_Un [symmetric] ivl_disj_un)
  moreover have "n < j" if "n < j + m" "block_at k len n \<notin> block_at k len ` {j..<j + m}" for n
    using that by (metis atLeastLessThan_iff imageI not_less)
  ultimately show ?thesis
    using at m B rem by (auto simp: pipe_at_def Let_def len [symmetric])
qed

lemma piece_pipe_len:
  "piece_pipe Q i k B dl \<Longrightarrow> len = unat (dl_piece_length dl) \<Longrightarrow> len \<le> 65535 * 16384"
  using less_num_blocks [of 65535 len] by (auto simp: piece_pipe_def)

lemma pipe_at_complete:
  assumes "pipe_at Q k B dl j" and "len = unat (dl_piece_length dl)"
  shows "requested dl = dl_piece_length dl \<longleftrightarrow> j = num_blocks len"
proof -
  have j: "j \<le> num_blocks len" and req: "requested dl = of_nat (block_pos len j)"
    using assms by (simp_all add: pipe_at_def Let_def)
  have "len < 2 ^ 32" using assms(2) unat_u32_lt by simp
  then have "unat (requested dl) = block_pos len j" by (simp only: req unat_block_pos)
  then have "requested dl = dl_piece_length dl \<longleftrightarrow> block_pos len j = len"
    by (simp add: word_unat_eq_iff assms(2))
  then show ?thesis using j block_pos_lt [of j len] by (cases "j = num_blocks len") auto
qed

lemma pipe_at_le: "pipe_at Q k B dl j \<Longrightarrow> requested dl \<le> dl_piece_length dl"
  using block_pos_le [of "unat (dl_piece_length dl)" j] unat_u32_lt [of "dl_piece_length dl"]
  by (simp add: pipe_at_def Let_def word_le_nat_alt unat_block_pos)

text \<open>One burst of requests for a piece, seen from the whole state.\<close>

lemma pipe_inv_requests:
  assumes inv: "pipe_inv Q i s" and pp: "piece_pipe Q i k (of_piece k (pending_blocks s)) dl"
    and at: "pipe_at Q k (of_piece k (pending_blocks s)) dl j" and rem: "0 < remaining_blocks dl"
    and len: "len = unat (dl_piece_length dl)" and m: "j + m \<le> num_blocks len"
    and fits: "unat (inflight s) + m < 256"
  defines "s' \<equiv> after_requests k len j m s"
    and "dl' \<equiv> dl\<lparr>requested := of_nat (block_pos len (j + m))\<rparr>"
  shows "pipe_inv Q i (s'\<lparr>pending_pieces := (pending_pieces s)(k \<mapsto> dl')\<rparr>)"
    and "card (pending_blocks s') = card (pending_blocks s) + m"
    and "unat (inflight s') = unat (inflight s) + m"
proof -
  have len32: "len < 2 ^ 32" unfolding len by (rule unat_u32_lt)
  have fin: "finite (pending_blocks s)" using inv by (simp add: pipe_inv_def)
  have at': "pipe_at Q k (of_piece k (pending_blocks s')) dl' (j + m)"
    using pipe_at_requests [OF at len m]
    by (simp add: s'_def dl'_def after_requests_def of_piece_Un)
  have "inj_on (block_at k len) {j..<j + m}" using m by (intro inj_block_at [OF len32]) auto
  moreover have "pending_blocks s \<inter> block_at k len ` {j..<j + m} = {}"
    using pipe_at_fresh [OF at len] m by auto
  ultimately show card': "card (pending_blocks s') = card (pending_blocks s) + m"
    using fin by (simp add: s'_def after_requests_def card_Un_disjoint card_image)
  show infl: "unat (inflight s') = unat (inflight s) + m"
    using fits by (simp add: s'_def after_requests_def unat_word_ariths unat_of_nat)
  have "piece_pipe Q i k' (of_piece k' (pending_blocks s')) d \<and> 0 < remaining_blocks d"
    if "((pending_pieces s)(k \<mapsto> dl')) k' = Some d" for k' d
  proof (cases "k' = k")
    case True
    with that at' pp rem show ?thesis by (auto simp: piece_pipe_def dl'_def)
  next
    case False
    with that inv show ?thesis
      by (simp add: pipe_inv_def s'_def after_requests_def of_piece_Un)
  qed
  moreover have "((pending_pieces s)(k \<mapsto> dl')) (blk_piece_index b) \<noteq> None"
    if "b \<in> pending_blocks s'" for b
    using that inv by (auto simp: pipe_inv_def s'_def after_requests_def)
  moreover have "sent_ok i x" if "x \<in> set (stream_sent s')" for x
  proof -
    have "sent_ok i (request_at k len n)" if "n \<in> {j..<j + m}" for n
      using that m pp unfolding sent_ok_def piece_pipe_def piece_dl_ok_def len
      by (intro disjI2 exI [of _ k] exI [of _ "dl_piece_length dl"] exI [of _ n]) simp
    then show ?thesis
      using that inv by (auto simp: pipe_inv_def s'_def after_requests_def)
  qed
  ultimately show "pipe_inv Q i (s'\<lparr>pending_pieces := (pending_pieces s)(k \<mapsto> dl')\<rparr>)"
    using inv infl card' by (simp add: pipe_inv_def) (simp add: s'_def after_requests_def)
qed

lemma burst_le: "burst n todo \<le> todo"
  by (simp add: burst_def)

lemma burst_tight: "n < 5 \<Longrightarrow> n + burst n todo \<le> 5 \<and> (n + burst n todo = 5 \<or> burst n todo = todo)"
  by (auto simp: burst_def)

text \<open>
  What a step of \<open>request_pieces\<close> may do, besides keeping \<open>pipe_inv\<close>: the lost requests stay
  lost; from fewer than five in flight at most one piece is left half requested, and only when
  the pipeline is full.
\<close>

definition same_rest :: "seed_downloader \<Rightarrow> seed_downloader \<Rightarrow> bool" where
  "same_rest s s' \<longleftrightarrow> choked_us s' = choked_us s \<and> tx_sent s' = tx_sent s \<and> sd_addr s' = sd_addr s \<and>
     owned (own_bitfield s') = owned (own_bitfield s)"

lemma same_rest_trans: "same_rest a b \<Longrightarrow> same_rest b c \<Longrightarrow> same_rest a c"
  by (simp add: same_rest_def)

definition requested_more :: "block_law \<Rightarrow> info \<Rightarrow> u32 set \<Rightarrow> seed_downloader \<Rightarrow> unit res \<times> seed_downloader \<Rightarrow> bool" where
  "requested_more Q i K s = (\<lambda>(r, s').
     r = Ok () \<and> pipe_inv Q i s' \<and> leak s' = leak s \<and> same_rest s s' \<and>
       dom (pending_pieces s') = dom (pending_pieces s) \<and> partial s' \<subseteq> partial s \<and>
       unat (inflight s) \<le> unat (inflight s') \<and>
       (\<forall>p. unat (inflight s) < 5 \<and> partial s \<subseteq> {p} \<longrightarrow>
          unat (inflight s') \<le> 5 \<and> (unat (inflight s') = 5 \<or> partial s' \<inter> K = {})) \<or>
     r = Panic ArithOverflow \<and> (\<forall>p. \<not> (unat (inflight s) < 5 \<and> partial s \<subseteq> {p})))"

lemma requested_more_refl:
  "pipe_inv Q i s \<Longrightarrow> partial s \<inter> K = {} \<Longrightarrow> requested_more Q i K s (Ok (), s)"
  by (auto simp: requested_more_def same_rest_def)

lemma continue_piece_pipe:
  assumes up: "link_up env" and inv: "pipe_inv Q i s"
  shows "requested_more Q i {k} s (continue_piece env k s)"
proof (cases "pending_pieces s k")
  case None
  with inv show ?thesis
    by (simp add: continue_piece_def requested_more_refl partial_def)
next
  case (Some dl)
  let ?len = "unat (dl_piece_length dl)"
  have pp: "piece_pipe Q i k (of_piece k (pending_blocks s)) dl" and rem: "0 < remaining_blocks dl"
    using inv Some by (simp_all add: pipe_inv_def)
  then obtain j where at: "pipe_at Q k (of_piece k (pending_blocks s)) dl j"
    by (auto simp: piece_pipe_def)
  show ?thesis
  proof (cases "requested dl = dl_piece_length dl")
    case True
    with Some rem inv show ?thesis
      by (simp add: continue_piece_def requested_more_refl partial_def)
  next
    case False
    let ?m = "burst (unat (inflight s)) (num_blocks ?len - j)"
    let ?dl = "dl\<lparr>requested := of_nat (block_pos ?len (j + ?m))\<rparr>"
    let ?s = "(after_requests k ?len j ?m s)\<lparr>pending_pieces := (pending_pieces s)(k \<mapsto> ?dl)\<rparr>"
    have j: "j \<le> num_blocks ?len" and req: "requested dl = of_nat (block_pos ?len j)"
      using at by (simp_all add: pipe_at_def Let_def)
    have fresh: "\<forall>n \<in> {j..<num_blocks ?len}. block_at k ?len n \<notin> pending_blocks s"
      using pipe_at_fresh [OF at refl] by simp
    have kp: "k \<in> partial s" using Some False by (simp add: partial_def)
    note run = request_blocks_eq [OF up refl req j fresh]
    have cont: "continue_piece env k s = (case request_blocks env k (dl, s) of
        (r, (dl', s')) \<Rightarrow> (r, s'\<lparr>pending_pieces := (pending_pieces s')(k \<mapsto> dl')\<rparr>))"
      using Some rem False pipe_at_le [OF at] by (simp add: continue_piece_def)
    show ?thesis
    proof (cases "unat (inflight s) + ?m < 256")
      case False
      then have "fst (continue_piece env k s) = Panic ArithOverflow"
        using run cont by (auto split: prod.splits)
      moreover have "\<not> unat (inflight s) < 5"
        using False burst_tight [of "unat (inflight s)" "num_blocks ?len - j"] by linarith
      ultimately show ?thesis by (auto simp: requested_more_def split: prod.splits)
    next
      case True
      have jm: "j + ?m \<le> num_blocks ?len" using j burst_le [of "unat (inflight s)" "num_blocks ?len - j"] by simp
      note new = pipe_inv_requests [OF inv pp at rem refl jm True]
      have eq: "continue_piece env k s = (Ok (), ?s)"
        using run True cont by (simp add: after_requests_def)
      have "partial ?s \<subseteq> partial s"
        using kp by (auto simp: partial_def after_requests_def split: if_splits)
      moreover have "k \<notin> partial ?s" if "j + ?m = num_blocks ?len"
        using that by (simp add: partial_def after_requests_def)
      moreover have "dom (pending_pieces ?s) = dom (pending_pieces s)" using Some by auto
      moreover have "leak ?s = leak s" using new(2,3) by (simp add: leak_def after_requests_def)
      moreover have "unat (inflight ?s) = unat (inflight s) + ?m" using new(3) by simp
      moreover have "same_rest s ?s" by (simp add: same_rest_def after_requests_def)
      ultimately show ?thesis
        unfolding eq requested_more_def
        using new(1) j burst_tight [of "unat (inflight s)" "num_blocks ?len - j"] by auto
    qed
  qed
qed

lemma continue_piece_idle:
  assumes inv: "pipe_inv Q i s" and k: "k \<notin> partial s"
  shows "continue_piece env k s = (Ok (), s)"
proof (cases "pending_pieces s k")
  case (Some dl)
  then have "requested dl = dl_piece_length dl" and "0 < remaining_blocks dl"
    using inv k by (auto simp: partial_def pipe_inv_def)
  with Some show ?thesis by (simp add: continue_piece_def)
qed (simp add: continue_piece_def)

lemma continue_pieces_idle:
  "pipe_inv Q i s \<Longrightarrow> set ks \<inter> partial s = {} \<Longrightarrow> continue_pieces env ks s = (Ok (), s)"
  by (induction ks) (simp_all add: continue_piece_idle)

lemma requested_more_step:
  assumes "requested_more Q i K s (Ok (), s1)" and "requested_more Q i K' s1 out"
    and "\<And>p. \<not> (unat (inflight s) < 5 \<and> partial s \<subseteq> {p})"
  shows "requested_more Q i K'' s out"
  using assms unfolding requested_more_def
  by (auto split: prod.splits intro: same_rest_trans)

lemma continue_pieces_pipe:
  assumes up: "link_up env"
  shows "pipe_inv Q i s \<Longrightarrow> distinct ks \<Longrightarrow> requested_more Q i (set ks) s (continue_pieces env ks s)"
proof (induction ks arbitrary: s)
  case Nil
  then show ?case by (simp add: requested_more_refl)
next
  case (Cons k ks)
  show ?case
  proof (cases "k \<in> partial s")
    case False
    have "requested_more Q i (set ks) s (continue_pieces env ks s)" using Cons by simp
    then have "requested_more Q i (set (k # ks)) s (continue_pieces env ks s)"
      using False by (auto simp: requested_more_def split: prod.splits)
    then show ?thesis using continue_piece_idle [OF Cons.prems(1) False, of env] by simp
  next
    case True
    note step = continue_piece_pipe [OF up Cons.prems(1), of k]
    obtain r s1 where run: "continue_piece env k s = (r, s1)" by (metis surj_pair)
    show ?thesis
    proof (cases "r = Ok ()")
      case False
      then have "r = Panic ArithOverflow" using step run by (simp add: requested_more_def)
      with step run show ?thesis by (simp add: requested_more_def)
    next
      case ok: True
      then have s1: "pipe_inv Q i s1" "partial s1 \<subseteq> partial s"
        using step run by (simp_all add: requested_more_def)
      show ?thesis
      proof (cases "\<exists>p. unat (inflight s) < 5 \<and> partial s \<subseteq> {p}")
        case tight: True
        then have "partial s = {k}" using True by auto
        then have "set ks \<inter> partial s1 = {}" using s1(2) Cons.prems(2) by auto
        then have "continue_pieces env (k # ks) s = (Ok (), s1)"
          using continue_pieces_idle [OF s1(1)] run ok by simp
        moreover have "partial s1 \<inter> set ks = {}" using \<open>set ks \<inter> partial s1 = {}\<close> by auto
        ultimately show ?thesis using step run ok by (auto simp: requested_more_def)
      next
        case False
        have "requested_more Q i (set ks) s1 (continue_pieces env ks s1)"
          using Cons.IH [OF s1(1)] Cons.prems(2) by simp
        from requested_more_step [OF _ this] step run ok False
        have "requested_more Q i (set (k # ks)) s (continue_pieces env ks s1)" by auto
        then show ?thesis using run ok by simp
      qed
    qed
  qed
qed

text \<open>The blocks of a torrent the downloader can handle.\<close>

lemma wf_download_piece:
  assumes wf: "wf_download i" and k: "unat k < piece_count i"
  obtains len where "get_piece_length i k = Ok len" "unat len = piece_size i (unat k)" "0 < unat len"
    "num_blocks (unat len) < 2 ^ 16" "unat len \<le> 65535 * 16384"
proof -
  have wfi: "wf_info i" using wf by (simp add: wf_download_def)
  let ?len = "of_nat (piece_size i (unat k)) :: u32"
  note size = get_piece_length_size [OF wfi k]
  have u: "unat ?len = piece_size i (unat k)" using size(5) by (rule unat_of_nat_u32)
  have "num_blocks (unat ?len) \<le> num_blocks (unat (info_piece_length i))"
    unfolding num_blocks_def u using size(3) by (intro div_le_mono) simp
  then have nb: "num_blocks (unat ?len) < 2 ^ 16" using wf by (simp add: wf_download_def)
  moreover have "unat ?len \<le> 65535 * 16384"
    using nb less_num_blocks [of 65535 "unat ?len"] by simp
  moreover have "get_piece_length i k = Ok ?len" using size(1) by simp
  ultimately show thesis using that u size(2) by metis
qed

lemma num_blocks_word:
  assumes "len = unat (x :: u32)" and "len \<le> 65535 * 16384"
  shows "and_then (add_chk x block_size) (\<lambda>x. sub_chk x 1) = Ok (x + block_size - 1)"
    and "unat (ucast ((x + block_size - 1) div block_size) :: u16) = num_blocks len"
proof -
  have a: "add_chk x block_size = Ok (x + block_size)"
    using assms by (simp add: add_chk_def block_size_eq)
  then have ua: "unat (x + block_size) = len + 16384"
    using add_chk_unat [OF a] assms by (simp add: block_size_eq)
  have s: "sub_chk (x + block_size) 1 = Ok (x + block_size - 1)"
    using ua by (simp add: sub_chk_def word_le_nat_alt)
  then show "and_then (add_chk x block_size) (\<lambda>x. sub_chk x 1) = Ok (x + block_size - 1)"
    using a by simp
  have "unat (x + block_size - 1) = len + 16383" using sub_chk_unat [OF s] ua by simp
  then have d: "unat ((x + block_size - 1) div block_size) = num_blocks len"
    by (simp add: unat_div block_size_eq num_blocks_def)
  have "num_blocks len < 2 ^ 16"
    using assms(2) less_num_blocks [of 65535 len] by simp
  then show "unat (ucast ((x + block_size - 1) div block_size) :: u16) = num_blocks len"
    using d by (simp add: unsigned_ucast_eq take_bit_nat_eq_self)
qed

text \<open>The first requests for a new piece.\<close>

definition start_dl :: "info \<Rightarrow> u32 \<Rightarrow> u32 \<Rightarrow> piece_download" where
  "start_dl i k len = \<lparr>piece_hash = info_pieces i ! unat k, dl_piece_length = len, requested = 0,
     remaining_blocks = ucast ((len + block_size - 1) div block_size), dl_bytes = replicate (unat len) 0\<rparr>"

lemma start_dl_pipe:
  assumes wf: "wf_download i" and k: "unat k < piece_count i" and len: "get_piece_length i k = Ok len"
    and bound: "num_blocks (unat len) < 2 ^ 16" "unat len \<le> 65535 * 16384" "0 < unat len"
  shows "piece_pipe Q i k {} (start_dl i k len)" and "pipe_at Q k {} (start_dl i k len) 0"
    and "0 < remaining_blocks (start_dl i k len)"
proof -
  note nb = num_blocks_word(2) [OF refl bound(2)]
  show at: "pipe_at Q k {} (start_dl i k len) 0"
    by (simp add: pipe_at_def start_dl_def Let_def nb)
  show "piece_pipe Q i k {} (start_dl i k len)"
    using at wf k len bound(1)
    by (auto simp: piece_pipe_def piece_dl_ok_def wf_download_def start_dl_def)
  show "0 < remaining_blocks (start_dl i k len)"
    using bound(3) num_blocks_pos by (simp add: start_dl_def word_less_nat_alt nb)
qed

lemma start_piece_pipe:
  assumes up: "link_up env" and wf: "wf_download i" and inv: "pipe_inv Q i s"
    and k: "unat k < piece_count i" and new: "pending_pieces s k = None" and n: "unat (inflight s) < 5"
  shows "\<exists>s'. start_piece env k s = (Ok (), s') \<and> pipe_inv Q i s' \<and> leak s' = leak s \<and> same_rest s s' \<and>
    dom (pending_pieces s') = insert k (dom (pending_pieces s)) \<and> partial s' \<subseteq> insert k (partial s) \<and>
    unat (inflight s) \<le> unat (inflight s') \<and> unat (inflight s') \<le> 5 \<and> pending_blocks s' \<noteq> {} \<and>
    (\<exists>dl'. pending_pieces s' = (pending_pieces s)(k \<mapsto> dl') \<and> unat (remaining_blocks dl') = num_blocks (piece_size i (unat k)))"
proof -
  obtain len where len: "get_piece_length i k = Ok len" and pos: "0 < unat len" and size: "unat len = piece_size i (unat k)"
    and bound: "num_blocks (unat len) < 2 ^ 16" "unat len \<le> 65535 * 16384"
    using wf_download_piece [OF wf k] by metis
  let ?dl = "start_dl i k len"
  have none: "of_piece k (pending_blocks s) = {}"
    using inv new by (auto simp: pipe_inv_def of_piece_def)
  note start = start_dl_pipe [OF wf k len bound pos]
  have dl: "unat len = unat (dl_piece_length ?dl)" "requested ?dl = of_nat (block_pos (unat len) 0)"
    by (simp_all add: start_dl_def)
  let ?m = "burst (unat (inflight s)) (num_blocks (unat len))"
  have fresh: "\<forall>n \<in> {0..<num_blocks (unat len)}. block_at k (unat len) n \<notin> pending_blocks s"
    using none by (metis empty_iff of_piece_mem)
  note tight = burst_tight [OF n, of "num_blocks (unat len)"]
  then have fits: "unat (inflight s) + ?m < 256" by linarith
  let ?dl' = "?dl\<lparr>requested := of_nat (block_pos (unat len) (0 + ?m))\<rparr>"
  let ?s = "(after_requests k (unat len) 0 ?m s)\<lparr>pending_pieces := (pending_pieces s)(k \<mapsto> ?dl')\<rparr>"
  have run: "request_blocks env k (?dl, s) = (Ok (), (?dl', after_requests k (unat len) 0 ?m s))"
    using request_blocks_eq [OF up dl _ fresh] fits by simp
  have "unat k < length (info_pieces i)" using wf k by (simp add: wf_download_def)
  then have "start_piece env k s = (Ok (), ?s)"
    using inv len num_blocks_word(1) [OF refl bound(2)] run new
    by (simp add: start_piece_def pipe_inv_def start_dl_def after_requests_def)
  moreover note req = pipe_inv_requests [OF inv, where k = k and dl = ?dl and j = 0 and len = "unat len" and m = ?m,
      unfolded none, OF start dl(1) _ fits]
  moreover have "0 + ?m \<le> num_blocks (unat len)" using burst_le by simp
  moreover have "partial ?s \<subseteq> insert k (partial s)"
    by (auto simp: partial_def after_requests_def)
  moreover have "same_rest s ?s" by (simp add: same_rest_def after_requests_def)
  moreover have "dom (pending_pieces ?s) = insert k (dom (pending_pieces s))" by simp
  moreover have "pending_blocks ?s \<noteq> {}"
    using n pos num_blocks_pos [of "unat len"] by (auto simp: after_requests_def burst_def)
  moreover have "unat (remaining_blocks ?dl') = num_blocks (piece_size i (unat k))"
    using num_blocks_word(2) [OF refl bound(2)] size by (simp add: start_dl_def)
  then have "\<exists>dl'. pending_pieces ?s = (pending_pieces s)(k \<mapsto> dl') \<and>
      unat (remaining_blocks dl') = num_blocks (piece_size i (unat k))"
    by (intro exI [of _ ?dl']) simp
  ultimately show ?thesis
    using tight by (intro exI [of _ ?s]) (simp add: leak_def)
qed

text \<open>The iteration order of a hash map: every key once.\<close>

definition order_ok :: "env \<Rightarrow> bool" where
  "order_ok env \<longleftrightarrow> (\<forall>m. distinct (env_iter_order env m) \<and> set (env_iter_order env m) = dom m)"

lemma same_rest_refl: "same_rest s s"
  by (simp add: same_rest_def)

lemma pick_piece_pipe:
  assumes "bf_inv b"
  shows "pick_piece b = (Ok None, b) \<and> owned b = {..<total_pieces b} \<or>
    (\<exists>k c. pick_piece b = (Ok (Some k), b\<lparr>cur := c\<rparr>) \<and> unat k < total_pieces b \<and>
       unat k \<notin> owned b \<and> bf_inv (b\<lparr>cur := c\<rparr>))"
proof (cases "ring b")
  case Nil
  then have "{..<total_pieces b} \<subseteq> owned b" using in_ring [OF assms] by auto
  moreover have "owned b \<subseteq> {..<total_pieces b}" by (auto simp: owned_def)
  ultimately show ?thesis using pick_piece_None [OF assms Nil] by simp
next
  case (Cons j js)
  then have j: "j \<in> {..<total_pieces b} - owned b" using in_ring [OF assms] by force
  then have "unat (of_nat j :: u32) = j" using assms by (intro unat_of_nat_u32) (simp add: bf_inv_def)
  then show ?thesis using pick_piece_Some [OF assms Cons] j by auto
qed

lemma pipe_inv_cur:
  "pipe_inv Q i s \<Longrightarrow> bf_inv ((own_bitfield s)\<lparr>cur := c\<rparr>) \<Longrightarrow>
   pipe_inv Q i (s\<lparr>own_bitfield := (own_bitfield s)\<lparr>cur := c\<rparr>\<rparr>)"
  by (simp add: pipe_inv_def)

definition requested_all :: "block_law \<Rightarrow> info \<Rightarrow> seed_downloader \<Rightarrow> unit res \<times> seed_downloader \<Rightarrow> bool" where
  "requested_all Q i s = (\<lambda>(r, s').
     r = Ok () \<and> pipe_inv Q i s' \<and> leak s' = leak s \<and> same_rest s s' \<and>
       dom (pending_pieces s) \<subseteq> dom (pending_pieces s') \<and>
       (5 \<le> unat (inflight s) \<longrightarrow> dom (pending_pieces s') = dom (pending_pieces s)) \<and>
       (\<forall>p. unat (inflight s) < 5 \<and> partial s \<subseteq> {p} \<longrightarrow>
          unat (inflight s') \<le> 5 \<and> (\<exists>p. partial s' \<subseteq> {p})) \<or>
     r = Panic ArithOverflow \<and> (\<forall>p. \<not> (unat (inflight s) < 5 \<and> partial s \<subseteq> {p})))"

lemma requested_all_idle:
  "pipe_inv Q i s \<Longrightarrow> requested_all Q i s (Ok (), s)"
  by (auto simp: requested_all_def same_rest_refl)

lemma requested_more_all:
  "requested_more Q i K s (Ok (), s') \<Longrightarrow> requested_all Q i s (Ok (), s')"
  unfolding requested_more_def requested_all_def by simp (meson subset_trans)

text \<open>The part before the lock: no new piece is begun, and it gets to the lock only below the limit.\<close>

definition more_requested :: "block_law \<Rightarrow> info \<Rightarrow> seed_downloader \<Rightarrow> bool res \<times> seed_downloader \<Rightarrow> bool" where
  "more_requested Q i s = (\<lambda>(r, s').
     (\<exists>more. r = Ok more \<and> requested_all Q i s (Ok (), s') \<and>
        dom (pending_pieces s') = dom (pending_pieces s) \<and>
        (\<not> more \<longrightarrow> choked_us s' \<or> 5 \<le> unat (inflight s')) \<and>
        (more \<longrightarrow> \<not> choked_us s' \<and> unat (inflight s) < 5 \<and> unat (inflight s') < 5 \<and>
           (\<forall>p. partial s \<subseteq> {p} \<longrightarrow> partial s' = {}))) \<or>
     r = Panic ArithOverflow \<and> (\<forall>p. \<not> (unat (inflight s) < 5 \<and> partial s \<subseteq> {p})))"

lemma request_more_pipe:
  assumes up: "link_up env" and ord: "order_ok env" and inv: "pipe_inv Q i s"
  shows "more_requested Q i s (request_more env s)"
proof (cases "choked_us s")
  case True
  with inv show ?thesis by (auto simp: request_more_def more_requested_def requested_all_idle)
next
  case False
  let ?ks = "env_iter_order env (pending_pieces s)"
  have ks: "distinct ?ks" "set ?ks = dom (pending_pieces s)" using ord by (simp_all add: order_ok_def)
  obtain r s1 where run: "continue_pieces env ?ks s = (r, s1)" by (metis surj_pair)
  then have more: "requested_more Q i (dom (pending_pieces s)) s (r, s1)"
    using continue_pieces_pipe [OF up inv ks(1)] ks(2) by simp
  show ?thesis
  proof (cases "r = Ok ()")
    case False
    then have "request_more env s = (Panic ArithOverflow, s1)"
      "\<forall>p. \<not> (unat (inflight s) < 5 \<and> partial s \<subseteq> {p})"
      using run more \<open>\<not> choked_us s\<close> by (auto simp: request_more_def requested_more_def)
    then show ?thesis by (simp add: more_requested_def)
  next
    case True
    note ok = more [unfolded True]
    have s1: "unat (inflight s) \<le> unat (inflight s1)" "dom (pending_pieces s1) = dom (pending_pieces s)"
      "\<not> choked_us s1" "partial s1 \<subseteq> dom (pending_pieces s1)"
      using ok \<open>\<not> choked_us s\<close> by (auto simp: requested_more_def same_rest_def partial_def)
    have "partial s1 = {}" if "unat (inflight s1) < 5" "partial s \<subseteq> {p}" for p
      using ok that s1 by (auto simp: requested_more_def)
    moreover have "request_more env s = (Ok (inflight s1 < max_inflight_per_peer), s1)"
      using run True \<open>\<not> choked_us s\<close> by (simp add: request_more_def)
    ultimately show ?thesis
      using requested_more_all [OF ok] s1
      by (auto simp: more_requested_def max_inflight_per_peer_def word_less_nat_alt)
  qed
qed

text \<open>The part from the lock on.\<close>

text \<open>What a pick does to the pending pieces: nothing, or one more missing piece with all its blocks to come.\<close>

definition after_pick :: "info \<Rightarrow> seed_downloader \<Rightarrow> seed_downloader \<Rightarrow> bool" where
  "after_pick i s s' \<longleftrightarrow>
     pending_pieces s' = pending_pieces s \<and> pending_blocks s' = pending_blocks s \<and>
       (owned (own_bitfield s) = {..<piece_count i} \<or> pending_pieces s \<noteq> Map.empty) \<or>
     (\<exists>k dl'. pending_pieces s k = None \<and> unat k < piece_count i \<and> unat k \<notin> owned (own_bitfield s) \<and>
        pending_pieces s' = (pending_pieces s)(k \<mapsto> dl') \<and>
        unat (remaining_blocks dl') = num_blocks (piece_size i (unat k)) \<and> pending_blocks s' \<noteq> {})"

lemma pick_begin_pipe:
  assumes up: "link_up env" and wf: "wf_download i" and inv: "pipe_inv Q i s" and n: "unat (inflight s) < 5"
  obtains s' where "bnd (with_bitfield pick_piece) (begin_piece env) s = (Ok (), s')" "pipe_inv Q i s'"
    "leak s' = leak s" "same_rest s s'" "dom (pending_pieces s) \<subseteq> dom (pending_pieces s')"
    "unat (inflight s') \<le> 5" "partial s = {} \<longrightarrow> (\<exists>p. partial s' \<subseteq> {p})" "after_pick i s s'"
proof -
  have bf: "bf_inv (own_bitfield s)" "total_pieces (own_bitfield s) = piece_count i"
    using inv by (simp_all add: pipe_inv_def)
  let ?s = "\<lambda>c. s\<lparr>own_bitfield := (own_bitfield s)\<lparr>cur := c\<rparr>\<rparr>"
  have new: "leak (?s c) = leak s" "same_rest s (?s c)" "partial (?s c) = partial s"
    "unat (inflight (?s c)) \<le> 5" for c
    using n by (simp_all add: leak_def same_rest_def partial_def owned_def)
  from pick_piece_pipe [OF bf(1)] show thesis
  proof (elim disjE exE conjE)
    assume "pick_piece (own_bitfield s) = (Ok None, own_bitfield s)" "owned (own_bitfield s) = {..<total_pieces (own_bitfield s)}"
    then have "bnd (with_bitfield pick_piece) (begin_piece env) s = (Ok (), s)" "after_pick i s s"
      using bf(2) by (simp_all add: with_bitfield_def begin_piece_def after_pick_def)
    then show thesis using inv n by (intro that [of s]) (auto simp: same_rest_def)
  next
    fix k c
    assume pick: "pick_piece (own_bitfield s) = (Ok (Some k), (own_bitfield s)\<lparr>cur := c\<rparr>)"
      and k: "unat k < total_pieces (own_bitfield s)" "unat k \<notin> owned (own_bitfield s)"
      and c: "bf_inv ((own_bitfield s)\<lparr>cur := c\<rparr>)"
    have run: "bnd (with_bitfield pick_piece) (begin_piece env) s =
        (if pending_pieces (?s c) k \<noteq> None then (Ok (), ?s c) else start_piece env k (?s c))"
      using pick by (simp add: with_bitfield_def begin_piece_def)
    note inv' = pipe_inv_cur [OF inv c]
    show thesis
    proof (cases "pending_pieces (?s c) k = None")
      case False
      then have "after_pick i s (?s c)" by (auto simp: after_pick_def)
      then show thesis using False run new inv' by (intro that [of "?s c"]) auto
    next
      case True
      have "unat k < piece_count i" "unat (inflight (?s c)) < 5" using k bf(2) n by simp_all
      from start_piece_pipe [OF up wf inv' this(1) True this(2)]
      obtain s' where s': "start_piece env k (?s c) = (Ok (), s')" "pipe_inv Q i s'" "leak s' = leak (?s c)"
        "same_rest (?s c) s'" "dom (pending_pieces s') = insert k (dom (pending_pieces (?s c)))"
        "partial s' \<subseteq> insert k (partial (?s c))" "unat (inflight s') \<le> 5" "pending_blocks s' \<noteq> {}"
        "\<exists>dl'. pending_pieces s' = (pending_pieces s)(k \<mapsto> dl') \<and> unat (remaining_blocks dl') = num_blocks (piece_size i (unat k))"
        by auto
      have "same_rest s s'" using same_rest_trans [OF new(2) s'(4)] .
      moreover have "partial s = {} \<longrightarrow> partial s' \<subseteq> {k}" using s'(6) new(3) by auto
      moreover have "after_pick i s s'"
        using s'(8,9) True k bf(2) unfolding after_pick_def by simp blast
      ultimately show thesis using s' new(1) run True by (intro that [of s']) auto
    qed
  qed
qed

section \<open>A block arrives\<close>

definition splice_block :: "nat \<Rightarrow> 'a list \<Rightarrow> 'a list \<Rightarrow> 'a list" where
  "splice_block off new v = take off v @ new @ drop (off + length new) v"

lemma splice_vec_block:
  "off + length new \<le> length v \<Longrightarrow> splice_vec off (off + length new) new v = Ok (splice_block off new v)"
  by (simp add: splice_vec_def splice_block_def)

lemma length_splice_block [simp]:
  "off + length new \<le> length v \<Longrightarrow> length (splice_block off new v) = length v"
  by (simp add: splice_block_def)

lemma segment_splice:
  assumes "length v = len" and "length new = block_len_at len j" and "j < num_blocks len"
    and "i < num_blocks len"
  shows "segment len i (splice_block (j * 16384) new v) = (if i = j then new else segment len i v)"
proof -
  have j: "j * 16384 < len" using assms(3) by (simp add: less_num_blocks)
  consider "i = j" | "Suc i \<le> j" | "Suc j \<le> i" by linarith
  then show ?thesis
  proof cases
    case 1
    with j assms show ?thesis by (simp add: segment_def splice_block_def)
  next
    case 2
    then have "i * 16384 + 16384 \<le> j * 16384" by simp
    with 2 j assms show ?thesis
      by (simp add: segment_def splice_block_def block_len_at_def take_drop min_def)
  next
    case 3
    then have "j * 16384 + 16384 \<le> i * 16384" by simp
    then obtain d where d: "i * 16384 = j * 16384 + 16384 + d" by (metis le_Suc_ex)
    have "i * 16384 < len" using assms(4) by (simp add: less_num_blocks)
    then have "length new = 16384" using d assms(2) by (simp add: block_len_at_def)
    with 3 j d assms(1) show ?thesis
      by (simp add: segment_def splice_block_def add.commute)
  qed
qed

text \<open>The message of a peer satisfies the law of the blocks.\<close>

lemma pipe_at_accept:
  assumes at: "pipe_at Q k B dl J" and len: "len = unat (dl_piece_length dl)"
    and bytes: "length (dl_bytes dl) = len"
    and b: "block_at k len j \<in> B" and j: "j < num_blocks len"
    and block: "length block = block_len_at len j" and law: "Q k (j * 16384) block"
  defines "dl' \<equiv> dl\<lparr>remaining_blocks := remaining_blocks dl - 1,
      dl_bytes := splice_block (j * 16384) block (dl_bytes dl)\<rparr>"
  shows "pipe_at Q k (B - {block_at k len j}) dl' J"
    and "unat (remaining_blocks dl') = unat (remaining_blocks dl) - 1" and "0 < unat (remaining_blocks dl)"
    and "remaining_blocks dl' = 0 \<Longrightarrow> B - {block_at k len j} = {} \<and>
      (\<forall>i < num_blocks len. Q k (i * 16384) (segment len i (dl_bytes dl')))"
proof -
  have len32: "len < 2 ^ 32" unfolding len by (rule unat_u32_lt)
  have J: "J \<le> num_blocks len" and B: "B \<subseteq> block_at k len ` {..<J}"
    and rem: "unat (remaining_blocks dl) = card B + (num_blocks len - J)"
    and Q: "\<And>i. i < J \<Longrightarrow> block_at k len i \<notin> B \<Longrightarrow> Q k (i * 16384) (segment len i (dl_bytes dl))"
    using at by (simp_all add: pipe_at_def Let_def len)
  have fin: "finite B" using B finite_surj by blast
  have cB: "card (B - {block_at k len j}) = card B - 1" "0 < card B"
    using fin b by (auto simp: card_gt_0_iff)
  then show pos: "0 < unat (remaining_blocks dl)" using rem by simp
  then have "1 \<le> remaining_blocks dl" by (simp add: word_le_nat_alt)
  then show dec: "unat (remaining_blocks dl') = unat (remaining_blocks dl) - 1"
    by (simp add: dl'_def unat_sub)
  have seg: "segment len i (dl_bytes dl') = (if i = j then block else segment len i (dl_bytes dl))"
    if "i < num_blocks len" for i
    using segment_splice [OF bytes block j that] by (simp add: dl'_def)
  have Q': "Q k (i * 16384) (segment len i (dl_bytes dl'))"
    if "i < J" "block_at k len i \<notin> B - {block_at k len j}" for i
    using that Q [of i] law seg [of i] J block_at_inj [OF _ j len32, of i k] by (cases "i = j") auto
  then show at': "pipe_at Q k (B - {block_at k len j}) dl' J"
    using at dec rem cB by (auto simp: pipe_at_def Let_def len dl'_def)
  assume zero: "remaining_blocks dl' = 0"
  then have "card (B - {block_at k len j}) = 0" "J = num_blocks len"
    using dec rem cB J by simp_all
  then show "B - {block_at k len j} = {} \<and>
      (\<forall>i < num_blocks len. Q k (i * 16384) (segment len i (dl_bytes dl')))"
    using fin Q' by auto
qed

lemma block_at_arrives:
  assumes inv: "pipe_inv Q i s" and dl: "pending_pieces s k = Some dl"
    and mem: "\<lparr>blk_piece_index = k, blk_begin = begin, blk_len = of_nat (length block)\<rparr> \<in> pending_blocks s"
    and short: "length block < 2 ^ 32" and len: "len = unat (dl_piece_length dl)"
  obtains j where "j < num_blocks len" "unat begin = j * 16384" "length block = block_len_at len j"
    "\<lparr>blk_piece_index = k, blk_begin = begin, blk_len = of_nat (length block)\<rparr> = block_at k len j"
    "j * 16384 + length block \<le> len"
proof -
  let ?b = "\<lparr>blk_piece_index = k, blk_begin = begin, blk_len = of_nat (length block)\<rparr> :: block_download"
  have "piece_pipe Q i k (of_piece k (pending_blocks s)) dl" using inv dl by (simp add: pipe_inv_def)
  then obtain J where at: "pipe_at Q k (of_piece k (pending_blocks s)) dl J" by (auto simp: piece_pipe_def)
  have "?b \<in> of_piece k (pending_blocks s)" using mem by (simp add: of_piece_def)
  with at obtain j where j: "j < J" "J \<le> num_blocks len" "?b = block_at k len j"
    unfolding pipe_at_def Let_def len by blast
  have len32: "len < 2 ^ 32" unfolding len by (rule unat_u32_lt)
  have "begin = of_nat (block_pos len j)" "(of_nat (length block) :: u32) = of_nat (block_len_at len j)"
    using j(3) by (simp_all add: block_at_def)
  then have "unat begin = block_pos len j" "unat (of_nat (length block) :: u32) = block_len_at len j"
    by (simp_all only: unat_block_pos [OF len32] unat_block_len)
  moreover have "block_pos len j = j * 16384" using j by (simp add: block_pos_lt)
  moreover have "block_pos len j + block_len_at len j \<le> len"
    using block_pos_le [of len "Suc j"] by (simp add: block_pos_Suc)
  ultimately show thesis
    using that [of j] j short by (simp add: unat_of_nat_u32)
qed

definition tight :: "seed_downloader \<Rightarrow> bool" where
  "tight s \<longleftrightarrow> unat (inflight s) \<le> 5 \<and> (\<exists>p. partial s \<subseteq> {p})"

text \<open>The state between the arrival of the block and what follows from it.\<close>

definition after_block :: "u32 \<Rightarrow> u8 list \<Rightarrow> piece_download \<Rightarrow> piece_download" where
  "after_block begin block dl = dl\<lparr>remaining_blocks := remaining_blocks dl - 1,
     dl_bytes := splice_block (unat begin) block (dl_bytes dl)\<rparr>"

definition accept_block :: "u32 \<Rightarrow> u32 \<Rightarrow> u8 list \<Rightarrow> piece_download \<Rightarrow> seed_downloader \<Rightarrow> seed_downloader" where
  "accept_block k begin block dl s =
     s\<lparr>pending_blocks := pending_blocks s -
         {\<lparr>blk_piece_index = k, blk_begin = begin, blk_len = of_nat (length block)\<rparr>},
       inflight := inflight s - 1,
       pending_pieces := (pending_pieces s)(k \<mapsto> after_block begin block dl)\<rparr>"

text \<open>Everything that is known when a requested block arrives.\<close>

lemma block_accepted:
  assumes inv: "pipe_inv Q i s" and dl: "pending_pieces s k = Some dl"
    and mem: "\<lparr>blk_piece_index = k, blk_begin = begin, blk_len = of_nat (length block)\<rparr> \<in> pending_blocks s"
    and short: "length block < 2 ^ 32" and law: "Q k (unat begin) block"
  defines "dl' \<equiv> after_block begin block dl" and "s' \<equiv> accept_block k begin block dl s"
    and "len \<equiv> unat (dl_piece_length dl)"
  shows "remaining_blocks dl' \<noteq> 0 \<Longrightarrow> pipe_inv Q i s'"
    and "remaining_blocks dl' = 0 \<Longrightarrow> pipe_inv Q i (s'\<lparr>pending_pieces := (pending_pieces s)(k := None)\<rparr>)"
    and "remaining_blocks dl' = 0 \<Longrightarrow>
      piece_dl_ok i k dl' \<and> (\<forall>n < num_blocks len. Q k (n * 16384) (segment len n (dl_bytes dl')))"
    and "unat (inflight s') = unat (inflight s) - 1" and "0 < unat (inflight s)"
    and "leak s' = leak s" and "partial s' = partial s"
    and "unat (remaining_blocks dl') = unat (remaining_blocks dl) - 1"
    and "store_block k begin block s = (Ok (remaining_blocks dl' = 0), s')"
proof -
  let ?b = "\<lparr>blk_piece_index = k, blk_begin = begin, blk_len = of_nat (length block)\<rparr> :: block_download"
  let ?B = "of_piece k (pending_blocks s)"
  have pp: "piece_pipe Q i k ?B dl" using inv dl by (simp add: pipe_inv_def)
  then obtain J where at: "pipe_at Q k ?B dl J" and ok: "piece_dl_ok i k dl" by (auto simp: piece_pipe_def)
  then have bytes: "length (dl_bytes dl) = len" by (simp add: piece_dl_ok_def len_def)
  obtain j where j: "j < num_blocks len" and off: "unat begin = j * 16384"
    and bl: "length block = block_len_at len j" and b: "?b = block_at k len j"
    and inside: "j * 16384 + length block \<le> len"
    using block_at_arrives [OF inv dl mem short len_def [THEN meta_eq_to_obj_eq]] by metis
  have mem': "block_at k len j \<in> ?B" using mem by (simp add: b)
  note acc = pipe_at_accept [OF at len_def [THEN meta_eq_to_obj_eq] bytes mem' j bl law [unfolded off],
      folded off, folded after_block_def, folded dl'_def]
  have ok': "piece_dl_ok i k dl'"
    using ok inside by (simp add: dl'_def after_block_def piece_dl_ok_def off len_def)
  have fin: "finite (pending_blocks s)" and le: "card (pending_blocks s) \<le> unat (inflight s)"
    using inv by (simp_all add: pipe_inv_def)
  have card: "card (pending_blocks s - {?b}) = card (pending_blocks s) - 1" "0 < card (pending_blocks s)"
    using fin mem by (auto simp: card_gt_0_iff)
  show pos: "0 < unat (inflight s)" using card le by linarith
  then have one: "1 \<le> inflight s" by (simp add: word_le_nat_alt)
  show infl: "unat (inflight s') = unat (inflight s) - 1"
    using one by (simp add: s'_def accept_block_def unat_sub)
  have pend: "pending_blocks s' = pending_blocks s - {?b}" by (simp add: s'_def accept_block_def)
  show "leak s' = leak s" using card le by (simp add: leak_def infl pend)
  show "partial s' = partial s"
    using dl by (auto simp: partial_def s'_def accept_block_def after_block_def split: if_splits)
  show "unat (remaining_blocks dl') = unat (remaining_blocks dl) - 1" by (rule acc(2))
  have B': "of_piece k (pending_blocks s') = ?B - {?b}"
    by (auto simp: pend of_piece_def)
  have other: "of_piece k' (pending_blocks s') = of_piece k' (pending_blocks s)" if "k' \<noteq> k" for k'
    using that by (auto simp: pend of_piece_def)
  have pp': "piece_pipe Q i k (of_piece k (pending_blocks s')) dl'"
    using pp ok' acc(1) unfolding B' b by (auto simp: piece_pipe_def dl'_def after_block_def)
  have le': "card (pending_blocks s') \<le> unat (inflight s')"
    using card le by (simp add: pend infl)
  show "pipe_inv Q i s'" if "remaining_blocks dl' \<noteq> 0"
    using inv pp' le' that other dl
    by (auto simp: pipe_inv_def pend s'_def accept_block_def dl'_def word_gt_0)
  show "piece_dl_ok i k dl' \<and> (\<forall>n < num_blocks len. Q k (n * 16384) (segment len n (dl_bytes dl')))"
    if "remaining_blocks dl' = 0"
    using acc(4) [OF that] ok' by simp
  show "pipe_inv Q i (s'\<lparr>pending_pieces := (pending_pieces s)(k := None)\<rparr>)" if "remaining_blocks dl' = 0"
  proof -
    have "of_piece k (pending_blocks s') = {}" using acc(4) [OF that] unfolding B' b by simp
    then have "blk_piece_index b' \<noteq> k" if "b' \<in> pending_blocks s'" for b'
      using that by (auto simp: of_piece_def)
    then show ?thesis
      using inv le' other dl by (simp add: pipe_inv_def pend) (simp add: s'_def accept_block_def)
  qed
  have rem: "sub_chk (remaining_blocks dl) 1 = Ok (remaining_blocks dl')"
    using acc(3) by (simp add: sub_chk_def word_le_nat_alt dl'_def after_block_def)
  have infl1: "sub_chk (inflight s) 1 = Ok (inflight s - 1)" using one by (simp add: sub_chk_def)
  have spl: "splice_vec (unat begin) (unat begin + length block) block (dl_bytes dl) =
      Ok (splice_block (unat begin) block (dl_bytes dl))"
    using inside by (intro splice_vec_block) (simp add: off bytes)
  have eq: "dl\<lparr>remaining_blocks := remaining_blocks dl', dl_bytes := splice_block (unat begin) block (dl_bytes dl)\<rparr> = dl'"
    by (simp add: dl'_def after_block_def)
  show store: "store_block k begin block s = (Ok (remaining_blocks dl' = 0), s')"
    using mem dl rem infl1 spl
    by (simp add: store_block_def Let_def eq s'_def accept_block_def dl'_def [symmetric])
qed

section \<open>Messages\<close>

definition sent_law :: "block_law \<Rightarrow> seed_downloader \<Rightarrow> bool" where
  "sent_law Q s \<longleftrightarrow> (\<forall>k len bytes. PieceMsg k len bytes \<in> set (tx_sent s) \<longrightarrow>
     (\<forall>n < num_blocks (unat len). Q k (n * 16384) (segment (unat len) n bytes)))"

lemma sent_law_tx: "sent_law Q s \<Longrightarrow> tx_sent s' = tx_sent s \<Longrightarrow> sent_law Q s'"
  by (simp add: sent_law_def)

text \<open>A choke: every piece starts over, and the outstanding requests are forgotten.\<close>

definition reset_dl :: "piece_download \<Rightarrow> piece_download" where
  "reset_dl dl = dl\<lparr>requested := 0,
     remaining_blocks := ucast ((dl_piece_length dl + block_size - 1) div block_size)\<rparr>"

lemma reset_piece_eq:
  "unat (dl_piece_length dl) \<le> 65535 * 16384 \<Longrightarrow> reset_piece dl = Ok (reset_dl dl)"
  using num_blocks_word(1) [OF refl, of "dl_piece_length dl"]
  by (auto simp: reset_piece_def reset_dl_def and_then_Ok_iff)

lemma reset_pieces_eq:
  "\<forall>k dl. pending_pieces s k = Some dl \<longrightarrow> unat (dl_piece_length dl) \<le> 65535 * 16384 \<Longrightarrow>
   reset_pieces ks s = (Ok (), s\<lparr>pending_pieces :=
     (\<lambda>k. if k \<in> set ks then map_option reset_dl (pending_pieces s k) else pending_pieces s k)\<rparr>)"
proof (induction ks arbitrary: s)
  case Nil
  then show ?case by simp
next
  case (Cons k ks)
  show ?case
  proof (cases "pending_pieces s k")
    case None
    then show ?thesis using Cons by (auto intro!: arg_cong [where f = "\<lambda>p. s\<lparr>pending_pieces := p\<rparr>"])
  next
    case (Some dl)
    let ?s = "s\<lparr>pending_pieces := (pending_pieces s)(k \<mapsto> reset_dl dl)\<rparr>"
    have "reset_pieces (k # ks) s = reset_pieces ks ?s"
      using Some Cons.prems by (simp add: reset_piece_eq)
    also have "\<dots> = (Ok (), ?s\<lparr>pending_pieces :=
        (\<lambda>k'. if k' \<in> set ks then map_option reset_dl (pending_pieces ?s k') else pending_pieces ?s k')\<rparr>)"
      using Cons.prems Some by (intro Cons.IH) (auto simp: reset_dl_def)
    also have "\<dots> = (Ok (), s\<lparr>pending_pieces :=
        (\<lambda>k'. if k' \<in> set (k # ks) then map_option reset_dl (pending_pieces s k') else pending_pieces s k')\<rparr>)"
      using Some by (auto intro!: arg_cong [where f = "\<lambda>p. s\<lparr>pending_pieces := p\<rparr>"] simp: reset_dl_def)
    finally show ?thesis .
  qed
qed

definition choked_state :: "seed_downloader \<Rightarrow> seed_downloader" where
  "choked_state s = s\<lparr>choked_us := True, pending_pieces := (\<lambda>k. map_option reset_dl (pending_pieces s k)),
     pending_blocks := {}\<rparr>"

lemma choke_eq:
  assumes "order_ok env" and "pipe_inv Q i s"
  shows "handle_msg env Choke s = (Ok (), choked_state s)"
proof -
  let ?s = "s\<lparr>choked_us := True\<rparr>"
  have "\<forall>k dl. pending_pieces ?s k = Some dl \<longrightarrow> unat (dl_piece_length dl) \<le> 65535 * 16384"
    using assms(2) piece_pipe_len [OF _ refl] by (force simp: pipe_inv_def)
  note run = reset_pieces_eq [OF this, of "env_iter_order env (pending_pieces s)"]
  have eq: "(\<lambda>k. if k \<in> set (env_iter_order env (pending_pieces s)) then map_option reset_dl (pending_pieces ?s k)
      else pending_pieces ?s k) = (\<lambda>k. map_option reset_dl (pending_pieces s k))"
  proof
    fix k
    show "(if k \<in> set (env_iter_order env (pending_pieces s)) then map_option reset_dl (pending_pieces ?s k)
      else pending_pieces ?s k) = map_option reset_dl (pending_pieces s k)"
      using assms(1) by (cases "pending_pieces s k") (auto simp: order_ok_def)
  qed
  show ?thesis
    using run [unfolded eq] by (simp add: handle_msg_def choked_state_def)
qed

lemma choked_state_simps [simp]:
  "choked_us (choked_state s)" "pending_blocks (choked_state s) = {}"
  by (simp_all add: choked_state_def)

lemma choked_state_pipe:
  assumes inv: "pipe_inv Q i s"
  shows "pipe_inv Q i (choked_state s)" and "leak (choked_state s) = leak s + card (pending_blocks s)"
    and "tight s \<Longrightarrow> pending_blocks s = {} \<Longrightarrow> tight (choked_state s)"
proof -
  have reset: "piece_pipe Q i k {} (reset_dl dl) \<and> 0 < remaining_blocks (reset_dl dl)"
    if "pending_pieces s k = Some dl" for k dl
  proof -
    have pp: "piece_pipe Q i k (of_piece k (pending_blocks s)) dl" and rem: "0 < remaining_blocks dl"
      using inv that by (simp_all add: pipe_inv_def)
    let ?len = "unat (dl_piece_length dl)"
    have nb: "unat (remaining_blocks (reset_dl dl)) = num_blocks ?len"
      using num_blocks_word(2) [OF refl] piece_pipe_len [OF pp refl] by (simp add: reset_dl_def)
    obtain J where "pipe_at Q k (of_piece k (pending_blocks s)) dl J" using pp by (auto simp: piece_pipe_def)
    then have "0 < num_blocks ?len"
      using rem by (auto simp: pipe_at_def Let_def word_less_nat_alt intro: ccontr)
    moreover have "pipe_at Q k {} (reset_dl dl) 0"
      using nb by (simp add: pipe_at_def Let_def reset_dl_def)
    ultimately show ?thesis
      using pp nb by (auto simp: piece_pipe_def reset_dl_def word_less_nat_alt)
  qed
  have empty: "of_piece k {} = {}" for k by (simp add: of_piece_def)
  show "pipe_inv Q i (choked_state s)"
    using inv reset by (auto simp: pipe_inv_def choked_state_def empty)
  show "leak (choked_state s) = leak s + card (pending_blocks s)"
    using inv by (simp add: leak_def choked_state_def pipe_inv_def)
  assume t: "tight s" and none: "pending_blocks s = {}"
  have "requested dl \<noteq> dl_piece_length dl" if dl: "pending_pieces s k = Some dl" for k dl
  proof -
    have pp: "piece_pipe Q i k {} dl" and rem: "0 < remaining_blocks dl"
      using inv dl none by (simp_all add: pipe_inv_def empty)
    then obtain J where at: "pipe_at Q k {} dl J" by (auto simp: piece_pipe_def)
    then have "J < num_blocks (unat (dl_piece_length dl))"
      using rem by (simp add: pipe_at_def Let_def word_less_nat_alt)
    then show ?thesis using pipe_at_complete [OF at refl] by simp
  qed
  then have "partial (choked_state s) \<subseteq> partial s"
    by (auto simp: partial_def choked_state_def)
  then show "tight (choked_state s)"
    using t by (auto simp: tight_def choked_state_def)
qed

text \<open>The law for messages: a block is what \<open>Q\<close> says, and its length fits the length prefix.\<close>

definition lawful :: "block_law \<Rightarrow> message \<Rightarrow> bool" where
  "lawful Q m \<longleftrightarrow> (case m of Piece k begin block \<Rightarrow> length block < 2 ^ 32 \<and> Q k (unat begin) block | _ \<Rightarrow> True)"

text \<open>
  \<open>calm\<close>: no request was lost to a choke, so the counter is the number of outstanding requests,
  at most five.
\<close>

definition calm :: "seed_downloader \<Rightarrow> bool" where
  "calm s \<longleftrightarrow> tight s \<and> leak s = 0 \<and> (choked_us s \<longrightarrow> pending_blocks s = {})"

lemma calm_inflight: "pipe_inv Q i s \<Longrightarrow> calm s \<Longrightarrow> unat (inflight s) = card (pending_blocks s) \<and> unat (inflight s) \<le> 5"
  by (simp add: calm_def pipe_inv_def leak_def tight_def)

end
