(* ===== verification/Tasks.thy ===== *)
theory Tasks
  imports Pipeline
begin

text \<open>
  The task of \<open>SeedDownloader::download\<close> (\<open>src/download/mod.rs\<close>) as a machine whose steps are what
  happens between two points at which other tasks may run: waiting for the lock on the shared
  bitfield, for the timer or the stream, and for room in the channel. Run without others it is
  \<open>download_round\<close>; the invariants of the downloader are stated for each of its points.
\<close>

section \<open>The machine\<close>

text \<open>
  Where a task may be: before the lock at the head of the loop; waiting for the timer or the
  stream; before the lock with the last block of a piece stored; with the lock held and a piece
  on its way into the channel; before the lock for a new piece; reporting the end of the
  stream; or at its end, normally or by a panic.
\<close>

datatype task_pc =
    AtHead
  | AtSelect
  | AtMark u32
  | AtSend downloader_msg
  | AtPick
  | AtDisconnect
  | Ended "unit res"

definition head_check :: "(seed_downloader, task_pc) prog" where
  "head_check =
     bnd (gets own_bitfield) (\<lambda>b.
     bnd (lift (remaining b)) (\<lambda>left.
     ret (if left = 0 then Ended (Ok ()) else AtSelect)))"

definition request_next :: "env \<Rightarrow> (seed_downloader, task_pc) prog" where
  "request_next env = bnd (request_more env) (\<lambda>more. ret (if more then AtPick else AtHead))"

definition start_msg :: "env \<Rightarrow> message \<Rightarrow> (seed_downloader, task_pc) prog" where
  "start_msg env msg =
     (case msg of
        Unchoke \<Rightarrow>
          bnd (gets choked_us) (\<lambda>choked.
          if \<not> choked then ret AtHead
          else bnd (modify (\<lambda>s. s\<lparr>choked_us := False\<rparr>)) (\<lambda>_. request_next env))
      | Piece index begin block \<Rightarrow>
          bnd (store_block index begin block) (\<lambda>last.
          if last then ret (AtMark index) else request_next env)
      | _ \<Rightarrow> bnd (handle_msg env msg) (\<lambda>_. ret AtHead))"

definition select_input :: "env \<Rightarrow> download_input \<Rightarrow> (seed_downloader, task_pc) prog" where
  "select_input env inp =
     (case inp of
        KeepAliveTimeout \<Rightarrow> bnd (ignore_err (send_message env KeepAlive)) (\<lambda>_. ret AtHead)
      | StreamEnd \<Rightarrow> ret AtDisconnect
      | StreamError \<Rightarrow> ret AtHead
      | Received msg \<Rightarrow> start_msg env msg)"

fun pc_prog :: "env \<Rightarrow> download_input \<Rightarrow> task_pc \<Rightarrow> (seed_downloader, task_pc) prog" where
  "pc_prog env inp AtHead = head_check"
| "pc_prog env inp AtSelect = select_input env inp"
| "pc_prog env inp (AtMark index) = bnd (mark_piece env index) (\<lambda>m. ret (AtSend m))"
| "pc_prog env inp (AtSend m) = bnd (send_tx env m) (\<lambda>_. request_next env)"
| "pc_prog env inp AtPick = bnd (bnd (with_bitfield pick_piece) (begin_piece env)) (\<lambda>_. ret AtHead)"
| "pc_prog env inp AtDisconnect =
     bnd (gets sd_addr) (\<lambda>a. bnd (ignore_err (send_tx env (Disconnect a))) (\<lambda>_. ret (Ended (Ok ()))))"
| "pc_prog env inp (Ended r) = ret (Ended r)"

text \<open>An error of a handler is printed and the loop goes on; a panic ends the task.\<close>

fun next_pc :: "task_pc res \<Rightarrow> task_pc" where
  "next_pc (Ok pc) = pc"
| "next_pc (Err e) = AtHead"
| "next_pc (Panic p) = Ended (Panic p)"
| "next_pc Hang = Ended Hang"

definition task_step :: "env \<Rightarrow> download_input \<Rightarrow> task_pc \<times> seed_downloader \<Rightarrow> task_pc \<times> seed_downloader" where
  "task_step env inp = (\<lambda>(pc, s). case pc_prog env inp pc s of (r, s') \<Rightarrow> (next_pc r, s'))"

text \<open>Which points wait for the lock on the bitfield, and which hold it.\<close>

fun wants_lock :: "task_pc \<Rightarrow> bool" where
  "wants_lock AtHead = True"
| "wants_lock (AtMark k) = True"
| "wants_lock AtPick = True"
| "wants_lock pc = False"

fun holds_lock :: "task_pc \<Rightarrow> bool" where
  "holds_lock (AtSend m) = True"
| "holds_lock pc = False"

text \<open>The points at which no piece is half finished.\<close>

fun settled :: "task_pc \<Rightarrow> bool" where
  "settled (AtMark k) = False"
| "settled (Ended r) = (r = Ok ())"
| "settled pc = True"

section \<open>Without others the machine is the code\<close>

text \<open>The steps up to the head of the loop or the end of the task.\<close>

fun run_on :: "env \<Rightarrow> download_input \<Rightarrow> nat \<Rightarrow> task_pc \<times> seed_downloader \<Rightarrow> task_pc \<times> seed_downloader" where
  "run_on env inp 0 st = st"
| "run_on env inp (Suc n) (pc, s) =
     (case pc of
        AtHead \<Rightarrow> (pc, s)
      | Ended r \<Rightarrow> (pc, s)
      | _ \<Rightarrow> run_on env inp n (task_step env inp (pc, s)))"

text \<open>What a handler that ran to its end leaves to the loop.\<close>

definition at_end :: "unit res \<times> seed_downloader \<Rightarrow> task_pc \<times> seed_downloader" where
  "at_end = (\<lambda>(r, s). (next_pc (and_then r (\<lambda>_. Ok AtHead)), s))"

lemma run_on_head [simp]: "run_on env inp n (AtHead, s) = (AtHead, s)"
  and run_on_ended [simp]: "run_on env inp n (Ended r, s) = (Ended r, s)"
  by (cases n; simp)+

lemma run_on_pick:
  "run_on env inp (Suc n) (AtPick, s) = at_end (bnd (with_bitfield pick_piece) (begin_piece env) s)"
  by (cases "bnd (with_bitfield pick_piece) (begin_piece env) s"; cases "fst (bnd (with_bitfield pick_piece) (begin_piece env) s)")
    (simp_all add: task_step_def at_end_def)

lemma run_on_next:
  "run_on env inp (Suc n) (case request_next env s of (r, s') \<Rightarrow> (next_pc r, s')) = at_end (request_pieces env s)"
proof -
  obtain r s' where run: "request_more env s = (r, s')" by (metis surj_pair)
  show ?thesis
  proof (cases "r = Ok True")
    case True
    then show ?thesis
      using run by (simp add: request_next_def request_pieces_def run_on_pick del: run_on.simps)
  next
    case False
    then show ?thesis
      using run by (cases r) (simp_all add: request_next_def request_pieces_def at_end_def)
  qed
qed

lemma run_on_send:
  "run_on env inp (Suc (Suc n)) (AtSend m, s) = at_end (bnd (send_tx env m) (\<lambda>_. request_pieces env) s)"
proof (cases "send_tx env m s")
  case (Pair r s')
  then show ?thesis
    using run_on_next [of env inp n s']
    by (cases r) (simp_all add: task_step_def at_end_def)
qed

lemma run_on_mark:
  "run_on env inp (Suc (Suc (Suc n))) (AtMark k, s) =
     at_end (bnd (finish_piece env k) (\<lambda>_. request_pieces env) s)"
proof (cases "mark_piece env k s")
  case (Pair r s')
  then show ?thesis
    using run_on_send [of env inp n _ s']
    by (cases r) (simp_all add: task_step_def at_end_def finish_piece_def bnd_assoc del: run_on.simps(2),
      simp_all add: task_step_def)
qed

lemma run_on_msg:
  "run_on env inp (Suc (Suc (Suc n))) (case start_msg env msg s of (r, s') \<Rightarrow> (next_pc r, s')) =
     at_end (handle_msg env msg s)"
proof (cases msg)
  case Unchoke
  then show ?thesis
    using run_on_next [of env inp "Suc (Suc n)" "s\<lparr>choked_us := False\<rparr>"]
    by (simp add: start_msg_def handle_msg_def at_end_def del: run_on.simps)
next
  case (Piece index off block)
  show ?thesis
  proof (cases "store_block index off block s")
    case (Pair r s')
    show ?thesis
    proof (cases "r = Ok False")
      case True
      then show ?thesis
        using run_on_next [of env inp "Suc (Suc n)" s'] Pair Piece
        by (simp add: start_msg_def handle_msg_def handle_piece_def bnd_def [of "store_block _ _ _"] del: run_on.simps)
    next
      case False
      then show ?thesis
        using run_on_mark [of env inp n index s'] Pair Piece
        by (cases r) (simp_all add: start_msg_def handle_msg_def handle_piece_def at_end_def del: run_on.simps)
    qed
  qed
next
  case Choke
  then show ?thesis
    by (cases "handle_msg env msg s"; cases "fst (handle_msg env msg s)")
      (simp_all add: start_msg_def at_end_def del: run_on.simps)
qed (simp_all add: start_msg_def handle_msg_def at_end_def del: run_on.simps)

definition round_end :: "bool res \<times> seed_downloader \<Rightarrow> task_pc \<times> seed_downloader" where
  "round_end = (\<lambda>(r, s). (next_pc (and_then r (\<lambda>fin. Ok (if fin then Ended (Ok ()) else AtHead))), s))"

lemma at_end_ignore_err:
  "round_end (bnd (ignore_err m) (\<lambda>_. ret False) s) = at_end (m s)"
  by (cases "m s"; cases "fst (m s)") (simp_all add: at_end_def round_end_def ignore_err_def)

lemma uninterrupted_select:
  "run_on env inp 4 (AtSelect, s) = round_end (case inp of
      KeepAliveTimeout \<Rightarrow> bnd (ignore_err (send_message env KeepAlive)) (\<lambda>_. ret False) s
    | StreamEnd \<Rightarrow> bnd (gets sd_addr) (\<lambda>a. bnd (ignore_err (send_tx env (Disconnect a))) (\<lambda>_. ret True)) s
    | StreamError \<Rightarrow> (Ok False, s)
    | Received msg \<Rightarrow> bnd (ignore_err (handle_msg env msg)) (\<lambda>_. ret False) s)"
proof (cases inp)
  case (Received msg)
  have "run_on env inp 4 (AtSelect, s) =
      run_on env inp (Suc (Suc (Suc 0))) (case start_msg env msg s of (r, s') \<Rightarrow> (next_pc r, s'))"
    by (simp add: Received numeral_eq_Suc task_step_def select_input_def)
  then show ?thesis by (simp only: run_on_msg Received download_input.case at_end_ignore_err)
qed (auto simp: numeral_eq_Suc task_step_def select_input_def round_end_def ignore_err_def send_message_def send_tx_def bnd_def)

text \<open>
  A round of the loop that no other task interrupts, from one head of the loop to the next or to the end
  of the task, is \<open>download_round\<close>, with the same outcome, state and messages; it takes at most
  five steps.
\<close>

lemma uninterrupted_round:
  "run_on env inp 4 (task_step env inp (AtHead, s)) = round_end (download_round env inp s)"
proof (cases "remaining (own_bitfield s)")
  case (Ok left)
  show ?thesis
  proof (cases "left = 0")
    case True
    then show ?thesis using Ok by (simp add: task_step_def head_check_def download_round_def round_end_def)
  next
    case False
    then have "task_step env inp (AtHead, s) = (AtSelect, s)"
      using Ok by (simp add: task_step_def head_check_def)
    moreover have "download_round env inp s = (case inp of
        KeepAliveTimeout \<Rightarrow> bnd (ignore_err (send_message env KeepAlive)) (\<lambda>_. ret False) s
      | StreamEnd \<Rightarrow> bnd (gets sd_addr) (\<lambda>a. bnd (ignore_err (send_tx env (Disconnect a))) (\<lambda>_. ret True)) s
      | StreamError \<Rightarrow> (Ok False, s)
      | Received msg \<Rightarrow> bnd (ignore_err (handle_msg env msg)) (\<lambda>_. ret False) s)"
      using Ok False by (cases inp) (simp_all add: download_round_def)
    ultimately show ?thesis by (simp only: uninterrupted_select)
  qed
qed (simp_all add: task_step_def head_check_def download_round_def round_end_def)

section \<open>Runs\<close>

text \<open>
  \<open>ok s inp\<close> restricts what the timer and the stream give to a task that waits for them. The other
  tasks may change the shared bitfield at every point.
\<close>

inductive task_reach ::
  "env \<Rightarrow> (seed_downloader \<Rightarrow> download_input \<Rightarrow> bool) \<Rightarrow> info \<Rightarrow> socket_addr \<Rightarrow> task_pc \<Rightarrow> seed_downloader \<Rightarrow> bool"
  for env ok i a where
  start: "bf_inv b \<Longrightarrow> total_pieces b = piece_count i \<Longrightarrow>
    task_reach env ok i a AtHead (new_downloader i b a)"
| step: "task_reach env ok i a pc s \<Longrightarrow> (pc = AtSelect \<Longrightarrow> ok s inp) \<Longrightarrow>
    task_step env inp (pc, s) = (pc', s') \<Longrightarrow> task_reach env ok i a pc' s'"
| others: "task_reach env ok i a pc s \<Longrightarrow> bf_inv b \<Longrightarrow> total_pieces b = piece_count i \<Longrightarrow>
    owned (own_bitfield s) \<subseteq> owned b \<Longrightarrow> task_reach env ok i a pc (s\<lparr>own_bitfield := b\<rparr>)"

section \<open>Where a step may lead\<close>

lemma request_next_pc: "request_next env s = (Ok pc, s') \<Longrightarrow> pc = AtPick \<or> pc = AtHead"
  by (auto simp: request_next_def bnd_def split: prod.splits res.splits if_splits)

lemma next_pc_iff:
  "next_pc r = AtSelect \<longleftrightarrow> r = Ok AtSelect" "next_pc r = AtMark k \<longleftrightarrow> r = Ok (AtMark k)"
  "next_pc r = AtSend m \<longleftrightarrow> r = Ok (AtSend m)" "next_pc r = AtPick \<longleftrightarrow> r = Ok AtPick"
  "next_pc r = AtDisconnect \<longleftrightarrow> r = Ok AtDisconnect"
  by (cases r; simp)+

lemma task_step_AtSend:
  assumes "task_step env inp (pc, s) = (AtSend m, s')"
  obtains k where "pc = AtMark k" "mark_piece env k s = (Ok m, s')"
proof (cases pc)
  case (AtMark k)
  then show thesis
    using assms that by (auto simp: task_step_def next_pc_iff bnd_def split: prod.splits res.splits)
next
  case AtSelect
  show thesis
    using assms unfolding AtSelect
    by (auto simp: task_step_def next_pc_iff select_input_def start_msg_def bnd_def
        split: prod.splits res.splits download_input.splits message.splits if_splits dest: request_next_pc)
qed (use assms in \<open>auto simp: task_step_def next_pc_iff head_check_def bnd_def
    split: prod.splits res.splits if_splits dest: request_next_pc\<close>)

lemma task_step_AtMark:
  assumes "task_step env inp (pc, s) = (AtMark k, s')"
  obtains off block where "pc = AtSelect" "inp = Received (Piece k off block)" "store_block k off block s = (Ok True, s')"
proof (cases pc)
  case AtSelect
  show thesis
    using assms that unfolding AtSelect
    by (auto simp: task_step_def next_pc_iff select_input_def start_msg_def bnd_def
        split: prod.splits res.splits download_input.splits message.splits if_splits dest: request_next_pc)
qed (use assms in \<open>auto simp: task_step_def next_pc_iff head_check_def bnd_def
    split: prod.splits res.splits if_splits dest: request_next_pc\<close>)

text \<open>An invariant that every part keeps is kept by every step.\<close>

lemma request_next_keeps: "keeps I (request_more env) \<Longrightarrow> keeps I (request_next env)"
  unfolding request_next_def by (auto intro!: keeps)

lemma select_input_keeps:
  assumes "keeps I (handle_msg env Choke)" "\<And>k off b. keeps I (store_block k off b)" "keeps I (request_more env)"
    "\<And>m. keeps I (send_message env m)" "keeps I (modify (\<lambda>s. s\<lparr>choked_us := False\<rparr>))"
  shows "keeps I (select_input env inp)"
proof -
  have "keeps I (start_msg env m)" for m
    using assms(1-3,5) request_next_keeps [OF assms(3)]
    by (cases m) (auto simp: start_msg_def handle_msg_def [of _ "Have _"] handle_msg_def [of _ "BitfieldMsg _"]
        handle_msg_def [of _ "Request _ _ _"] handle_msg_def [of _ "Cancel _ _ _"] handle_msg_def [of _ KeepAlive]
        handle_msg_def [of _ Interested] handle_msg_def [of _ NotInterested] intro!: keeps)
  then show ?thesis
    unfolding select_input_def using assms(4) by (cases inp) (auto intro!: keeps)
qed

lemma task_step_keeps:
  assumes "keeps I (handle_msg env Choke)" "\<And>k off b. keeps I (store_block k off b)" "keeps I (request_more env)"
    "\<And>m. keeps I (send_message env m)" "keeps I (bnd (with_bitfield pick_piece) (begin_piece env))"
    "keeps I (modify (\<lambda>s. s\<lparr>choked_us := False\<rparr>))"
    and mark: "\<And>k. pc = AtMark k \<Longrightarrow> I (snd (mark_piece env k s))"
    and send: "\<And>m. pc = AtSend m \<Longrightarrow> I (snd (send_tx env m s))" "\<And>a. I (snd (send_tx env (Disconnect a) s))"
    and inv: "I s" and step: "task_step env inp (pc, s) = (pc', s')"
  shows "I s'"
proof -
  note next_ok = request_next_keeps [OF assms(3)]
  have "I (snd (pc_prog env inp pc s))"
  proof (cases pc)
    case AtHead
    then show ?thesis using inv by (auto simp: head_check_def bnd_def split: res.splits)
  next
    case AtSelect
    have "keeps I (select_input env inp)" using assms(1-4,6) by (rule select_input_keeps)
    then show ?thesis using inv AtSelect by (simp add: keeps_def)
  next
    case (AtMark k)
    then show ?thesis using mark by (auto simp: bnd_def split: prod.splits res.splits)
  next
    case (AtSend m)
    then show ?thesis using send(1) next_ok by (auto simp: bnd_def keeps_def split: prod.splits res.splits)
  next
    case AtPick
    have "keeps I (bnd (bnd (with_bitfield pick_piece) (begin_piece env)) (\<lambda>_. ret AtHead))"
      using assms(5) by (auto intro!: keeps)
    then show ?thesis using inv AtPick by (simp add: keeps_def)
  next
    case AtDisconnect
    then show ?thesis
      using send(2) [of "sd_addr s"] by (auto simp: bnd_def ignore_err_def split: prod.splits res.splits)
  qed (use inv in simp)
  with step show ?thesis by (auto simp: task_step_def split: prod.splits)
qed

section \<open>Validated pieces\<close>

definition task_hash :: "env \<Rightarrow> info \<Rightarrow> task_pc \<Rightarrow> seed_downloader \<Rightarrow> bool" where
  "task_hash env i pc s \<longleftrightarrow> hash_inv env i s \<and> (\<forall>m. pc = AtSend m \<longrightarrow> tx_msg_ok env i m)"

lemma task_step_hash:
  assumes "task_hash env i pc s" and step: "task_step env inp (pc, s) = (pc', s')"
  shows "task_hash env i pc' s'"
proof -
  have inv: "hash_inv env i s" and m: "\<And>m. pc = AtSend m \<Longrightarrow> tx_msg_ok env i m"
    using assms(1) by (simp_all add: task_hash_def)
  have mark: "hash_inv env i (snd (mark_piece env k s))" for k
    using mark_piece_hash(1) [OF inv] by (metis prod.collapse)
  have pick: "keeps (hash_inv env i) (bnd (with_bitfield pick_piece) (begin_piece env))"
    by (intro keeps keeps_hash)
  have "hash_inv env i s'"
    by (rule task_step_keeps [OF choke_hash store_block_hash request_more_hash send_message_hash pick _ mark
          send_tx_hash [OF inv m] send_tx_hash [OF inv] inv step]) (simp_all add: keeps)
  moreover have "tx_msg_ok env i m" if "pc' = AtSend m" for m
    using task_step_AtSend [OF step [unfolded that]] mark_piece_hash(2) [OF inv] by metis
  ultimately show ?thesis by (simp add: task_hash_def)
qed

lemma task_reach_hash: "task_reach env ok i a pc s \<Longrightarrow> task_hash env i pc s"
proof (induction rule: task_reach.induct)
  case (start b)
  then show ?case by (simp add: task_hash_def hash_inv_def new_downloader_def)
next
  case (step pc s inp pc' s')
  then show ?case using task_step_hash by blast
qed (simp add: task_hash_def)

section \<open>The bitfield and the pending pieces\<close>

text \<open>Whatever happens, the shared bitfield stays well formed and pending pieces are pieces.\<close>

definition bits_ok :: "info \<Rightarrow> seed_downloader \<Rightarrow> bool" where
  "bits_ok i s \<longleftrightarrow> bf_inv (own_bitfield s) \<and> total_pieces (own_bitfield s) = piece_count i \<and>
     (\<forall>k. pending_pieces s k \<noteq> None \<longrightarrow> unat k < piece_count i)"

named_theorems keeps_bits \<open>operations of the downloader that keep \<open>bits_ok\<close>\<close>

lemma bits_ok_update [simp]:
  "bits_ok i (s\<lparr>stream_sent := x1\<rparr>) = bits_ok i s"
  "bits_ok i (s\<lparr>tx_sent := x2\<rparr>) = bits_ok i s"
  "bits_ok i (s\<lparr>pending_blocks := x3\<rparr>) = bits_ok i s"
  "bits_ok i (s\<lparr>inflight := x4\<rparr>) = bits_ok i s"
  "bits_ok i (s\<lparr>choked_us := x5\<rparr>) = bits_ok i s"
  by (simp_all add: bits_ok_def)

lemma bits_ok_put:
  "bits_ok i s \<Longrightarrow> unat k < piece_count i \<Longrightarrow> bits_ok i (s\<lparr>pending_pieces := (pending_pieces s)(k \<mapsto> dl)\<rparr>)"
  by (simp add: bits_ok_def)

lemma request_blocks_bits:
  assumes "request_blocks env k (dl, s) = (r, (dl', s'))" and "bits_ok i s"
  shows "bits_ok i s'"
  using request_blocks_frame [of dl s env k] assms by (simp add: same_frame_def bits_ok_def)

lemma send_message_bits [keeps_bits]: "keeps (bits_ok i) (send_message env m)"
  and send_tx_bits [keeps_bits]: "keeps (bits_ok i) (send_tx env x)"
  by (simp_all add: keeps_def send_message_def send_tx_def)

lemma continue_piece_bits [keeps_bits]: "keeps (bits_ok i) (continue_piece env k)"
  unfolding keeps_def
proof (intro allI impI)
  fix s assume ok: "bits_ok i s"
  show "bits_ok i (snd (continue_piece env k s))"
  proof (cases "pending_pieces s k")
    case (Some dl)
    obtain r dl' s' where run: "request_blocks env k (dl, s) = (r, (dl', s'))" by (metis surj_pair)
    have "unat k < piece_count i" using ok Some by (simp add: bits_ok_def)
    with Some ok run bits_ok_put [OF request_blocks_bits [OF run ok]] show ?thesis
      by (simp add: continue_piece_def bnd_def)
  qed (simp add: continue_piece_def ok)
qed

lemma continue_pieces_bits [keeps_bits]: "keeps (bits_ok i) (continue_pieces env ks)"
  by (induction ks) (simp_all add: keeps keeps_bits)

lemma start_piece_bits:
  assumes "unat k < piece_count i"
  shows "keeps (bits_ok i) (start_piece env k)"
  unfolding keeps_def
proof (intro allI impI)
  fix s assume ok: "bits_ok i s"
  have req: "bits_ok i s'" "bits_ok i (s'\<lparr>pending_pieces := (pending_pieces s')(k \<mapsto> dl')\<rparr>)"
    if "request_blocks env k (dl, s) = (r, (dl', s'))" for dl r dl' s'
    using bits_ok_put [OF request_blocks_bits [OF that ok] assms] request_blocks_bits [OF that ok] by simp_all
  show "bits_ok i (snd (start_piece env k s))"
    using ok req by (auto simp: start_piece_def bnd_def Let_def split: res.splits prod.splits)
qed

lemma pick_begin_bits: "keeps (bits_ok i) (bnd (with_bitfield pick_piece) (begin_piece env))"
  unfolding keeps_def
proof (intro allI impI)
  fix s assume ok: "bits_ok i s"
  then have bf: "bf_inv (own_bitfield s)" by (simp add: bits_ok_def)
  show "bits_ok i (snd (bnd (with_bitfield pick_piece) (begin_piece env) s))"
    using pick_piece_pipe [OF bf]
  proof (elim disjE exE conjE)
    assume "pick_piece (own_bitfield s) = (Ok None, own_bitfield s)"
    with ok show ?thesis by (simp add: with_bitfield_def begin_piece_def)
  next
    fix k c
    assume pick: "pick_piece (own_bitfield s) = (Ok (Some k), (own_bitfield s)\<lparr>cur := c\<rparr>)"
      and k: "unat k < total_pieces (own_bitfield s)" and c: "bf_inv ((own_bitfield s)\<lparr>cur := c\<rparr>)"
    have "unat k < piece_count i" using k ok by (simp add: bits_ok_def)
    moreover have "bits_ok i (s\<lparr>own_bitfield := (own_bitfield s)\<lparr>cur := c\<rparr>\<rparr>)"
      using ok c by (simp add: bits_ok_def)
    ultimately show ?thesis
      using start_piece_bits [of k i env] pick by (simp add: with_bitfield_def begin_piece_def keeps_def)
  qed
qed

lemma request_more_bits [keeps_bits]: "keeps (bits_ok i) (request_more env)"
  unfolding request_more_def by (auto intro!: keeps keeps_bits)

lemma reset_pieces_bits [keeps_bits]: "keeps (bits_ok i) (reset_pieces ks)"
proof (induction ks)
  case (Cons k ks)
  have put: "bits_ok i (s\<lparr>pending_pieces := (pending_pieces s)(k \<mapsto> dl)\<rparr>)"
    if "bits_ok i s" "pending_pieces s k = Some d" for s dl d
    using that by (intro bits_ok_put) (auto simp: bits_ok_def)
  show ?case
    unfolding keeps_def using Cons put by (auto simp: keeps_def split: option.splits res.splits)
qed (simp add: keeps)

lemma choke_bits: "keeps (bits_ok i) (handle_msg env Choke)"
  by (auto simp: handle_msg_def intro!: keeps keeps_bits)

lemma store_block_bits [keeps_bits]: "keeps (bits_ok i) (store_block k begin block)"
proof (cases "unat k < piece_count i")
  case True
  show ?thesis
    unfolding store_block_def Let_def
    by (auto intro!: keeps keeps_bits bits_ok_put [OF _ True] split: option.splits)
next
  case False
  then have "pending_pieces s k = None" if "bits_ok i s" for s
    using that by (auto simp: bits_ok_def)
  then show ?thesis by (auto simp: keeps_def store_block_def bnd_def Let_def)
qed

lemma store_block_known:
  "bits_ok i s \<Longrightarrow> store_block k begin block s = (Ok b, s') \<Longrightarrow> unat k < piece_count i"
  by (cases "pending_pieces s k") (auto simp: store_block_def Let_def bits_ok_def bnd_def split: res.splits if_splits)

lemma mark_piece_bits:
  assumes ok: "bits_ok i s" and k: "unat k < piece_count i" and run: "mark_piece env k s = (r, s')"
  shows "bits_ok i s'"
proof -
  have new: "bits_ok i (s\<lparr>own_bitfield := b, pending_pieces := P\<rparr>)"
    if "set_piece k (own_bitfield s) = (r1, b)" "P \<subseteq>\<^sub>m pending_pieces s" for r1 b P
    using ok k that set_piece_owned [of "own_bitfield s" k r1 b] unfolding bits_ok_def map_le_def
    by simp (metis domI not_None_eq)
  obtain r1 b where set: "set_piece k (own_bitfield s) = (r1, b)" by (metis surj_pair)
  have "\<exists>P. s' = s\<lparr>own_bitfield := b, pending_pieces := P\<rparr> \<and> P \<subseteq>\<^sub>m pending_pieces s"
    using mark_piece_frame [OF run] set by simp
  then show ?thesis using new [OF set] by blast
qed

definition task_bits :: "info \<Rightarrow> task_pc \<Rightarrow> seed_downloader \<Rightarrow> bool" where
  "task_bits i pc s \<longleftrightarrow> bits_ok i s \<and> (\<forall>k. pc = AtMark k \<longrightarrow> unat k < piece_count i)"

lemma task_step_bits:
  assumes "task_bits i pc s" and step: "task_step env inp (pc, s) = (pc', s')"
  shows "task_bits i pc' s'"
proof -
  have ok: "bits_ok i s" and k: "\<And>k. pc = AtMark k \<Longrightarrow> unat k < piece_count i"
    using assms(1) by (simp_all add: task_bits_def)
  have mark: "bits_ok i (snd (mark_piece env k s))" if "pc = AtMark k" for k
    using mark_piece_bits [OF ok k [OF that]] by (metis prod.collapse)
  have send: "bits_ok i (snd (send_tx env m s))" for m
    using send_tx_bits ok by (simp add: keeps_def)
  have "bits_ok i s'"
    by (rule task_step_keeps [OF choke_bits store_block_bits request_more_bits send_message_bits
          pick_begin_bits _ mark send send ok step]) (auto intro: keeps)
  moreover have "unat k < piece_count i" if "pc' = AtMark k" for k
    using task_step_AtMark [OF step [unfolded that]] store_block_known [OF ok] by metis
  ultimately show ?thesis by (simp add: task_bits_def)
qed

section \<open>The messages for the channel obey the law\<close>

fun msg_law :: "block_law \<Rightarrow> downloader_msg \<Rightarrow> bool" where
  "msg_law Q (Disconnect a) = True"
| "msg_law Q (PieceMsg k len bytes) = (\<forall>n < num_blocks (unat len). Q k (n * 16384) (segment (unat len) n bytes))"

lemma sent_law_msgs: "sent_law Q s \<longleftrightarrow> (\<forall>m \<in> set (tx_sent s). msg_law Q m)"
proof -
  have "msg_law Q m \<longleftrightarrow> (\<forall>k len bytes. m = PieceMsg k len bytes \<longrightarrow>
      (\<forall>n < num_blocks (unat len). Q k (n * 16384) (segment (unat len) n bytes)))" for m
    by (cases m) auto
  then show ?thesis by (auto simp: sent_law_def)
qed

named_theorems keeps_sent \<open>operations of the downloader that send nothing to the channel\<close>

abbreviation tx_is :: "downloader_msg list \<Rightarrow> seed_downloader \<Rightarrow> bool" where
  "tx_is ms \<equiv> \<lambda>s. tx_sent s = ms"

lemma send_message_sent [keeps_sent]: "keeps (tx_is ms) (send_message env m)"
  and with_bitfield_sent [keeps_sent]: "keeps (tx_is ms) (with_bitfield p)"
  by (auto simp: keeps_def send_message_def with_bitfield_def split: prod.splits)

lemma request_blocks_sent: "request_blocks env k (dl, s) = (r, (dl', s')) \<Longrightarrow> tx_sent s' = tx_sent s"
  using request_blocks_frame [of dl s env k] by (simp add: same_frame_def)

lemma continue_pieces_sent [keeps_sent]: "keeps (tx_is ms) (continue_pieces env ks)"
proof (induction ks)
  case (Cons k ks)
  have "keeps (tx_is ms) (continue_piece env k)"
    by (auto simp: keeps_def continue_piece_def bnd_def request_blocks_sent split: option.splits prod.splits)
  with Cons show ?case by (simp add: keeps)
qed (simp add: keeps)

lemma start_piece_sent [keeps_sent]: "keeps (tx_is ms) (start_piece env k)"
  by (auto simp: keeps_def start_piece_def bnd_def Let_def request_blocks_sent split: res.splits prod.splits)

lemma request_more_sent [keeps_sent]: "keeps (tx_is ms) (request_more env)"
  unfolding request_more_def by (auto intro!: keeps keeps_sent)

lemma begin_piece_sent [keeps_sent]: "keeps (tx_is ms) (begin_piece env picked)"
  unfolding begin_piece_def by (auto intro!: keeps keeps_sent split: option.splits)

lemma reset_pieces_sent [keeps_sent]: "keeps (tx_is ms) (reset_pieces ks)"
  by (induction ks) (auto simp: keeps keeps_def split: option.splits res.splits)

lemma choke_sent: "keeps (tx_is ms) (handle_msg env Choke)"
  by (auto simp: handle_msg_def intro!: keeps keeps_sent)

lemma store_block_sent [keeps_sent]: "keeps (tx_is ms) (store_block k begin block)"
  unfolding store_block_def Let_def by (auto intro!: keeps split: option.splits)

lemma mark_piece_sent: "mark_piece env k s = (r, s') \<Longrightarrow> tx_sent s' = tx_sent s"
  using mark_piece_frame [of env k s r s'] by auto

lemma request_next_sent: "request_next env s = (r, s') \<Longrightarrow> tx_sent s' = tx_sent s"
  using keepsD [OF request_next_keeps [OF request_more_sent]] by blast

text \<open>What a step adds to the messages sent: the message of its point, and only there.\<close>

lemma task_step_sent:
  assumes "task_step env inp (pc, s) = (pc', s')"
  shows "tx_sent s' = tx_sent s \<or>
    (\<exists>m. pc = AtSend m \<and> env_tx_ok env (tx_sent s) m \<and> tx_sent s' = tx_sent s @ [m]) \<or>
    pc = AtDisconnect \<and> env_tx_ok env (tx_sent s) (Disconnect (sd_addr s)) \<and>
      tx_sent s' = tx_sent s @ [Disconnect (sd_addr s)]"
proof -
  consider m where "pc = AtSend m" | "pc = AtDisconnect" | "pc \<noteq> AtDisconnect" "\<forall>m. pc \<noteq> AtSend m" by blast
  then show ?thesis
  proof cases
    case 1
    then show ?thesis
      using assms by (auto simp: task_step_def bnd_def send_tx_def split: prod.splits res.splits if_splits
          dest!: request_next_sent)
  next
    case 2
    then show ?thesis
      using assms by (auto simp: task_step_def bnd_def send_tx_def ignore_err_def split: prod.splits res.splits if_splits)
  next
    case 3
    have sel: "keeps (tx_is (tx_sent s)) (select_input env inp)"
      by (rule select_input_keeps [OF choke_sent store_block_sent request_more_sent send_message_sent]) (simp add: keeps)
    have pick: "keeps (tx_is (tx_sent s)) (pc_prog env inp AtPick)"
      by (auto intro!: keeps keeps_sent)
    have "tx_sent (snd (pc_prog env inp pc s)) = tx_sent s"
      using 3 sel pick
      by (cases pc) (auto simp: keeps_def head_check_def bnd_def [of "mark_piece _ _"] bnd_def [of "gets _"]
          bnd_def [of "lift _"] dest: mark_piece_sent split: prod.splits res.splits)
    then show ?thesis using assms by (auto simp: task_step_def split: prod.splits)
  qed
qed

section \<open>The pipeline at each point\<close>

text \<open>
  With the last block of a piece stored, the invariant of the pipeline holds of the other pieces,
  and what the law says is known of every block of this one.
\<close>

definition mark_ready :: "block_law \<Rightarrow> info \<Rightarrow> u32 \<Rightarrow> seed_downloader \<Rightarrow> bool" where
  "mark_ready Q i k s \<longleftrightarrow> unat k < piece_count i \<and>
     pipe_inv Q i (s\<lparr>pending_pieces := (pending_pieces s)(k := None)\<rparr>) \<and>
     (\<exists>dl. pending_pieces s k = Some dl \<and> piece_dl_ok i k dl \<and>
        (\<forall>n < num_blocks (unat (dl_piece_length dl)).
           Q k (n * 16384) (segment (unat (dl_piece_length dl)) n (dl_bytes dl))))"

fun pc_pipe :: "block_law \<Rightarrow> info \<Rightarrow> task_pc \<Rightarrow> seed_downloader \<Rightarrow> bool" where
  "pc_pipe Q i (AtMark k) s \<longleftrightarrow> mark_ready Q i k s"
| "pc_pipe Q i (AtSend m) s \<longleftrightarrow> pipe_inv Q i s \<and> msg_law Q m"
| "pc_pipe Q i AtPick s \<longleftrightarrow> pipe_inv Q i s \<and> unat (inflight s) < 5"
| "pc_pipe Q i (Ended r) s \<longleftrightarrow> (r = Ok () \<longrightarrow> pipe_inv Q i s)"
| "pc_pipe Q i pc s \<longleftrightarrow> pipe_inv Q i s"

text \<open>The same for a run in which no request was lost to a choke.\<close>

definition mid_calm :: "seed_downloader \<Rightarrow> bool" where
  "mid_calm s \<longleftrightarrow> leak s = 0 \<and> unat (inflight s) < 5 \<and> (\<exists>p. partial s \<subseteq> {p}) \<and> \<not> choked_us s"

fun pc_calm :: "task_pc \<Rightarrow> seed_downloader \<Rightarrow> bool" where
  "pc_calm (AtMark k) s \<longleftrightarrow> mid_calm s"
| "pc_calm (AtSend m) s \<longleftrightarrow> mid_calm s"
| "pc_calm AtPick s \<longleftrightarrow> mid_calm s \<and> partial s = {}"
| "pc_calm (Ended r) s \<longleftrightarrow> True"
| "pc_calm pc s \<longleftrightarrow> calm s"

lemma mid_calm_calm: "mid_calm s \<Longrightarrow> calm s"
  by (simp add: mid_calm_def calm_def tight_def)

text \<open>Inputs that obey a law of blocks, and bring no choke while requests are outstanding.\<close>

definition lawful_input :: "block_law \<Rightarrow> seed_downloader \<Rightarrow> download_input \<Rightarrow> bool" where
  "lawful_input Q s inp \<longleftrightarrow> (\<forall>m. inp = Received m \<longrightarrow> lawful Q m)"

definition calm_input :: "block_law \<Rightarrow> seed_downloader \<Rightarrow> download_input \<Rightarrow> bool" where
  "calm_input Q s inp \<longleftrightarrow> lawful_input Q s inp \<and> (inp = Received Choke \<longrightarrow> pending_blocks s = {})"

text \<open>What a step does to the pipeline.\<close>

definition step_ok :: "block_law \<Rightarrow> info \<Rightarrow> seed_downloader \<Rightarrow> task_pc \<Rightarrow> seed_downloader \<Rightarrow> bool" where
  "step_ok Q i s pc' s' \<longleftrightarrow> pc_pipe Q i pc' s' \<and>
     (leak s \<le> leak s' \<and> owned (own_bitfield s) \<subseteq> owned (own_bitfield s') \<and>
        (5 \<le> leak s \<longrightarrow> dom (pending_pieces s') \<subseteq> dom (pending_pieces s)) \<or>
      (\<exists>p. pc' = Ended (Panic p)))"

lemma step_okI:
  "pc_pipe Q i pc' s' \<Longrightarrow> leak s \<le> leak s' \<Longrightarrow> owned (own_bitfield s) \<subseteq> owned (own_bitfield s') \<Longrightarrow>
   (5 \<le> leak s \<Longrightarrow> dom (pending_pieces s') \<subseteq> dom (pending_pieces s)) \<Longrightarrow> step_ok Q i s pc' s'"
  by (simp add: step_ok_def)

text \<open>Asking for more blocks, from a state in which the invariant holds.\<close>

lemma request_next_pipe:
  assumes env: "link_up env" "order_ok env" and inv: "pipe_inv Q i s" and run: "request_next env s = (r, s')"
  shows "next_pc r = Ended (Panic ArithOverflow) \<and> \<not> mid_calm s \<or>
    pc_pipe Q i (next_pc r) s' \<and> leak s' = leak s \<and> same_rest s s' \<and>
      dom (pending_pieces s') = dom (pending_pieces s) \<and> (mid_calm s \<longrightarrow> pc_calm (next_pc r) s') \<and>
      (next_pc r = AtHead \<and> (choked_us s' \<or> 5 \<le> unat (inflight s')) \<or> next_pc r = AtPick)"
proof -
  obtain r1 s1 where more: "request_more env s = (r1, s1)" by (metis surj_pair)
  note mr = request_more_pipe [OF env inv, unfolded more]
  show ?thesis
  proof (cases "\<exists>b. r1 = Ok b")
    case False
    then have "r1 = Panic ArithOverflow" "\<not> mid_calm s"
      using mr by (auto simp: more_requested_def mid_calm_def)
    then show ?thesis using run more by (auto simp: request_next_def)
  next
    case True
    then obtain b where b: "r1 = Ok b" by blast
    then have s': "s' = s1" "next_pc r = (if b then AtPick else AtHead)"
      using run more by (auto simp: request_next_def bnd_def [of "request_more _"] split: if_splits)
    have all: "requested_all Q i s (Ok (), s1)" "dom (pending_pieces s1) = dom (pending_pieces s)"
      and pick: "b \<Longrightarrow> unat (inflight s1) < 5 \<and> (\<forall>p. partial s \<subseteq> {p} \<longrightarrow> partial s1 = {})"
      and full: "\<not> b \<Longrightarrow> choked_us s1 \<or> 5 \<le> unat (inflight s1)"
      using mr b by (auto simp: more_requested_def)
    then have s1: "pipe_inv Q i s1" "leak s1 = leak s" "same_rest s s1"
      by (simp_all add: requested_all_def)
    have "calm s1 \<and> \<not> choked_us s1" if "mid_calm s"
      using that all(1) s1 by (auto simp: mid_calm_def calm_def tight_def requested_all_def same_rest_def)
    then have "mid_calm s \<longrightarrow> pc_calm (next_pc r) s1"
      using s'(2) pick s1(2) by (auto simp: mid_calm_def calm_def tight_def)
    then show ?thesis using s' s1 all(2) pick full by (auto split: if_splits)
  qed
qed


text \<open>The points one by one: the lock at the head, an input, the mark, the channel, a new piece.\<close>

lemma head_step_pipe:
  assumes inv: "pipe_inv Q i s" and step: "task_step env inp (AtHead, s) = (pc', s')"
  shows "s' = s \<and> (pc' = AtSelect \<or> pc' = Ended (Ok ()))"
proof -
  have "bf_inv (own_bitfield s)" using inv by (simp add: pipe_inv_def)
  then obtain left where "remaining (own_bitfield s) = Ok left" using remaining_ring by blast
  then show ?thesis using step by (auto simp: task_step_def head_check_def split: if_splits)
qed

lemma next_step_pipe:
  assumes env: "link_up env" "order_ok env" and inv: "pipe_inv Q i s1" and run: "request_next env s1 = (r, s')"
    and s1: "leak s1 = leak s" "own_bitfield s1 = own_bitfield s" "dom (pending_pieces s1) \<subseteq> dom (pending_pieces s)"
  shows "step_ok Q i s (next_pc r) s'" and "mid_calm s1 \<Longrightarrow> pc_calm (next_pc r) s'"
    and "mid_calm s1 \<Longrightarrow> next_pc r \<noteq> Ended e"
proof -
  note next_ok = request_next_pipe [OF env inv run]
  then show "mid_calm s1 \<Longrightarrow> pc_calm (next_pc r) s'" and "mid_calm s1 \<Longrightarrow> next_pc r \<noteq> Ended e"
    by auto
  show "step_ok Q i s (next_pc r) s'"
    using next_ok
  proof (elim disjE conjE)
    assume "next_pc r = Ended (Panic ArithOverflow)"
    then show ?thesis by (simp add: step_ok_def)
  qed (use s1 in \<open>auto simp: same_rest_def intro!: step_okI\<close>)
qed

lemma piece_step_pipe:
  assumes env: "link_up env" "order_ok env" and inv: "pipe_inv Q i s"
    and law: "lawful Q (Piece k off block)" and step: "start_msg env (Piece k off block) s = (r, s')"
  shows "step_ok Q i s (next_pc r) s'" and "calm s \<Longrightarrow> pc_calm (next_pc r) s' \<and> next_pc r \<noteq> Ended e"
proof -
  let ?b = "\<lparr>blk_piece_index = k, blk_begin = off, blk_len = of_nat (length block)\<rparr> :: block_download"
  have "step_ok Q i s (next_pc r) s' \<and> (calm s \<longrightarrow> pc_calm (next_pc r) s' \<and> next_pc r \<noteq> Ended e)"
  proof (cases "?b \<in> pending_blocks s")
    case False
    then have "r = Err (Anyhow ''received unrequested block'')" "s' = s"
      using step by (simp_all add: start_msg_def store_block_def Let_def)
    then show ?thesis using inv by (simp add: step_ok_def)
  next
    case mem: True
    then obtain dl where dl: "pending_pieces s k = Some dl" using inv by (force simp: pipe_inv_def)
    have short: "length block < 2 ^ 32" "Q k (unat off) block" using law by (simp_all add: lawful_def)
    note acc = block_accepted [OF inv dl mem short]
    let ?s = "accept_block k off block dl s" and ?dl = "after_block off block dl"
    have fields: "own_bitfield ?s = own_bitfield s" "choked_us ?s = choked_us s"
      "pending_pieces ?s = (pending_pieces s)(k \<mapsto> ?dl)"
      by (simp_all add: accept_block_def)
    have dom: "dom (pending_pieces ?s) \<subseteq> dom (pending_pieces s)" using dl fields(3) by auto
    have mid: "mid_calm ?s" if "calm s"
    proof -
      have "\<not> choked_us s" using that mem by (auto simp: calm_def)
      then show ?thesis using that acc(4-7) fields(2) by (auto simp: mid_calm_def calm_def tight_def)
    qed
    show ?thesis
    proof (cases "remaining_blocks ?dl = 0")
      case True
      then have run: "r = Ok (AtMark k)" "s' = ?s"
        using step acc(9) by (auto simp: start_msg_def bnd_def [of "store_block _ _ _"])
      have "unat k < piece_count i" using inv dl by (auto simp: pipe_inv_def piece_pipe_def)
      then have "mark_ready Q i k ?s"
        using acc(2,3) [OF True] fields(3) by (auto simp: mark_ready_def after_block_def)
      then show ?thesis
        using run mid acc(6) fields(1) dom by (auto intro: step_okI)
    next
      case False
      then have "request_next env ?s = (r, s')"
        using step acc(9) by (simp add: start_msg_def bnd_def [of "store_block _ _ _"])
      from next_step_pipe [OF env acc(1) [OF False] this acc(6) fields(1) dom] show ?thesis
        using mid by blast
    qed
  qed
  then show "step_ok Q i s (next_pc r) s'" "calm s \<Longrightarrow> pc_calm (next_pc r) s' \<and> next_pc r \<noteq> Ended e"
    by simp_all
qed

lemma msg_step_pipe:
  assumes env: "link_up env" "order_ok env" and inv: "pipe_inv Q i s"
    and law: "lawful Q m" and step: "start_msg env m s = (r, s')"
  shows "step_ok Q i s (next_pc r) s'"
    and "calm s \<Longrightarrow> (m = Choke \<Longrightarrow> pending_blocks s = {}) \<Longrightarrow> pc_calm (next_pc r) s' \<and>
      (\<forall>e. next_pc r = Ended e \<longrightarrow> e = Panic TodoReached \<and> (\<exists>a b c. m = Request a b c \<or> m = Cancel a b c))"
proof -
  have "step_ok Q i s (next_pc r) s' \<and> (calm s \<and> (m = Choke \<longrightarrow> pending_blocks s = {}) \<longrightarrow> pc_calm (next_pc r) s' \<and>
      (\<forall>e. next_pc r = Ended e \<longrightarrow> e = Panic TodoReached \<and> (\<exists>a b c. m = Request a b c \<or> m = Cancel a b c)))"
  proof (cases m)
    case Choke
    then have run: "r = Ok AtHead" "s' = choked_state s"
      using step choke_eq [OF env(2) inv] by (auto simp: start_msg_def)
    have "dom (pending_pieces (choked_state s)) = dom (pending_pieces s)"
      "own_bitfield (choked_state s) = own_bitfield s"
      by (auto simp: choked_state_def)
    then show ?thesis
      using run choked_state_pipe [OF inv] Choke by (auto simp: step_ok_def calm_def)
  next
    case Unchoke
    let ?s = "s\<lparr>choked_us := False\<rparr>"
    show ?thesis
    proof (cases "choked_us s")
      case False
      then show ?thesis using step Unchoke inv by (auto simp: start_msg_def step_ok_def)
    next
      case True
      then have run: "request_next env ?s = (r, s')" using step Unchoke by (simp add: start_msg_def)
      have inv': "pipe_inv Q i ?s" using inv by (simp add: pipe_inv_def)
      have same: "leak ?s = leak s" "partial ?s = partial s" by (simp_all add: leak_def partial_def)
      have "mid_calm ?s" if "calm s"
        using that True same calm_inflight [OF inv that] by (auto simp: mid_calm_def calm_def tight_def)
      then show ?thesis
        using next_step_pipe [OF env inv' run same(1)] Unchoke by auto
    qed
  next
    case (Piece k off block)
    then show ?thesis using piece_step_pipe [OF env inv law [unfolded Piece]] step by auto
  qed (use step inv in \<open>auto simp: start_msg_def handle_msg_def step_ok_def\<close>)
  then show "step_ok Q i s (next_pc r) s'"
    "calm s \<Longrightarrow> (m = Choke \<Longrightarrow> pending_blocks s = {}) \<Longrightarrow> pc_calm (next_pc r) s' \<and>
      (\<forall>e. next_pc r = Ended e \<longrightarrow> e = Panic TodoReached \<and> (\<exists>a b c. m = Request a b c \<or> m = Cancel a b c))"
    by simp_all
qed

text \<open>The mark: the piece is marked whatever its bytes are; only tested bytes go on.\<close>

lemma mark_step_run:
  assumes ready: "mark_ready Q i k s" and dl: "pending_pieces s k = Some dl"
    and run: "mark_piece env k s = (r, s')"
  defines "s2 \<equiv> s\<lparr>own_bitfield := snd (set_piece k (own_bitfield s)), pending_pieces := (pending_pieces s)(k := None)\<rparr>"
  shows "r = Panic OutOfBounds \<and> piece_count i mod 8 = 0 \<and> owned (own_bitfield s') = {..<piece_count i} \<or>
      s' = s2 \<and> r = (if validate_piece env (dl_bytes dl) (piece_hash dl)
        then Ok (PieceMsg k (dl_piece_length dl) (dl_bytes dl)) else Err (Anyhow ''piece validation failed''))"
    and "owned (own_bitfield s2) = insert (unat k) (owned (own_bitfield s))"
    and "pipe_inv Q i s2" and "leak s2 = leak s" and "partial s2 \<subseteq> partial s"
proof -
  let ?s = "s\<lparr>pending_pieces := (pending_pieces s)(k := None)\<rparr>"
  have inv: "pipe_inv Q i ?s" and k: "unat k < piece_count i" using ready by (simp_all add: mark_ready_def)
  then have bf: "bf_inv (own_bitfield s)" "unat k < total_pieces (own_bitfield s)"
    "total_pieces (own_bitfield s) = piece_count i"
    by (simp_all add: pipe_inv_def)
  obtain ro b where set: "set_piece k (own_bitfield s) = (ro, b)" by (metis surj_pair)
  note b = set_piece_owned [OF bf(1,2) set]
  show "owned (own_bitfield s2) = insert (unat k) (owned (own_bitfield s))"
    using b(2) set by (simp add: s2_def)
  show "pipe_inv Q i s2"
    using inv b(1,3) bf(3) set by (simp add: pipe_inv_def s2_def)
  show "leak s2 = leak s" by (simp add: leak_def s2_def)
  show "partial s2 \<subseteq> partial s" by (auto simp: partial_def s2_def split: if_splits)
  have out: "ro = (if unat k \<notin> owned (own_bitfield s) \<and>
        insert (unat k) (owned (own_bitfield s)) = {..<piece_count i} \<and> piece_count i mod 8 = 0
      then Panic OutOfBounds else Ok ())"
    using set_piece_outcome [OF bf(1,2)] set bf(3) by simp
  show "r = Panic OutOfBounds \<and> piece_count i mod 8 = 0 \<and> owned (own_bitfield s') = {..<piece_count i} \<or>
      s' = s2 \<and> r = (if validate_piece env (dl_bytes dl) (piece_hash dl)
        then Ok (PieceMsg k (dl_piece_length dl) (dl_bytes dl)) else Err (Anyhow ''piece validation failed''))"
  proof (cases "ro = Ok ()")
    case True
    then show ?thesis
      using run set dl by (auto simp: mark_piece_def with_bitfield_def s2_def split: if_splits)
  next
    case False
    then have ro: "ro = Panic OutOfBounds" "piece_count i mod 8 = 0" "owned b = {..<piece_count i}"
      using out b(2) by (auto split: if_splits)
    then have "r = Panic OutOfBounds" "s' = s\<lparr>own_bitfield := b\<rparr>"
      using run set by (simp_all add: mark_piece_def with_bitfield_def)
    with ro show ?thesis by simp
  qed
qed

lemma mark_step_pipe:
  assumes ready: "mark_ready Q i k s" and step: "task_step env inp (AtMark k, s) = (pc', s')"
  shows "step_ok Q i s pc' s'"
    and "mid_calm s \<Longrightarrow> pc_calm pc' s' \<and> (\<forall>e. pc' = Ended e \<longrightarrow>
      e = Panic OutOfBounds \<and> piece_count i mod 8 = 0 \<and> owned (own_bitfield s') = {..<piece_count i})"
proof -
  obtain r s1 where run: "mark_piece env k s = (r, s1)" by (metis surj_pair)
  then have pc': "s' = s1" "pc' = next_pc (case r of Ok m \<Rightarrow> Ok (AtSend m) | Err e \<Rightarrow> Err e | Panic p \<Rightarrow> Panic p | Hang \<Rightarrow> Hang)"
    using step by (cases r; simp add: task_step_def; auto)+
  obtain dl where dl: "pending_pieces s k = Some dl" "piece_dl_ok i k dl"
    "\<forall>n < num_blocks (unat (dl_piece_length dl)). Q k (n * 16384) (segment (unat (dl_piece_length dl)) n (dl_bytes dl))"
    using ready by (auto simp: mark_ready_def)
  let ?s2 = "s\<lparr>own_bitfield := snd (set_piece k (own_bitfield s)), pending_pieces := (pending_pieces s)(k := None)\<rparr>"
  note m = mark_step_run [OF ready dl(1) run]
  have "step_ok Q i s pc' s' \<and> (mid_calm s \<longrightarrow> pc_calm pc' s' \<and> (\<forall>e. pc' = Ended e \<longrightarrow>
      e = Panic OutOfBounds \<and> piece_count i mod 8 = 0 \<and> owned (own_bitfield s') = {..<piece_count i}))"
    using m(1)
  proof (elim disjE conjE)
    assume "r = Panic OutOfBounds" "piece_count i mod 8 = 0" "owned (own_bitfield s1) = {..<piece_count i}"
    then show ?thesis using pc' by (simp add: step_ok_def)
  next
    assume s1: "s1 = ?s2" and r: "r = (if validate_piece env (dl_bytes dl) (piece_hash dl)
        then Ok (PieceMsg k (dl_piece_length dl) (dl_bytes dl)) else Err (Anyhow ''piece validation failed''))"
    have dom: "dom (pending_pieces s1) \<subseteq> dom (pending_pieces s)" using s1 by auto
    have "mid_calm s1" if "mid_calm s"
      using that m(4,5) s1 by (auto simp: mid_calm_def)
    then have "mid_calm s \<longrightarrow> pc_calm pc' s1" "\<forall>e. pc' \<noteq> Ended e"
      using pc' r mid_calm_calm by auto
    moreover have "step_ok Q i s pc' s1"
      using pc' r dl(3) m(2-4) s1 dom by (intro step_okI) auto
    ultimately show ?thesis using pc'(1) by simp
  qed
  then show "step_ok Q i s pc' s'"
    "mid_calm s \<Longrightarrow> pc_calm pc' s' \<and> (\<forall>e. pc' = Ended e \<longrightarrow>
      e = Panic OutOfBounds \<and> piece_count i mod 8 = 0 \<and> owned (own_bitfield s') = {..<piece_count i})"
    by simp_all
qed

lemma send_step_pipe:
  assumes env: "link_up env" "order_ok env" and inv: "pipe_inv Q i s"
    and step: "task_step env inp (AtSend m, s) = (pc', s')"
  shows "step_ok Q i s pc' s'" and "mid_calm s \<Longrightarrow> pc_calm pc' s' \<and> pc' \<noteq> Ended e"
proof -
  have "step_ok Q i s pc' s' \<and> (mid_calm s \<longrightarrow> pc_calm pc' s' \<and> pc' \<noteq> Ended e)"
  proof (cases "env_tx_ok env (tx_sent s) m")
    case False
    then have "pc' = AtHead" "s' = s" using step by (simp_all add: task_step_def send_tx_def)
    then show ?thesis using inv mid_calm_calm by (auto intro: step_okI)
  next
    case True
    let ?s = "s\<lparr>tx_sent := tx_sent s @ [m]\<rparr>"
    obtain r s1 where run: "request_next env ?s = (r, s1)" by (metis surj_pair)
    then have pc': "pc' = next_pc r" "s1 = s'" using step True by (simp_all add: task_step_def send_tx_def)
    have inv': "pipe_inv Q i ?s" using inv by (simp add: pipe_inv_def)
    have "mid_calm ?s = mid_calm s" by (simp add: mid_calm_def leak_def partial_def)
    then show ?thesis
      using next_step_pipe [OF env inv' run, of s] pc' by (auto simp: leak_def)
  qed
  then show "step_ok Q i s pc' s'" "mid_calm s \<Longrightarrow> pc_calm pc' s' \<and> pc' \<noteq> Ended e" by simp_all
qed

lemma pick_step_pipe:
  assumes env: "link_up env" "wf_download i" and inv: "pipe_inv Q i s" and n: "unat (inflight s) < 5"
    and step: "task_step env inp (AtPick, s) = (pc', s')"
  shows "pc' = AtHead" and "step_ok Q i s pc' s'" and "mid_calm s \<Longrightarrow> partial s = {} \<Longrightarrow> calm s'"
    and "same_rest s s'" and "after_pick i s s'"
proof -
  obtain s1 where s1: "bnd (with_bitfield pick_piece) (begin_piece env) s = (Ok (), s1)" "pipe_inv Q i s1"
    "leak s1 = leak s" "same_rest s s1" "dom (pending_pieces s) \<subseteq> dom (pending_pieces s1)"
    "unat (inflight s1) \<le> 5" "partial s = {} \<longrightarrow> (\<exists>p. partial s1 \<subseteq> {p})" "after_pick i s s1"
    by (rule pick_begin_pipe [OF env inv n])
  then have run: "pc' = AtHead" "s' = s1" using step by (simp_all add: task_step_def)
  show "pc' = AtHead" "same_rest s s'" "after_pick i s s'" using run s1 by simp_all
  have "\<not> 5 \<le> leak s" using n by (simp add: leak_def)
  then show "step_ok Q i s pc' s'" using run s1 by (auto simp: same_rest_def intro: step_okI)
  show "calm s'" if "mid_calm s" "partial s = {}"
    using that run(2) s1(3,4,6,7) by (auto simp: mid_calm_def calm_def tight_def same_rest_def)
qed

lemma disconnect_step:
  assumes "task_step env inp (AtDisconnect, s) = (pc', s')"
  shows "pc' = Ended (Ok ())" and "s' = s \<or> s' = s\<lparr>tx_sent := tx_sent s @ [Disconnect (sd_addr s)]\<rparr>"
  using assms by (auto simp: task_step_def bnd_def ignore_err_def send_tx_def split: if_splits)

text \<open>All points together.\<close>

lemma task_step_pipe:
  assumes env: "link_up env" "order_ok env" "wf_download i" and inv: "pc_pipe Q i pc s"
    and live: "\<forall>r. pc \<noteq> Ended r" and law: "pc = AtSelect \<Longrightarrow> lawful_input Q s inp"
    and step: "task_step env inp (pc, s) = (pc', s')"
  shows "step_ok Q i s pc' s'"
    and "pc_calm pc s \<Longrightarrow> (pc = AtSelect \<Longrightarrow> calm_input Q s inp) \<Longrightarrow> pc_calm pc' s' \<and>
      (\<forall>e. pc' = Ended e \<longrightarrow> e = Ok () \<or>
         e = Panic OutOfBounds \<and> piece_count i mod 8 = 0 \<and> owned (own_bitfield s') = {..<piece_count i} \<or>
         e = Panic TodoReached \<and> (\<exists>a b c. inp = Received (Request a b c) \<or> inp = Received (Cancel a b c)))"
proof -
  have "step_ok Q i s pc' s' \<and> (pc_calm pc s \<and> (pc = AtSelect \<longrightarrow> calm_input Q s inp) \<longrightarrow> pc_calm pc' s' \<and>
      (\<forall>e. pc' = Ended e \<longrightarrow> e = Ok () \<or>
         e = Panic OutOfBounds \<and> piece_count i mod 8 = 0 \<and> owned (own_bitfield s') = {..<piece_count i} \<or>
         e = Panic TodoReached \<and> (\<exists>a b c. inp = Received (Request a b c) \<or> inp = Received (Cancel a b c))))"
  proof (cases pc)
    case AtHead
    then show ?thesis
      using inv head_step_pipe [of Q i s env inp pc' s'] step by (auto intro: step_okI)
  next
    case (AtMark k)
    then show ?thesis using inv mark_step_pipe [of Q i k s env inp pc' s'] step by auto
  next
    case (AtSend m)
    then show ?thesis using inv send_step_pipe [OF env(1,2), of Q i s inp m pc' s'] step by auto
  next
    case AtPick
    then show ?thesis using inv pick_step_pipe [OF env(1,3), of Q s inp pc' s'] step by auto
  next
    case AtDisconnect
    then show ?thesis
      using inv disconnect_step [of env inp s pc' s'] step
      by (auto intro!: step_okI simp: pipe_inv_def leak_def)
  next
    case AtSelect
    note inv = inv [unfolded AtSelect, simplified]
    show ?thesis
    proof (cases inp)
      case KeepAliveTimeout
      then have "pc' = AtHead" "s' = s \<or> s' = s\<lparr>stream_sent := stream_sent s @ [KeepAlive]\<rparr>"
        using step AtSelect by (auto simp: task_step_def select_input_def bnd_def ignore_err_def send_message_def
            split: if_splits)
      moreover have "calm (s\<lparr>stream_sent := x\<rparr>) = calm s" for x
        by (simp add: calm_def tight_def partial_def leak_def)
      moreover have "pipe_inv Q i (s\<lparr>stream_sent := stream_sent s @ [KeepAlive]\<rparr>)"
        using inv by (simp add: pipe_inv_def sent_ok_def)
      ultimately show ?thesis
        using inv AtSelect by (auto simp: leak_def intro!: step_okI)
    next
      case (Received m)
      obtain r s1 where run: "start_msg env m s = (r, s1)" by (metis surj_pair)
      then have pc': "pc' = next_pc r" "s1 = s'"
        using step AtSelect Received by (simp_all add: task_step_def select_input_def)
      have "lawful Q m" using law AtSelect Received by (simp add: lawful_input_def)
      from msg_step_pipe [OF env(1,2) inv this run] show ?thesis
        using pc' AtSelect Received by (auto simp: calm_input_def)
    qed (use inv step AtSelect in \<open>auto simp: task_step_def select_input_def intro!: step_okI\<close>)
  qed (use live in simp)
  then show "step_ok Q i s pc' s'"
    "pc_calm pc s \<Longrightarrow> (pc = AtSelect \<Longrightarrow> calm_input Q s inp) \<Longrightarrow> pc_calm pc' s' \<and>
      (\<forall>e. pc' = Ended e \<longrightarrow> e = Ok () \<or>
         e = Panic OutOfBounds \<and> piece_count i mod 8 = 0 \<and> owned (own_bitfield s') = {..<piece_count i} \<or>
         e = Panic TodoReached \<and> (\<exists>a b c. inp = Received (Request a b c) \<or> inp = Received (Cancel a b c)))"
    by blast+
qed

section \<open>Steps off the lock\<close>

text \<open>A task changes the bitfield only at the points at which it waits for the lock.\<close>

abbreviation own_is :: "bitfield \<Rightarrow> seed_downloader \<Rightarrow> bool" where
  "own_is b \<equiv> \<lambda>s. own_bitfield s = b"

named_theorems keeps_own \<open>operations of the downloader that leave the bitfield as it is\<close>

lemma send_message_own [keeps_own]: "keeps (own_is b) (send_message env m)"
  and send_tx_own [keeps_own]: "keeps (own_is b) (send_tx env x)"
  by (simp_all add: keeps_def send_message_def send_tx_def)

lemma request_blocks_own: "request_blocks env k (dl, s) = (r, (dl', s')) \<Longrightarrow> own_bitfield s' = own_bitfield s"
  using request_blocks_frame [of dl s env k] by (simp add: same_frame_def)

lemma continue_pieces_own [keeps_own]: "keeps (own_is b) (continue_pieces env ks)"
proof (induction ks)
  case (Cons k ks)
  have "keeps (own_is b) (continue_piece env k)"
    by (auto simp: keeps_def continue_piece_def bnd_def request_blocks_own split: option.splits prod.splits)
  with Cons show ?case by (simp add: keeps)
qed (simp add: keeps)

lemma request_more_own [keeps_own]: "keeps (own_is b) (request_more env)"
  unfolding request_more_def by (auto intro!: keeps keeps_own)

lemma reset_pieces_own [keeps_own]: "keeps (own_is b) (reset_pieces ks)"
  by (induction ks) (auto simp: keeps keeps_def split: option.splits res.splits)

lemma choke_own: "keeps (own_is b) (handle_msg env Choke)"
  by (auto simp: handle_msg_def intro!: keeps keeps_own)

lemma store_block_own [keeps_own]: "keeps (own_is b) (store_block k begin block)"
  unfolding store_block_def Let_def by (auto intro!: keeps split: option.splits)

lemma unlocked_step_own:
  assumes "\<not> wants_lock pc" and "task_step env inp (pc, s) = (pc', s')"
  shows "own_bitfield s' = own_bitfield s"
proof -
  have next_own: "keeps (own_is (own_bitfield s)) (request_next env)"
    by (rule request_next_keeps [OF request_more_own])
  have sel: "keeps (own_is (own_bitfield s)) (select_input env inp)"
    by (rule select_input_keeps [OF choke_own store_block_own request_more_own send_message_own]) (simp add: keeps)
  have send: "keeps (own_is (own_bitfield s)) (bnd (send_tx env m) (\<lambda>_. request_next env))" for m
    by (intro keeps keeps_own next_own)
  show ?thesis
  proof (cases "pc = AtDisconnect")
    case True
    then show ?thesis using disconnect_step(2) [of env inp s pc' s'] assms(2) by auto
  next
    case False
    then have "own_bitfield (snd (pc_prog env inp pc s)) = own_bitfield s"
      using assms(1) sel send by (cases pc) (auto simp: keeps_def)
    then show ?thesis using assms(2) by (auto simp: task_step_def split: prod.splits)
  qed
qed

end
