(* ===== verification/SeedRun.thy ===== *)
theory SeedRun
  imports Tasks
begin

text \<open>
  Runs of the task that downloads from one seed, and what holds of all of them. The other tasks
  may change the shared bitfield between any two steps of the task.
\<close>

section \<open>What holds at every point of a run\<close>

lemma new_downloader_pipe:
  "bf_inv b \<Longrightarrow> total_pieces b = piece_count i \<Longrightarrow> pipe_inv Q i (new_downloader i b a)"
  by (simp add: pipe_inv_def new_downloader_def)

lemma new_downloader_calm: "calm (new_downloader i b a)" "sent_law Q (new_downloader i b a)"
  by (simp_all add: new_downloader_def calm_def tight_def partial_def leak_def sent_law_def)

lemma calm_bitfield [simp]: "calm (s\<lparr>own_bitfield := b\<rparr>) = calm s"
  by (simp add: calm_def tight_def partial_def leak_def)

lemma sent_law_bitfield [simp]: "sent_law Q (s\<lparr>own_bitfield := b\<rparr>) = sent_law Q s"
  by (simp add: sent_law_def)

lemma pipe_inv_bitfield:
  "pipe_inv Q i s \<Longrightarrow> bf_inv b \<Longrightarrow> total_pieces b = piece_count i \<Longrightarrow> pipe_inv Q i (s\<lparr>own_bitfield := b\<rparr>)"
  by (simp add: pipe_inv_def)

lemma pc_pipe_bitfield:
  "pc_pipe Q i pc s \<Longrightarrow> bf_inv b \<Longrightarrow> total_pieces b = piece_count i \<Longrightarrow> pc_pipe Q i pc (s\<lparr>own_bitfield := b\<rparr>)"
  by (cases pc) (auto simp: mark_ready_def pipe_inv_def)

lemma pc_calm_bitfield [simp]: "pc_calm pc (s\<lparr>own_bitfield := b\<rparr>) = pc_calm pc s"
  by (cases pc) (simp_all add: mid_calm_def partial_def leak_def)

lemma task_step_ended: "task_step env inp (Ended r, s) = (Ended r, s)"
  by (simp add: task_step_def)

lemma step_sent_law:
  assumes "pc_pipe Q i pc s" and "sent_law Q s" and "task_step env inp (pc, s) = (pc', s')"
  shows "sent_law Q s'"
  using task_step_sent [OF assms(3)] assms(1,2) by (auto simp: sent_law_msgs)

lemma task_reach_pipe:
  assumes env: "link_up env" "order_ok env" "wf_download i"
  shows "task_reach env (lawful_input Q) i a pc s \<Longrightarrow> pc_pipe Q i pc s \<and> sent_law Q s"
proof (induction rule: task_reach.induct)
  case (start b)
  then show ?case by (simp add: new_downloader_pipe new_downloader_calm)
next
  case (step pc s inp pc' s')
  show ?case
  proof (cases "\<exists>r. pc = Ended r")
    case True
    then show ?thesis using step task_step_ended by auto
  next
    case False
    then show ?thesis
      using step task_step_pipe(1) [OF env, of Q pc s inp pc' s'] step_sent_law [of Q i pc s env inp pc' s']
      by (simp add: step_ok_def)
  qed
next
  case (others pc s b)
  then show ?case using pc_pipe_bitfield by simp
qed

lemma task_reach_calm:
  assumes env: "link_up env" "order_ok env" "wf_download i"
  shows "task_reach env (calm_input Q) i a pc s \<Longrightarrow> pc_pipe Q i pc s \<and> pc_calm pc s"
proof (induction rule: task_reach.induct)
  case (start b)
  then show ?case by (simp add: new_downloader_pipe new_downloader_calm)
next
  case (step pc s inp pc' s')
  show ?case
  proof (cases "\<exists>r. pc = Ended r")
    case True
    then show ?thesis using step task_step_ended by auto
  next
    case False
    have law: "pc = AtSelect \<Longrightarrow> lawful_input Q s inp" using step(2) by (simp add: calm_input_def)
    then show ?thesis
      using False step task_step_pipe [OF env, of Q pc s inp pc' s'] by (simp add: step_ok_def)
  qed
next
  case (others pc s b)
  then show ?case using pc_pipe_bitfield by simp
qed

text \<open>A run without others, from one head of the loop to the next.\<close>

lemma task_reach_run_on:
  assumes "\<And>s. ok s inp"
  shows "task_reach env ok i a pc s \<Longrightarrow> run_on env inp n (pc, s) = (pc', s') \<Longrightarrow> task_reach env ok i a pc' s'"
proof (induction n arbitrary: pc s)
  case (Suc n)
  obtain pc1 s1 where st: "task_step env inp (pc, s) = (pc1, s1)" by (metis surj_pair)
  then have "task_reach env ok i a pc1 s1" using task_reach.step [OF Suc.prems(1) assms] by blast
  then show ?case using Suc st by (cases pc) auto
qed simp

lemma task_reach_round:
  assumes "\<And>s. ok s inp" and "task_reach env ok i a AtHead s" and "download_round env inp s = (Ok False, s')"
  shows "task_reach env ok i a AtHead s'"
proof -
  obtain pc1 s1 where st: "task_step env inp (AtHead, s) = (pc1, s1)" by (metis surj_pair)
  then have "task_reach env ok i a pc1 s1" using task_reach.step [OF assms(2) assms(1)] by blast
  moreover have "run_on env inp 4 (pc1, s1) = (AtHead, s')"
    using uninterrupted_round [of env inp s] assms(3) st by (simp add: round_end_def)
  ultimately show ?thesis by (rule task_reach_run_on [where ok = ok, OF assms(1)])
qed

lemma task_reach_select:
  assumes "task_reach env ok i a AtHead s" and "remaining (own_bitfield s) = Ok left" and "left \<noteq> 0"
  shows "task_reach env ok i a AtSelect s"
  using task_reach.step [OF assms(1), of KeepAliveTimeout AtSelect s] assms(2,3)
  by (simp add: task_step_def head_check_def)

lemma pc_pipe_settled: "pc_pipe Q i pc s \<Longrightarrow> settled pc \<Longrightarrow> pipe_inv Q i s"
  by (cases pc) simp_all

lemma pc_calm_inflight:
  assumes "pc_pipe Q i pc s" and "pc_calm pc s" and "\<forall>r. pc \<noteq> Ended r"
  shows "unat (inflight s) = card (pending_blocks s) \<and> unat (inflight s) \<le> 5"
proof -
  have "card (pending_blocks s) \<le> unat (inflight s)"
    using assms(1,3) by (cases pc) (auto simp: pipe_inv_def mark_ready_def)
  moreover have "leak s = 0 \<and> unat (inflight s) \<le> 5"
    using assms(2,3) by (cases pc) (auto simp: mid_calm_def calm_def tight_def)
  ultimately show ?thesis by (simp add: leak_def)
qed

section \<open>A small run\<close>

text \<open>
  One piece of three bytes, a hash function that is constant, a link and a channel that always
  work: the run of \<open>Unchoke\<close> followed by the block. It shows the hypotheses of the properties
  below to be satisfiable.
\<close>

definition demo_env_with :: "u8 \<Rightarrow> env" where
  "demo_env_with h = \<lparr>env_send_ok = (\<lambda>sent m. True), env_tx_ok = (\<lambda>sent m. True),
     env_iter_order = (\<lambda>m. sorted_list_of_set (dom m)), env_sha1 = (\<lambda>bs. replicate 20 h)\<rparr>"

abbreviation demo_env :: env where
  "demo_env \<equiv> demo_env_with 7"

definition demo_info :: info where
  "demo_info = \<lparr>info_name = ''demo'', info_piece_length = 3, info_pieces = [replicate 20 7],
     info_download_type = SingleFile 3\<rparr>"

definition demo_start :: seed_downloader where
  "demo_start = new_downloader demo_info (zero_pieces 1) (0, 0)"

definition demo_dl :: piece_download where
  "demo_dl = \<lparr>piece_hash = replicate 20 7, dl_piece_length = 3, requested = 3, remaining_blocks = 1,
     dl_bytes = [0, 0, 0]\<rparr>"

definition demo_asked :: seed_downloader where
  "demo_asked = demo_start\<lparr>choked_us := False, stream_sent := [Request 0 0 3],
     pending_pieces := [0 \<mapsto> demo_dl],
     pending_blocks := {\<lparr>blk_piece_index = 0, blk_begin = 0, blk_len = 3\<rparr>}, inflight := 1\<rparr>"

definition demo_done :: seed_downloader where
  "demo_done = demo_start\<lparr>choked_us := False, stream_sent := [Request 0 0 3],
     tx_sent := [PieceMsg 0 3 [1, 2, 3]],
     own_bitfield := (zero_pieces 1)\<lparr>piece_ownership := [128], confirmed := 1\<rparr>\<rparr>"

lemma demo_env_ok: "link_up (demo_env_with h)" "order_ok (demo_env_with h)"
  by (auto simp: link_up_def order_ok_def demo_env_with_def)

lemma demo_info_ok: "wf_download demo_info" "piece_count demo_info = 1"
  by (simp_all add: wf_download_def wf_info_def piece_count_def demo_info_def num_blocks_def)

lemma demo_zero: "zero_pieces 1 = \<lparr>piece_ownership = [0], total_pieces = 1, cur = 0, confirmed = 0\<rparr>"
  by (simp add: zero_pieces_def)

lemma demo_pick: "pick_piece (zero_pieces 1) = (Ok (Some 0), zero_pieces 1)"
  by (simp add: demo_zero pick_piece_def pick_loop.simps has_piece_def piece_bucket_offset_def Let_def)

lemma demo_set: "set_piece 0 (zero_pieces 1) = (Ok (), (zero_pieces 1)\<lparr>piece_ownership := [128], confirmed := 1\<rparr>)"
  by (simp add: demo_zero set_piece_def piece_bucket_offset_def Let_def advance_confirmed.simps has_piece_def)

lemma demo_request:
  "request_blocks (demo_env_with h) 0 (demo_dl\<lparr>requested := 0\<rparr>, demo_start\<lparr>choked_us := False\<rparr>) =
     (Ok (), (demo_dl, demo_asked\<lparr>pending_pieces := Map.empty\<rparr>))"
  using request_blocks_eq [OF demo_env_ok(1), where dl = "demo_dl\<lparr>requested := 0\<rparr>" and j = 0 and k = 0
      and len = 3 and s = "demo_start\<lparr>choked_us := False\<rparr>"]
  by (simp add: demo_dl_def demo_start_def demo_asked_def new_downloader_def num_blocks_def burst_def
      after_requests_def block_at_def request_at_def block_len_at_def block_pos_def)

lemma request_pieces_first:
  assumes "\<not> choked_us s" and "env_iter_order env (pending_pieces s) = []"
    and "inflight s < max_inflight_per_peer"
    and "pick_piece (own_bitfield s) = (Ok (Some k), b)" and "pending_pieces s k = None"
  shows "request_pieces env s = start_piece env k (s\<lparr>own_bitfield := b\<rparr>)"
  using assms by (simp add: request_pieces_unfold with_bitfield_def begin_piece_def)

lemma start_piece_eq:
  assumes "get_piece_length (sd_info s) k = Ok len" and "unat len \<le> 65535 * 16384"
    and "unat k < length (info_pieces (sd_info s))"
    and "request_blocks env k (start_dl (sd_info s) k len, s) = (Ok (), (dl', s'))"
    and "pending_pieces s' k = None"
  shows "start_piece env k s = (Ok (), s'\<lparr>pending_pieces := (pending_pieces s')(k \<mapsto> dl')\<rparr>)"
  using assms num_blocks_word(1) [OF refl assms(2)] by (simp add: start_piece_def start_dl_def)

lemma demo_unchoke: "handle_msg (demo_env_with h) Unchoke demo_start = (Ok (), demo_asked)"
proof -
  let ?s = "demo_start\<lparr>choked_us := False\<rparr>"
  have len: "get_piece_length demo_info 0 = Ok 3" by (simp add: demo_info_def get_piece_length_eq piece_size_def)
  have new: "start_dl demo_info 0 3 = demo_dl\<lparr>requested := 0\<rparr>"
    by (simp add: start_dl_def demo_info_def demo_dl_def block_size_eq) (simp add: numeral_eq_Suc)
  have fields: "sd_info ?s = demo_info" "own_bitfield ?s = zero_pieces 1" "pending_pieces ?s = Map.empty"
    "inflight ?s = 0" "\<not> choked_us ?s" "choked_us demo_start"
    by (simp_all add: demo_start_def new_downloader_def)
  have "handle_msg (demo_env_with h) Unchoke demo_start = request_pieces (demo_env_with h) ?s"
    using fields by (simp add: handle_msg_def)
  also have "\<dots> = start_piece (demo_env_with h) 0 (?s\<lparr>own_bitfield := zero_pieces 1\<rparr>)"
    by (rule request_pieces_first)
      (simp_all add: fields demo_pick demo_env_with_def max_inflight_per_peer_def del: demo_zero)
  also have "?s\<lparr>own_bitfield := zero_pieces 1\<rparr> = ?s" by (simp add: demo_start_def new_downloader_def)
  also have "start_piece (demo_env_with h) 0 ?s = (Ok (), demo_asked)"
    using start_piece_eq [of ?s 0 3 "demo_env_with h" demo_dl "demo_asked\<lparr>pending_pieces := Map.empty\<rparr>"]
    by (simp add: fields len new demo_request) (simp add: demo_info_def demo_asked_def)
  finally show ?thesis .
qed

lemma demo_piece: "handle_msg demo_env (Piece 0 0 [1, 2, 3]) demo_asked = (Ok (), demo_done)"
proof -
  let ?dl = "demo_dl\<lparr>remaining_blocks := 0, dl_bytes := [1, 2, 3]\<rparr>"
  let ?s = "demo_asked\<lparr>pending_blocks := {}, inflight := 0, pending_pieces := [0 \<mapsto> ?dl]\<rparr>"
  have done_fields: "\<not> choked_us demo_done" "pending_pieces demo_done = Map.empty" "inflight demo_done = 0"
    "own_bitfield demo_done = (zero_pieces 1)\<lparr>piece_ownership := [128], confirmed := 1\<rparr>"
    by (simp_all add: demo_done_def demo_start_def new_downloader_def)
  have "own_bitfield ?s = zero_pieces 1" "pending_pieces ?s 0 = Some ?dl"
    "validate_piece demo_env (dl_bytes ?dl) (piece_hash ?dl)"
    by (simp_all add: demo_asked_def demo_start_def new_downloader_def validate_piece_def demo_env_with_def demo_dl_def)
  then have "finish_piece demo_env 0 ?s = (Ok (), demo_done)"
    using mark_piece_Ok [of 0 ?s _ ?dl demo_env] demo_set
    by (simp add: finish_piece_def send_tx_def)
      (simp add: demo_asked_def demo_done_def demo_start_def new_downloader_def demo_env_with_def demo_dl_def)
  moreover have "store_block 0 0 [1, 2, 3] demo_asked = (Ok True, ?s)"
    by (simp add: store_block_def Let_def splice_vec_def sub_chk_def)
      (simp add: demo_asked_def demo_start_def new_downloader_def demo_dl_def)
  then have "handle_msg demo_env (Piece 0 0 [1, 2, 3]) demo_asked =
      bnd (finish_piece demo_env 0) (\<lambda>_. request_pieces demo_env) ?s"
    by (simp add: handle_msg_def handle_piece_def bnd_def [of "store_block _ _ _"])
  note steps = this calculation
  have "pick_piece (own_bitfield demo_done) = (Ok None, own_bitfield demo_done)"
    unfolding done_fields(4)
    by (simp add: demo_zero pick_piece_def pick_loop.simps)
  moreover have "env_iter_order demo_env Map.empty = []" by (simp add: demo_env_with_def)
  ultimately have "request_pieces demo_env demo_done = (Ok (), demo_done)"
    using done_fields(1-3)
    by (simp add: request_pieces_unfold with_bitfield_def begin_piece_def max_inflight_per_peer_def)
  with steps show ?thesis by simp
qed

lemma demo_reach:
  assumes "\<And>s. ok s (Received Unchoke)" and "\<And>s. ok s (Received (Piece 0 0 [1, 2, 3]))"
  shows "task_reach (demo_env_with h) ok demo_info (0, 0) AtSelect demo_start"
    and "task_reach (demo_env_with h) ok demo_info (0, 0) AtSelect demo_asked"
    and "task_reach demo_env ok demo_info (0, 0) AtHead demo_done"
proof -
  have left: "remaining (zero_pieces 1) = Ok 1"
    by (simp add: demo_zero remaining_def count_ones_def add_chk_def sub_chk_def)
  have fields: "own_bitfield demo_start = zero_pieces 1" "own_bitfield demo_asked = zero_pieces 1"
    by (simp_all add: demo_asked_def demo_start_def new_downloader_def)
  have s: "task_reach (demo_env_with e) ok demo_info (0, 0) AtHead demo_start" for e
    unfolding demo_start_def by (rule task_reach.start) (simp_all add: bf_inv_zero demo_info_ok)
  have "download_round (demo_env_with e) (Received Unchoke) demo_start = (Ok False, demo_asked)" for e
    by (simp add: download_round_def fields left ignore_err_def demo_unchoke)
  then have a: "task_reach (demo_env_with e) ok demo_info (0, 0) AtHead demo_asked" for e
    by (rule task_reach_round [where ok = ok, OF assms(1) s])
  show "task_reach (demo_env_with h) ok demo_info (0, 0) AtSelect demo_start"
    by (rule task_reach_select [OF s]) (simp_all only: fields left, simp)
  show "task_reach (demo_env_with h) ok demo_info (0, 0) AtSelect demo_asked"
    by (rule task_reach_select [OF a]) (simp_all only: fields left, simp)
  have "download_round demo_env (Received (Piece 0 0 [1, 2, 3])) demo_asked = (Ok False, demo_done)"
    by (simp add: download_round_def fields left ignore_err_def demo_piece)
  then show "task_reach demo_env ok demo_info (0, 0) AtHead demo_done"
    by (rule task_reach_round [where ok = ok, OF assms(2) a])
qed

text \<open>The last block, step by step.\<close>

definition demo_full :: seed_downloader where
  "demo_full = demo_asked\<lparr>pending_blocks := {}, inflight := 0,
     pending_pieces := [0 \<mapsto> demo_dl\<lparr>remaining_blocks := 0, dl_bytes := [1, 2, 3]\<rparr>]\<rparr>"

lemma demo_store: "task_step (demo_env_with h) (Received (Piece 0 0 [1, 2, 3])) (AtSelect, demo_asked) = (AtMark 0, demo_full)"
proof -
  have "store_block 0 0 [1, 2, 3] demo_asked = (Ok True, demo_full)"
    by (simp add: store_block_def Let_def splice_vec_def sub_chk_def)
      (simp add: demo_asked_def demo_full_def demo_start_def new_downloader_def demo_dl_def)
  then show ?thesis
    by (simp add: task_step_def select_input_def start_msg_def bnd_def [of "store_block _ _ _"])
qed

lemma demo_full_reach:
  assumes "\<And>s. ok s (Received Unchoke)" and "\<And>s. ok s (Received (Piece 0 0 [1, 2, 3]))"
  shows "task_reach (demo_env_with h) ok demo_info (0, 0) (AtMark 0) demo_full"
  by (rule task_reach.step [where ok = ok, OF demo_reach(2) [where ok = ok, OF assms] assms(2) demo_store])

section \<open>The content of a torrent\<close>

text \<open>The bytes of piece \<open>k\<close>, and the blocks of a peer that sends them.\<close>

definition piece_bytes :: "info \<Rightarrow> u8 list \<Rightarrow> nat \<Rightarrow> u8 list" where
  "piece_bytes i content k = take (piece_size i k) (drop (k * unat (info_piece_length i)) content)"

definition honest :: "info \<Rightarrow> u8 list \<Rightarrow> block_law" where
  "honest i content k off block \<longleftrightarrow> block = take (length block) (drop off (piece_bytes i content (unat k)))"

lemma length_piece_bytes:
  assumes "wf_info i" and "k < piece_count i" and "length content = content_length (info_download_type i)"
  shows "length (piece_bytes i content k) = piece_size i k"
  using get_piece_length_size(4) [OF assms(1,2)] assms(3) by (simp add: piece_bytes_def)

lemma segments_determine:
  assumes len: "length v = len" "length w = len"
    and seg: "\<forall>n < num_blocks len. segment len n v = take (length (segment len n v)) (drop (n * 16384) w)"
  shows "v = w"
proof (rule nth_equalityI)
  fix i assume i: "i < length v"
  let ?n = "i div 16384" and ?m = "i mod 16384"
  have im: "?n * 16384 + ?m = i" by simp
  then have n: "?n < num_blocks len" using i len by (simp add: less_num_blocks)
  have m: "?m < length (segment len ?n v)"
  proof -
    have "?m < len - ?n * 16384" using i len(1) im by linarith
    then show ?thesis using len by (simp add: segment_def block_len_at_def)
  qed
  have "v ! i = segment len ?n v ! ?m"
    using m i len im by (simp add: segment_def)
  also have "\<dots> = take (length (segment len ?n v)) (drop (?n * 16384) w) ! ?m"
    using seg n by simp
  also have "\<dots> = w ! i" using m i len im by simp
  finally show "v ! i = w ! i" .
qed (simp add: len)

lemma num_blocks_pos_eq: "j \<le> num_blocks len \<Longrightarrow> num_blocks (block_pos len j) = j"
proof (cases "j = num_blocks len")
  case False
  assume "j \<le> num_blocks len"
  with False have "block_pos len j = j * 16384" using block_pos_lt by simp
  then show ?thesis by (simp add: num_blocks_def)
qed simp

lemma pipe_piece_size:
  assumes "wf_download i" and "piece_dl_ok i k dl" and "unat k < piece_count i"
  shows "unat (dl_piece_length dl) = piece_size i (unat k)"
  using wf_download_piece [OF assms(1,3)] assms(2) by (metis piece_dl_ok_def res.inject(1))

lemma honest_piece:
  assumes wf: "wf_download i" and content: "length content = content_length (info_download_type i)"
    and k: "unat k < piece_count i" and len: "unat len = piece_size i (unat k)" and bytes: "length bytes = unat len"
    and law: "\<forall>n < num_blocks (unat len). honest i content k (n * 16384) (segment (unat len) n bytes)"
  shows "bytes = piece_bytes i content (unat k)"
proof (rule segments_determine [OF bytes])
  show "length (piece_bytes i content (unat k)) = unat len"
    using wf k content len by (simp add: length_piece_bytes wf_download_def)
qed (use law in \<open>simp add: honest_def\<close>)

lemma honest_msg:
  assumes "wf_download i" and "length content = content_length (info_download_type i)"
    and ok: "tx_msg_ok env i (PieceMsg k len bytes)" and law: "msg_law (honest i content) (PieceMsg k len bytes)"
  shows "bytes = piece_bytes i content (unat k)"
proof -
  have k: "unat k < piece_count i" using ok assms(1) by (simp add: wf_download_def)
  have "unat len = piece_size i (unat k)"
    using wf_download_piece [OF assms(1) k] ok by (metis res.inject(1) tx_msg_ok.simps(2))
  from honest_piece [OF assms(1,2) k this] show ?thesis using ok law by simp
qed

lemma honest_mark:
  assumes "wf_download i" and "length content = content_length (info_download_type i)"
    and "mark_ready (honest i content) i k s" and "pending_pieces s k = Some dl"
  shows "dl_bytes dl = piece_bytes i content (unat k)" and "piece_hash dl = info_pieces i ! unat k"
    and "unat k < piece_count i"
proof -
  have ok: "piece_dl_ok i k dl" and k: "unat k < piece_count i"
    and law: "\<forall>n < num_blocks (unat (dl_piece_length dl)).
      honest i content k (n * 16384) (segment (unat (dl_piece_length dl)) n (dl_bytes dl))"
    using assms(3,4) by (auto simp: mark_ready_def)
  show "dl_bytes dl = piece_bytes i content (unat k)"
    using honest_piece [OF assms(1,2) k pipe_piece_size [OF assms(1) ok k] _ law] ok by (simp add: piece_dl_ok_def)
  show "piece_hash dl = info_pieces i ! unat k" "unat k < piece_count i"
    using ok k by (simp_all add: piece_dl_ok_def)
qed

section \<open>Properties\<close>

text \<open>
  C7. Only validated pieces reach the channel. In every run of the task, whatever the peer sends,
  whether writes fail or not, and whatever the other tasks do to the bitfield between any two
  steps: a piece that was handed to the channel, or is on its way into it, has an index of the
  torrent, the length of that piece, and bytes whose hash is the one the metainfo lists.
\<close>

theorem only_validated_pieces_are_sent:
  assumes "task_reach env ok i a pc s"
    and "PieceMsg k len bytes \<in> set (tx_sent s) \<or> pc = AtSend (PieceMsg k len bytes)"
  shows "unat k < length (info_pieces i) \<and> env_sha1 env bytes = info_pieces i ! unat k \<and>
    get_piece_length i k = Ok len \<and> length bytes = unat len"
proof -
  have "tx_msg_ok env i (PieceMsg k len bytes)"
    using task_reach_hash [OF assms(1)] assms(2) unfolding task_hash_def hash_inv_def by blast
  then show ?thesis by simp
qed

theorem only_validated_pieces_are_sent_witness:
  "env_sha1 demo_env [1, 2, 3] = info_pieces demo_info ! 0"
proof -
  have "task_reach demo_env (\<lambda>s inp. True) demo_info (0, 0) AtHead demo_done" by (rule demo_reach) simp_all
  from only_validated_pieces_are_sent [OF this, of 0 3 "[1, 2, 3]"] show ?thesis
    by (simp add: demo_done_def)
qed

text \<open>
  C18. The bookkeeping of the downloader in every run on a working link, whatever the peer sends and
  the other tasks do, at every point but the one at which a finished piece waits to be marked:
  every outstanding request belongs to a pending piece and lies inside the requested part of
  it; \<open>remaining_blocks\<close> of a pending piece is positive and counts its outstanding blocks and those
  not yet requested; the counter of requests in flight is never below their number.
\<close>

theorem pipeline_bookkeeping:
  assumes "link_up env" and "order_ok env" and "wf_download i"
    and "task_reach env (lawful_input (\<lambda>k off block. True)) i a pc s" and "settled pc"
  shows "card (pending_blocks s) \<le> unat (inflight s) \<and>
    (\<forall>b \<in> pending_blocks s. \<exists>dl. pending_pieces s (blk_piece_index b) = Some dl \<and>
       unat (blk_begin b) + unat (blk_len b) \<le> unat (requested dl)) \<and>
    (\<forall>k dl. pending_pieces s k = Some dl \<longrightarrow>
       unat k < piece_count i \<and> unat (dl_piece_length dl) = piece_size i (unat k) \<and>
       length (dl_bytes dl) = piece_size i (unat k) \<and> requested dl \<le> dl_piece_length dl \<and>
       0 < remaining_blocks dl \<and>
       unat (remaining_blocks dl) = card {b \<in> pending_blocks s. blk_piece_index b = k} +
         (num_blocks (unat (dl_piece_length dl)) - num_blocks (unat (requested dl))))"
proof -
  let ?Q = "\<lambda>k off block. True"
  have inv: "pipe_inv ?Q i s" using task_reach_pipe [OF assms(1-4)] pc_pipe_settled assms(5) by blast
  have piece: "unat k < piece_count i \<and> unat (dl_piece_length dl) = piece_size i (unat k) \<and>
       length (dl_bytes dl) = piece_size i (unat k) \<and> requested dl \<le> dl_piece_length dl \<and>
       0 < remaining_blocks dl \<and> unat (remaining_blocks dl) = card (of_piece k (pending_blocks s)) +
         (num_blocks (unat (dl_piece_length dl)) - num_blocks (unat (requested dl))) \<and>
       (\<forall>b \<in> of_piece k (pending_blocks s). unat (blk_begin b) + unat (blk_len b) \<le> unat (requested dl))"
    if "pending_pieces s k = Some dl" for k dl
  proof -
    have pp: "piece_pipe ?Q i k (of_piece k (pending_blocks s)) dl" and rem: "0 < remaining_blocks dl"
      using inv that by (simp_all add: pipe_inv_def)
    then obtain j where at: "pipe_at ?Q k (of_piece k (pending_blocks s)) dl j"
      and ok: "piece_dl_ok i k dl" and k: "unat k < piece_count i" by (auto simp: piece_pipe_def)
    note u = unat_block_pos [OF unat_u32_lt [of "dl_piece_length dl"]]
    have j: "j \<le> num_blocks (unat (dl_piece_length dl))" and req: "unat (requested dl) = block_pos (unat (dl_piece_length dl)) j"
      and sub: "of_piece k (pending_blocks s) \<subseteq> block_at k (unat (dl_piece_length dl)) ` {..<j}"
      using at u by (simp_all add: pipe_at_def Let_def)
    have "unat (blk_begin b) + unat (blk_len b) \<le> unat (requested dl)" if b: "b \<in> of_piece k (pending_blocks s)" for b
    proof -
      obtain n where n: "n < j" "b = block_at k (unat (dl_piece_length dl)) n" using sub b by auto
      then have "unat (blk_begin b) + unat (blk_len b) = block_pos (unat (dl_piece_length dl)) (Suc n)"
        by (simp only: block_at_def block_download.simps u unat_block_len block_pos_Suc)
      also have "\<dots> \<le> block_pos (unat (dl_piece_length dl)) j" using n by (simp add: block_pos_def min_def)
      finally show ?thesis by (simp add: req)
    qed
    then show ?thesis
      using at k rem pipe_piece_size [OF assms(3) ok k] ok pipe_at_le [OF at] num_blocks_pos_eq [OF j] req
      by (simp add: piece_dl_ok_def pipe_at_def Let_def)
  qed
  show ?thesis
    using inv piece unfolding of_piece_def by (fastforce simp: pipe_inv_def)
qed

theorem pipeline_bookkeeping_witness: "card (pending_blocks demo_asked) \<le> unat (inflight demo_asked)"
proof -
  have "task_reach demo_env (lawful_input (\<lambda>k off block. True)) demo_info (0, 0) AtSelect demo_asked"
    by (rule demo_reach(2)) (simp_all add: lawful_input_def lawful_def)
  from pipeline_bookkeeping [OF demo_env_ok demo_info_ok(1) this] show ?thesis by simp
qed

text \<open>
  C20. Every block request written to the peer in such a run is a request for a nonempty block of
  at most 16 KiB of a piece of the torrent, aligned to 16 KiB and inside the piece.
\<close>

theorem requests_are_well_formed:
  assumes "link_up env" and "order_ok env" and "wf_download i"
    and "task_reach env (lawful_input (\<lambda>k off block. True)) i a pc s" and "\<forall>p. pc \<noteq> Ended p"
    and "Request k off len \<in> set (stream_sent s)"
  shows "unat k < piece_count i \<and> unat off mod 16384 = 0 \<and> 0 < unat len \<and> unat len \<le> 16384 \<and>
    unat off + unat len \<le> piece_size i (unat k)"
proof -
  have "pc_pipe (\<lambda>k off block. True) i pc s" using task_reach_pipe [OF assms(1-4)] by blast
  then have "sent_ok i (Request k off len)"
    using assms(5,6) by (cases pc) (auto simp: pipe_inv_def mark_ready_def)
  then obtain plen j where len: "get_piece_length i k = Ok plen" and k: "unat k < piece_count i"
    and j: "j < num_blocks (unat plen)"
    and off: "off = of_nat (block_pos (unat plen) j)" and l: "len = of_nat (block_len_at (unat plen) j)"
    by (auto simp: sent_ok_def request_at_def)
  have size: "unat plen = piece_size i (unat k)"
    using wf_download_piece [OF assms(3) k] len by (metis res.inject(1))
  have u: "unat off = block_pos (unat plen) j" "unat len = block_len_at (unat plen) j"
    unfolding off l by (simp_all only: unat_block_pos [OF unat_u32_lt] unat_block_len)
  have "j * 16384 < unat plen" using j by (simp add: less_num_blocks)
  then show ?thesis
    using u k size block_pos_lt [OF j] by (auto simp: block_len_at_def min_def)
qed

theorem requests_are_well_formed_witness: "unat (3 :: u32) \<le> piece_size demo_info 0"
proof -
  have "task_reach demo_env (lawful_input (\<lambda>k off block. True)) demo_info (0, 0) AtSelect demo_asked"
    by (rule demo_reach(2)) (simp_all add: lawful_input_def lawful_def)
  from requests_are_well_formed [OF demo_env_ok demo_info_ok(1) this, of 0 0 3] show ?thesis
    by (simp add: demo_asked_def)
qed

text \<open>
  C19. The pipeline, on a working link, of a peer that never chokes while requests are outstanding: as
  long as the task runs the counter is exactly the number of outstanding requests and at most five, and the next
  step ends the task only at the end of the stream or of the download, on a request or cancel
  of the peer (\<open>todo!\<close>), or when the last piece of a torrent with a multiple of eight pieces is
  marked.
\<close>

theorem pipeline_is_bounded:
  assumes "link_up env" and "order_ok env" and "wf_download i"
    and "task_reach env (calm_input (\<lambda>k off block. True)) i a pc s" and "\<forall>r. pc \<noteq> Ended r"
  shows "unat (inflight s) = card (pending_blocks s) \<and> unat (inflight s) \<le> 5 \<and>
    (\<forall>inp e s'. (pc = AtSelect \<longrightarrow> calm_input (\<lambda>k off block. True) s inp) \<and>
       task_step env inp (pc, s) = (Ended e, s') \<longrightarrow>
         e = Ok () \<or>
         e = Panic OutOfBounds \<and> piece_count i mod 8 = 0 \<and> owned (own_bitfield s') = {..<piece_count i} \<or>
         e = Panic TodoReached \<and> (\<exists>x y z. inp = Received (Request x y z) \<or> inp = Received (Cancel x y z)))"
proof -
  let ?Q = "\<lambda>k off block. True"
  have inv: "pc_pipe ?Q i pc s" "pc_calm pc s" using task_reach_calm [OF assms(1-4)] by blast+
  have "e = Ok () \<or>
      e = Panic OutOfBounds \<and> piece_count i mod 8 = 0 \<and> owned (own_bitfield s') = {..<piece_count i} \<or>
      e = Panic TodoReached \<and> (\<exists>x y z. inp = Received (Request x y z) \<or> inp = Received (Cancel x y z))"
    if calm: "pc = AtSelect \<longrightarrow> calm_input ?Q s inp" and step: "task_step env inp (pc, s) = (Ended e, s')" for inp e s'
  proof -
    have "pc = AtSelect \<Longrightarrow> lawful_input ?Q s inp" using calm by (simp add: calm_input_def)
    from task_step_pipe(2) [OF assms(1-3) inv(1) assms(5) this step inv(2)] calm show ?thesis by blast
  qed
  with pc_calm_inflight [OF inv assms(5)] show ?thesis by blast
qed

theorem pipeline_is_bounded_witness: "unat (inflight demo_asked) = card (pending_blocks demo_asked)"
proof -
  have "task_reach demo_env (calm_input (\<lambda>k off block. True)) demo_info (0, 0) AtSelect demo_asked"
    by (rule demo_reach(2)) (simp_all add: calm_input_def lawful_input_def lawful_def)
  from pipeline_is_bounded [OF demo_env_ok demo_info_ok(1) this] show ?thesis by simp
qed

text \<open>
  C17. An honest peer: if every block the peer sends is the block of the content it claims to be,
  the pieces handed to the channel are the pieces of the content, in whatever order the
  answers arrive and even when chokes make pieces start over. The hash plays no part in this.
\<close>

theorem honest_peer_delivers_content:
  assumes "link_up env" and "order_ok env" and "wf_download i"
    and "length content = content_length (info_download_type i)"
    and "task_reach env (lawful_input (honest i content)) i a pc s"
    and "PieceMsg k len bytes \<in> set (tx_sent s)"
  shows "bytes = piece_bytes i content (unat k)"
proof -
  have ok: "tx_msg_ok env i (PieceMsg k len bytes)"
    using task_reach_hash [OF assms(5)] assms(6) unfolding task_hash_def hash_inv_def by blast
  have "msg_law (honest i content) (PieceMsg k len bytes)"
    using task_reach_pipe [OF assms(1-3,5)] assms(6) unfolding sent_law_msgs by blast
  from honest_msg [OF assms(3,4) ok this] show ?thesis .
qed

theorem honest_peer_delivers_content_witness: "[1, 2, 3] = piece_bytes demo_info [1, 2, 3] 0"
proof -
  have "task_reach demo_env (lawful_input (honest demo_info [1, 2, 3])) demo_info (0, 0) AtHead demo_done"
    by (rule demo_reach(3))
      (simp_all add: lawful_input_def lawful_def honest_def piece_bytes_def piece_size_def demo_info_def)
  from honest_peer_delivers_content [OF demo_env_ok demo_info_ok(1) _ this, of 0 3 "[1, 2, 3]"]
  show ?thesis by (simp add: demo_done_def demo_info_def)
qed

text \<open>
  C16. The last block of a piece, for an honest and calm peer and a metainfo with the hashes of the
  content. It leads to the point before the lock; and when the lock is taken there, whatever the
  others did to the bitfield in the meantime, the piece is marked and exactly its bytes are on
  their way into the channel, the only exception being the panic on the last piece of a torrent
  with a multiple of eight pieces.
\<close>

theorem last_block_delivers_piece:
  assumes "link_up env" and "order_ok env" and "wf_download i"
    and "length content = content_length (info_download_type i)"
    and "\<forall>k < piece_count i. info_pieces i ! k = env_sha1 env (piece_bytes i content k)"
    and "task_reach env (calm_input (honest i content)) i a pc s"
  shows "(pc = AtSelect \<and> pending_pieces s k = Some dl \<and> remaining_blocks dl = 1 \<and>
        \<lparr>blk_piece_index = k, blk_begin = off, blk_len = of_nat (length block)\<rparr> \<in> pending_blocks s \<and>
        length block < 2 ^ 32 \<and> honest i content k (unat off) block \<longrightarrow>
      fst (task_step env (Received (Piece k off block)) (pc, s)) = AtMark k) \<and>
    (pc = AtMark k \<and> task_step env inp (pc, s) = (pc', s') \<longrightarrow>
      unat k < piece_count i \<and> unat k \<in> owned (own_bitfield s') \<and>
      pc' = AtSend (PieceMsg k (of_nat (piece_size i (unat k))) (piece_bytes i content (unat k))) \<or>
      pc' = Ended (Panic OutOfBounds) \<and> piece_count i mod 8 = 0)"
proof (intro conjI impI; elim conjE)
  let ?Q = "honest i content"
  have pipe: "pc_pipe ?Q i pc s" using task_reach_calm [OF assms(1-3,6)] by blast
  {
    assume a: "pc = AtSelect" "pending_pieces s k = Some dl" "remaining_blocks dl = 1"
      "\<lparr>blk_piece_index = k, blk_begin = off, blk_len = of_nat (length block)\<rparr> \<in> pending_blocks s"
      "length block < 2 ^ 32" "?Q k (unat off) block"
    then have inv: "pipe_inv ?Q i s" using pipe by simp
    note acc = block_accepted [OF inv a(2,4,5,6)]
    have "remaining_blocks (after_block off block dl) = 0"
      using acc(8) a(3) by (simp add: word_unat_eq_iff)
    then show "fst (task_step env (Received (Piece k off block)) (pc, s)) = AtMark k"
      using acc(9) a(1)
      by (simp add: task_step_def select_input_def start_msg_def bnd_def [of "store_block _ _ _"])
  }
  assume a: "pc = AtMark k" "task_step env inp (pc, s) = (pc', s')"
  then have ready: "mark_ready ?Q i k s" using pipe by simp
  then obtain dl where dl: "pending_pieces s k = Some dl" "piece_dl_ok i k dl" by (auto simp: mark_ready_def)
  note h = honest_mark [OF assms(3,4) ready dl(1)]
  have "validate_piece env (dl_bytes dl) (piece_hash dl)"
    using assms(5) h by (simp add: validate_piece_def)
  moreover have "dl_piece_length dl = of_nat (piece_size i (unat k))"
    using arg_cong [OF pipe_piece_size [OF assms(3) dl(2) h(3)], of "of_nat :: nat \<Rightarrow> u32"] by simp
  moreover obtain r s1 where run: "mark_piece env k s = (r, s1)" by (metis surj_pair)
  ultimately show "unat k < piece_count i \<and> unat k \<in> owned (own_bitfield s') \<and>
      pc' = AtSend (PieceMsg k (of_nat (piece_size i (unat k))) (piece_bytes i content (unat k))) \<or>
      pc' = Ended (Panic OutOfBounds) \<and> piece_count i mod 8 = 0"
    using mark_step_run(1,2) [OF ready dl(1) run] a h
    by (auto simp: task_step_def)
qed

theorem last_block_delivers_piece_witness:
  "fst (task_step demo_env StreamError (AtMark 0, demo_full)) = AtSend (PieceMsg 0 3 (piece_bytes demo_info [1, 2, 3] 0))"
proof -
  let ?Q = "honest demo_info [1, 2, 3]"
  have reach: "task_reach demo_env (calm_input ?Q) demo_info (0, 0) (AtMark 0) demo_full"
    by (rule demo_full_reach)
      (simp_all add: calm_input_def lawful_input_def lawful_def honest_def piece_bytes_def piece_size_def demo_info_def)
  have len: "length [1, 2, 3 :: u8] = content_length (info_download_type demo_info)"
    by (simp add: demo_info_def)
  have hash: "\<forall>k < piece_count demo_info. info_pieces demo_info ! k = env_sha1 demo_env (piece_bytes demo_info [1, 2, 3] k)"
    by (simp add: demo_info_ok) (simp add: demo_info_def demo_env_with_def)
  have "piece_size demo_info 0 = 3" by (simp add: piece_size_def demo_info_def)
  then show ?thesis
    using last_block_delivers_piece [OF demo_env_ok demo_info_ok(1) len hash reach] demo_info_ok(2)
    by (cases "task_step demo_env StreamError (AtMark 0, demo_full)") auto
qed

text \<open>
  C21. On a working link, a piece that fails the hash test: it is marked as owned before the test, so no
  task will ask for it again, and nothing is handed to the channel or written to the peer. The task goes
  back to the head of its loop, with the piece gone from the pending ones; only if this piece
  completes a torrent with a multiple of eight pieces, the mark panics instead and ends the task.
\<close>

theorem invalid_piece_is_marked_owned:
  assumes "link_up env" and "order_ok env" and "wf_download i"
    and "task_reach env (lawful_input (\<lambda>k off block. True)) i a (AtMark k) s"
    and "pending_pieces s k = Some dl" and "env_sha1 env (dl_bytes dl) \<noteq> piece_hash dl"
    and "task_step env inp (AtMark k, s) = (pc', s')"
  shows "owned (own_bitfield s') = insert (unat k) (owned (own_bitfield s)) \<and>
    tx_sent s' = tx_sent s \<and> stream_sent s' = stream_sent s \<and>
    (if unat k \<notin> owned (own_bitfield s) \<and> insert (unat k) (owned (own_bitfield s)) = {..<piece_count i} \<and>
        piece_count i mod 8 = 0
     then pc' = Ended (Panic OutOfBounds) else pc' = AtHead \<and> pending_pieces s' k = None)"
proof -
  have "mark_ready (\<lambda>k off block. True) i k s" using task_reach_pipe [OF assms(1-4)] by simp
  then have bf: "bf_inv (own_bitfield s)" "unat k < total_pieces (own_bitfield s)"
    "total_pieces (own_bitfield s) = piece_count i"
    by (simp_all add: mark_ready_def pipe_inv_def)
  obtain r b where set: "set_piece k (own_bitfield s) = (r, b)" by (metis surj_pair)
  have invalid: "\<not> validate_piece env (dl_bytes dl) (piece_hash dl)" using assms(6) by (simp add: validate_piece_def)
  have b: "owned b = insert (unat k) (owned (own_bitfield s))" by (rule set_piece_owned(2) [OF bf(1,2) set])
  show ?thesis
  proof (cases "unat k \<notin> owned (own_bitfield s) \<and> insert (unat k) (owned (own_bitfield s)) = {..<piece_count i} \<and>
        piece_count i mod 8 = 0")
    case True
    then have "r = Panic OutOfBounds" using set_piece_outcome [OF bf(1,2)] set bf(3) by simp
    then have "mark_piece env k s = (Panic OutOfBounds, s\<lparr>own_bitfield := b\<rparr>)"
      using set by (simp add: mark_piece_def with_bitfield_def)
    then have "pc' = Ended (Panic OutOfBounds)" "s' = s\<lparr>own_bitfield := b\<rparr>" using assms(7) by (simp_all add: task_step_def)
    with True b show ?thesis by simp
  next
    case False
    then have "r = Ok ()" using set_piece_outcome [OF bf(1,2)] set bf(3) by (simp split: if_splits)
    then have "mark_piece env k s = (Err (Anyhow ''piece validation failed''),
        s\<lparr>own_bitfield := b, pending_pieces := (pending_pieces s)(k := None)\<rparr>)"
      using set assms(5) invalid by (simp add: mark_piece_def with_bitfield_def)
    then have "pc' = AtHead" "s' = s\<lparr>own_bitfield := b, pending_pieces := (pending_pieces s)(k := None)\<rparr>"
      using assms(7) by (simp_all add: task_step_def)
    with False b show ?thesis by auto
  qed
qed

theorem invalid_piece_is_marked_owned_witness:
  "0 \<in> owned (own_bitfield (snd (task_step (demo_env_with 8) StreamError (AtMark 0, demo_full))))"
proof -
  have reach: "task_reach (demo_env_with 8) (lawful_input (\<lambda>k off block. True)) demo_info (0, 0) (AtMark 0) demo_full"
    by (rule demo_full_reach) (simp_all add: lawful_input_def lawful_def)
  have dl: "pending_pieces demo_full 0 = Some (demo_dl\<lparr>remaining_blocks := 0, dl_bytes := [1, 2, 3]\<rparr>)"
    by (simp add: demo_full_def)
  obtain pc' s' where step: "task_step (demo_env_with 8) StreamError (AtMark 0, demo_full) = (pc', s')"
    by (metis surj_pair)
  have "env_sha1 (demo_env_with 8) [1, 2, 3] \<noteq> piece_hash demo_dl"
    by (simp add: demo_env_with_def demo_dl_def)
  then show ?thesis
    using invalid_piece_is_marked_owned [OF demo_env_ok demo_info_ok(1) reach dl _ step] step demo_info_ok(2) by simp
qed

text \<open>
  C22. Requests lost to a choke. A choke forgets the outstanding requests but keeps them counted
  as in flight: the difference between the counter and the outstanding requests grows by their
  number, it never shrinks again in any step, and once it has reached five the downloader
  never starts another piece, whatever the peer sends.
\<close>

theorem choke_leaks_requests:
  assumes "link_up env" and "order_ok env" and "wf_download i"
    and "task_reach env (lawful_input (\<lambda>k off block. True)) i a pc s"
    and "pc = AtSelect \<Longrightarrow> lawful_input (\<lambda>k off block. True) s inp"
    and "task_step env inp (pc, s) = (pc', s')" and "\<forall>p. pc' \<noteq> Ended (Panic p)"
  defines "lost \<equiv> \<lambda>s. unat (inflight s) - card (pending_blocks s)"
  shows "lost s \<le> lost s' \<and>
    (pc = AtSelect \<and> inp = Received Choke \<longrightarrow> lost s' = lost s + card (pending_blocks s) \<and> pending_blocks s' = {}) \<and>
    (5 \<le> lost s \<longrightarrow> dom (pending_pieces s') \<subseteq> dom (pending_pieces s))"
proof (cases "\<exists>r. pc = Ended r")
  case True
  then show ?thesis using assms(6) task_step_ended by auto
next
  case False
  let ?Q = "\<lambda>k off block. True"
  have lost: "lost s = leak s" for s by (simp add: lost_def leak_def)
  have inv: "pc_pipe ?Q i pc s" using task_reach_pipe [OF assms(1-4)] by blast
  have "step_ok ?Q i s pc' s'"
    using task_step_pipe(1) [OF assms(1-3) inv _ assms(5,6)] False by blast
  moreover have "s' = choked_state s" if "pc = AtSelect" "inp = Received Choke"
    using assms(6) inv choke_eq [OF assms(2), of ?Q i s] that
    by (simp add: task_step_def select_input_def start_msg_def)
  moreover have "leak (choked_state s) = leak s + card (pending_blocks s)" if "pc = AtSelect"
    using choked_state_pipe(2) [of ?Q i s] inv that by simp
  ultimately show ?thesis using assms(7) unfolding lost step_ok_def by auto
qed

theorem choke_leaks_requests_witness:
  "(case task_step demo_env (Received Choke) (AtSelect, demo_asked) of (pc', s') \<Rightarrow>
     unat (inflight s') - card (pending_blocks s') = 1)"
proof -
  have reach: "task_reach demo_env (lawful_input (\<lambda>k off block. True)) demo_info (0, 0) AtSelect demo_asked"
    by (rule demo_reach(2)) (simp_all add: lawful_input_def lawful_def)
  have law: "lawful_input (\<lambda>k off block. True) demo_asked (Received Choke)"
    by (simp add: lawful_input_def lawful_def)
  have inv: "pipe_inv (\<lambda>k off block. True) demo_info demo_asked"
    using task_reach_pipe [OF demo_env_ok demo_info_ok(1) reach] by simp
  have run: "task_step demo_env (Received Choke) (AtSelect, demo_asked) = (AtHead, choked_state demo_asked)"
    by (simp add: task_step_def select_input_def start_msg_def choke_eq [OF demo_env_ok(2) inv])
  have "unat (inflight demo_asked) - card (pending_blocks demo_asked) = 0" "card (pending_blocks demo_asked) = 1"
    by (simp_all add: demo_asked_def)
  with choke_leaks_requests [OF demo_env_ok demo_info_ok(1) reach law run] show ?thesis
    unfolding run by simp
qed

text \<open>
  C23. The request loop in closed form, on a working link and for a piece none of whose blocks to come
  is pending: with \<open>n\<close> requests in flight it asks for the next blocks of the piece, in order, until five are in flight or the piece is used up; with five or more in
  flight the test for equality never fires and it asks for the whole rest of the piece. It
  panics exactly when the counter would pass 255.
\<close>

theorem request_loop_bursts:
  assumes "link_up env" and "len = unat (dl_piece_length dl)" and "j \<le> num_blocks len"
    and "requested dl = of_nat (block_pos len j)"
    and "\<forall>n \<in> {j..<num_blocks len}. block_at k len n \<notin> pending_blocks s"
  shows "(let n = unat (inflight s); todo = num_blocks len - j;
              m = (if n < 5 then min (5 - n) todo else todo)
     in if n + m < 256 then request_blocks env k (dl, s) =
          (Ok (), (dl\<lparr>requested := of_nat (block_pos len (j + m))\<rparr>,
             s\<lparr>stream_sent := stream_sent s @ map (request_at k len) [j..<j + m],
               pending_blocks := pending_blocks s \<union> block_at k len ` {j..<j + m},
               inflight := inflight s + of_nat m\<rparr>))
        else fst (request_blocks env k (dl, s)) = Panic ArithOverflow)"
  using request_blocks_eq [OF assms(1,2,4,3,5)] unfolding burst_def after_requests_def Let_def .

theorem request_loop_bursts_witness:
  "fst (snd (request_blocks demo_env 0 (demo_dl\<lparr>requested := 0\<rparr>, demo_start))) = demo_dl"
proof -
  let ?dl = "demo_dl\<lparr>requested := 0\<rparr>"
  have "request_blocks demo_env 0 (?dl, demo_start) =
      (Ok (), (demo_dl, demo_start\<lparr>stream_sent := [Request 0 0 3],
         pending_blocks := {\<lparr>blk_piece_index = 0, blk_begin = 0, blk_len = 3\<rparr>}, inflight := 1\<rparr>))"
    using request_loop_bursts [OF demo_env_ok(1), of 3 ?dl 0 0 demo_start]
    by (simp add: demo_dl_def demo_start_def new_downloader_def num_blocks_def block_pos_def
        block_at_def request_at_def block_len_at_def)
  then show ?thesis by simp
qed

end
