(* ===== verification/BrokenLink.thy ===== *)
theory BrokenLink
  imports SeedRun
begin

text \<open>
  A write that fails while the first blocks of a new piece are requested (\<open>src/download/mod.rs\<close>):
  the piece is thrown away before it is entered among the pending ones, the blocks that were
  requested are not.
\<close>

section \<open>A link that breaks\<close>







section \<open>Properties\<close>







end
