(* ===== verification/Session.thy ===== *)
theory Session
  imports SeedRun Handshake
begin

text \<open>
  A whole download, \<open>File\<close> of \<open>src/download/mod.rs\<close>: choosing seeds among the peers, one task per
  seed over a bitfield behind a lock, a bounded channel, and the loop that assembles the content.
  What a peer answers before it becomes a task is a parameter, collected in \<open>peer_env\<close>.
\<close>

section \<open>Choosing seeds\<close>

record dl_file =
  file_id :: "u8 list"
  file_info :: info
  file_peers :: "socket_addr list"
  file_bytes :: "u8 list"

definition max_seeds :: usize where
  "max_seeds = 5"

definition new_file :: "u8 list \<Rightarrow> info \<Rightarrow> socket_addr list \<Rightarrow> dl_file res" where
  "new_file ident i peers =
     and_then (total_length i) (\<lambda>len.
       Ok \<lparr>file_id = ident, file_info = i, file_peers = peers, file_bytes = replicate (unat len) 0\<rparr>)"

text \<open>
  What happens on the connection to an address: whether it is made and whether the handshake is
  written, what the handshake stream and then the message stream yield first (\<open>None\<close> when the
  stream ends), the address the socket reports, and whether the five seconds pass before all
  that is over.
\<close>

record peer_env =
  pe_connect :: "socket_addr \<Rightarrow> bool"
  pe_send_handshake :: "socket_addr \<Rightarrow> handshake \<Rightarrow> bool"
  pe_handshake :: "socket_addr \<Rightarrow> handshake res option"
  pe_first_msg :: "socket_addr \<Rightarrow> message res option"
  pe_peer_addr :: "socket_addr \<Rightarrow> socket_addr option"
  pe_timeout :: "socket_addr \<Rightarrow> bool"

definition do_handshake :: "peer_env \<Rightarrow> socket_addr \<Rightarrow> u8 list \<Rightarrow> u8 list \<Rightarrow> handshake res" where
  "do_handshake pe addr ident info_hash =
     (let hs = new_handshake info_hash ident in
      and_then (if pe_send_handshake pe addr hs then Ok () else Err IoFailed) (\<lambda>_.
      case pe_handshake pe addr of
        None \<Rightarrow> Err (Anyhow ''peer stream ended during handshake'')
      | Some peer_handshake \<Rightarrow> peer_handshake))"

definition check_is_seed :: "peer_env \<Rightarrow> socket_addr \<Rightarrow> u8 list \<Rightarrow> u8 list \<Rightarrow> usize \<Rightarrow> unit res" where
  "check_is_seed pe addr ident info_hash n =
     and_then (if pe_connect pe addr then Ok () else Err IoFailed) (\<lambda>_.
     and_then (do_handshake pe addr ident info_hash) (\<lambda>peer_handshake.
     case pe_first_msg pe addr of
       None \<Rightarrow> Err (Anyhow ''stream ended before first msg'')
     | Some msg \<Rightarrow> and_then msg (\<lambda>m. case m of
           BitfieldMsg bytes \<Rightarrow>
             and_then (is_seed n bytes) (\<lambda>seed.
               if \<not> seed then Err (Anyhow ''peer is not seed'') else Ok ())
         | _ \<Rightarrow> Err (Anyhow ''first message was not bitfield''))))"

text \<open>The loop over the peers; \<open>k\<close> seeds have been found. The result is the spawned tasks.\<close>

fun pick_seeds_loop ::
  "peer_env \<Rightarrow> u8 list \<Rightarrow> u8 list \<Rightarrow> usize \<Rightarrow> info \<Rightarrow> bitfield \<Rightarrow> usize \<Rightarrow> socket_addr list \<Rightarrow> seed_downloader list res"
where
  "pick_seeds_loop pe ident ih n i b k [] = Ok []"
| "pick_seeds_loop pe ident ih n i b k (addr # rest) =
     (if pe_timeout pe addr then pick_seeds_loop pe ident ih n i b k rest
      else case check_is_seed pe addr ident ih n of
        Ok _ \<Rightarrow>
          (case pe_peer_addr pe addr of
             None \<Rightarrow> Panic UnwrapFailed
           | Some a \<Rightarrow>
               let dl = new_downloader i b a in
               if k + 1 = max_seeds then Ok [dl]
               else and_then (pick_seeds_loop pe ident ih n i b (k + 1) rest) (\<lambda>dls. Ok (dl # dls)))
      | Err e \<Rightarrow> pick_seeds_loop pe ident ih n i b k rest
      | Panic p \<Rightarrow> Panic p
      | Hang \<Rightarrow> Hang)"

definition pick_seeds :: "peer_env \<Rightarrow> (info \<Rightarrow> u8 list res) \<Rightarrow> bitfield \<Rightarrow> dl_file \<Rightarrow> seed_downloader list res" where
  "pick_seeds pe hash b f =
     and_then (num_pieces (file_info f)) (\<lambda>n.
     and_then (if length (file_id f) = 20 then Ok (file_id f) else Err (Anyhow ''slice length'')) (\<lambda>ident.
     and_then (hash (file_info f)) (\<lambda>ih.
       pick_seeds_loop pe ident ih (unat n) (file_info f) b 0 (file_peers f))))"

section \<open>The tasks, the lock, the channel and the receiving loop\<close>

record task =
  tk_pc :: task_pc
  tk_dl :: seed_downloader

text \<open>
  The lock on the bitfield is that of \<open>tokio\<close>, which serves those who ask for it in their order:
  a queue whose first entry is the holder. The receiving loop waits for a message, or has stored
  one and is about to look at the bitfield (\<open>to_check\<close>). \<open>received\<close> records the messages taken
  from the channel; \<open>outcome\<close> is set when \<open>download\<close> returns.
\<close>

datatype lock_user = ByTask nat | ByReceiver

record session =
  shared_bitfield :: bitfield
  lock_queue :: "lock_user list"
  tasks :: "task list"
  chan :: "downloader_msg list"
  out_bytes :: "u8 list"
  received :: "downloader_msg list"
  to_check :: bool
  outcome :: "u8 list res option"

definition chan_capacity :: nat where
  "chan_capacity = 5"

definition spawn :: "seed_downloader \<Rightarrow> task" where
  "spawn dl = \<lparr>tk_pc = AtHead, tk_dl = dl\<rparr>"

definition start_download :: "peer_env \<Rightarrow> (info \<Rightarrow> u8 list res) \<Rightarrow> dl_file \<Rightarrow> session res" where
  "start_download pe hash f =
     and_then (num_pieces (file_info f)) (\<lambda>n.
     let b = zero_pieces n in
     and_then (pick_seeds pe hash b f) (\<lambda>dls.
       Ok \<lparr>shared_bitfield = b, lock_queue = [], tasks = map spawn dls, chan = [], out_bytes = file_bytes f,
           received = [], to_check = False, outcome = None\<rparr>))"

text \<open>A step of task \<open>n\<close>, which sees the shared bitfield.\<close>

definition step_task :: "env \<Rightarrow> download_input \<Rightarrow> nat \<Rightarrow> session \<Rightarrow> task_pc \<times> seed_downloader" where
  "step_task env inp n s =
     task_step env inp (tk_pc (tasks s ! n), (tk_dl (tasks s ! n))\<lparr>own_bitfield := shared_bitfield s\<rparr>)"

definition put_task :: "nat \<Rightarrow> task_pc \<times> seed_downloader \<Rightarrow> session \<Rightarrow> session" where
  "put_task n = (\<lambda>(pc, dl) s. s\<lparr>tasks := (tasks s)[n := \<lparr>tk_pc = pc, tk_dl = dl\<rparr>]\<rparr>)"

text \<open>Who is about to ask for the lock.\<close>

fun wants_to_lock :: "session \<Rightarrow> lock_user \<Rightarrow> bool" where
  "wants_to_lock s (ByTask n) \<longleftrightarrow> n < length (tasks s) \<and> wants_lock (tk_pc (tasks s ! n))"
| "wants_to_lock s ByReceiver \<longleftrightarrow> to_check s"

text \<open>
  With the lock, a task does what its point says; a piece that is to be sent keeps the lock.
  Sending waits for room in the channel; when the piece is in, the lock is released and the
  task goes on. An end of the stream is reported without the lock.
\<close>

definition locked_step :: "env \<Rightarrow> nat \<Rightarrow> lock_user list \<Rightarrow> session \<Rightarrow> session" where
  "locked_step env n q s =
     (case step_task env KeepAliveTimeout n s of (pc, dl) \<Rightarrow>
        (put_task n (pc, dl) s)
          \<lparr>shared_bitfield := own_bitfield dl, lock_queue := (if holds_lock pc then ByTask n # q else q)\<rparr>)"

definition send_step :: "env \<Rightarrow> nat \<Rightarrow> downloader_msg \<Rightarrow> session \<Rightarrow> session" where
  "send_step env n m s =
     (put_task n (step_task env KeepAliveTimeout n s) s)
       \<lparr>chan := (if env_tx_ok env (tx_sent (tk_dl (tasks s ! n))) m then chan s @ [m] else chan s)\<rparr>"

text \<open>The two halves of a round of the loop of \<open>download\<close>, before and after the lock.\<close>

definition store_msg :: "info \<Rightarrow> downloader_msg \<Rightarrow> u8 list \<Rightarrow> u8 list res" where
  "store_msg i m v =
     (case m of
        PieceMsg index len bytes \<Rightarrow>
          and_then (usize_mul (unat index) (unat (info_piece_length i))) (\<lambda>begin_idx.
          and_then (usize_add begin_idx (unat len)) (\<lambda>end_idx.
            splice_vec begin_idx end_idx bytes v))
      | Disconnect addr \<Rightarrow> Ok v)"

definition recv_step :: "info \<Rightarrow> downloader_msg \<Rightarrow> downloader_msg list \<Rightarrow> session \<Rightarrow> session" where
  "recv_step i m ms s =
     (let s1 = s\<lparr>chan := ms, received := received s @ [m]\<rparr> in
      case store_msg i m (out_bytes s) of
        Ok v \<Rightarrow> s1\<lparr>out_bytes := v, to_check := True\<rparr>
      | Err e \<Rightarrow> s1\<lparr>outcome := Some (Err e)\<rparr>
      | Panic p \<Rightarrow> s1\<lparr>outcome := Some (Panic p)\<rparr>
      | Hang \<Rightarrow> s1\<lparr>outcome := Some Hang\<rparr>)"

definition check_step :: "lock_user list \<Rightarrow> session \<Rightarrow> session" where
  "check_step q s =
     (let s1 = s\<lparr>lock_queue := q, to_check := False\<rparr> in
      case remaining (shared_bitfield s) of
        Ok left \<Rightarrow> s1\<lparr>outcome := (if left = 0 then Some (Ok (out_bytes s)) else None)\<rparr>
      | Err e \<Rightarrow> s1\<lparr>outcome := Some (Err e)\<rparr>
      | Panic p \<Rightarrow> s1\<lparr>outcome := Some (Panic p)\<rparr>
      | Hang \<Rightarrow> s1\<lparr>outcome := Some Hang\<rparr>)"

inductive session_step ::
  "(nat \<Rightarrow> env) \<Rightarrow> (seed_downloader \<Rightarrow> download_input \<Rightarrow> bool) \<Rightarrow> info \<Rightarrow> session \<Rightarrow> session \<Rightarrow> bool"
  for envs ok i where
  ask: "outcome s = None \<Longrightarrow> wants_to_lock s u \<Longrightarrow> u \<notin> set (lock_queue s) \<Longrightarrow>
    session_step envs ok i s (s\<lparr>lock_queue := lock_queue s @ [u]\<rparr>)"
| locked: "outcome s = None \<Longrightarrow> n < length (tasks s) \<Longrightarrow> lock_queue s = ByTask n # q \<Longrightarrow>
    wants_lock (tk_pc (tasks s ! n)) \<Longrightarrow>
    session_step envs ok i s (locked_step (envs n) n q s)"
| inp: "outcome s = None \<Longrightarrow> n < length (tasks s) \<Longrightarrow> tk_pc (tasks s ! n) = AtSelect \<Longrightarrow>
    ok (tk_dl (tasks s ! n)) inp \<Longrightarrow>
    session_step envs ok i s (put_task n (step_task (envs n) inp n s) s)"
| send: "outcome s = None \<Longrightarrow> n < length (tasks s) \<Longrightarrow> tk_pc (tasks s ! n) = AtSend m \<Longrightarrow>
    lock_queue s = ByTask n # q \<Longrightarrow>
    env_tx_ok (envs n) (tx_sent (tk_dl (tasks s ! n))) m \<longrightarrow> length (chan s) < chan_capacity \<Longrightarrow>
    session_step envs ok i s ((send_step (envs n) n m s)\<lparr>lock_queue := q\<rparr>)"
| disconnect: "outcome s = None \<Longrightarrow> n < length (tasks s) \<Longrightarrow> tk_pc (tasks s ! n) = AtDisconnect \<Longrightarrow>
    m = Disconnect (sd_addr (tk_dl (tasks s ! n))) \<Longrightarrow>
    env_tx_ok (envs n) (tx_sent (tk_dl (tasks s ! n))) m \<longrightarrow> length (chan s) < chan_capacity \<Longrightarrow>
    session_step envs ok i s (send_step (envs n) n m s)"
| recv: "outcome s = None \<Longrightarrow> \<not> to_check s \<Longrightarrow> chan s = m # ms \<Longrightarrow>
    session_step envs ok i s (recv_step i m ms s)"
| check: "outcome s = None \<Longrightarrow> to_check s \<Longrightarrow> lock_queue s = ByReceiver # q \<Longrightarrow>
    session_step envs ok i s (check_step q s)"
| closed: "outcome s = None \<Longrightarrow> \<not> to_check s \<Longrightarrow> chan s = [] \<Longrightarrow>
    \<forall>tk \<in> set (tasks s). \<exists>r. tk_pc tk = Ended r \<Longrightarrow>
    session_step envs ok i s (s\<lparr>outcome := Some (Err IoFailed)\<rparr>)"

inductive session_reach ::
  "(nat \<Rightarrow> env) \<Rightarrow> (seed_downloader \<Rightarrow> download_input \<Rightarrow> bool) \<Rightarrow> info \<Rightarrow> session \<Rightarrow> session \<Rightarrow> bool"
  for envs ok i s0 where
  refl: "session_reach envs ok i s0 s0"
| step: "session_reach envs ok i s0 s \<Longrightarrow> session_step envs ok i s s' \<Longrightarrow> session_reach envs ok i s0 s'"

inductive_cases session_stepE: "session_step envs ok i s s'"

section \<open>Storing pieces\<close>

lemma tx_msg_ok_cong: "env_sha1 e = env_sha1 e' \<Longrightarrow> tx_msg_ok e i m = tx_msg_ok e' i m"
  by (cases m) simp_all

lemma tx_piece_fits:
  assumes "tx_msg_ok e i (PieceMsg k len bytes)" and "content_length (info_download_type i) < 2 ^ 64"
  shows "unat k * unat (info_piece_length i) + unat len \<le> content_length (info_download_type i)"
    and "unat len = piece_size i (unat k)" and "length bytes = piece_size i (unat k)"
proof -
  have len: "get_piece_length i k = Ok len" and bytes: "length bytes = unat len" using assms(1) by simp_all
  then have le: "unat k * unat (info_piece_length i) \<le> content_length (info_download_type i)"
    and "len = of_nat (piece_size i (unat k))"
    using get_piece_length_eq [OF assms(2), of k] by (auto split: if_splits)
  moreover have "piece_size i (unat k) < 2 ^ 32"
    using unat_u32_lt [of "info_piece_length i"] by (simp add: piece_size_def)
  ultimately show "unat len = piece_size i (unat k)" by (simp add: unat_of_nat_u32)
  then show "length bytes = piece_size i (unat k)" using bytes by simp
  show "unat k * unat (info_piece_length i) + unat len \<le> content_length (info_download_type i)"
    unfolding \<open>unat len = piece_size i (unat k)\<close> using le by (simp add: piece_size_def)
qed

lemma store_piece:
  assumes ok: "tx_msg_ok e i (PieceMsg k len bytes)" and L: "content_length (info_download_type i) < 2 ^ 64"
    and v: "length v = content_length (info_download_type i)"
  shows "store_msg i (PieceMsg k len bytes) v =
    Ok (splice_block (unat k * unat (info_piece_length i)) bytes v)"
proof -
  let ?o = "unat k * unat (info_piece_length i)"
  note fits = tx_piece_fits [OF ok L]
  have "?o + length bytes \<le> length v" using fits v by simp
  then have "splice_vec ?o (?o + unat len) bytes v = Ok (splice_block ?o bytes v)"
    using splice_vec_block [of ?o bytes v] fits by simp
  moreover have "?o < 2 ^ 64" "?o + unat len < 2 ^ 64" using fits(1) L by simp_all
  ultimately show ?thesis by (simp add: store_msg_def usize_mul_def usize_add_def)
qed

lemma piece_bytes_splice:
  assumes wf: "wf_info i" and k: "k < piece_count i" "k' < piece_count i"
    and v: "length v = content_length (info_download_type i)" and bytes: "length bytes = piece_size i k"
  shows "piece_bytes i (splice_block (k * unat (info_piece_length i)) bytes v) k' =
    (if k' = k then bytes else piece_bytes i v k')"
proof -
  let ?P = "unat (info_piece_length i)" and ?L = "content_length (info_download_type i)"
  note size = get_piece_length_size [OF wf k(1)] and size' = get_piece_length_size [OF wf k(2)]
  consider "k' = k" | "Suc k' \<le> k" | "Suc k \<le> k'" by linarith
  then show ?thesis
  proof cases
    case 1
    with size(4) v bytes show ?thesis by (simp add: piece_bytes_def splice_block_def)
  next
    case 2
    then have "Suc k' * ?P \<le> k * ?P" by (rule mult_le_mono1)
    then have le: "k' * ?P + ?P \<le> k * ?P" by simp
    have "take (piece_size i k') (drop (k' * ?P) (take (k * ?P) v)) = piece_bytes i v k'"
      using le size'(3) by (simp add: piece_bytes_def take_drop min_def)
    moreover have "length (drop (k' * ?P) (take (k * ?P) v)) \<ge> piece_size i k'"
      using le size'(3) size(4) v by simp
    ultimately show ?thesis
      using 2 le size(4) v by (simp add: piece_bytes_def splice_block_def)
  next
    case 3
    then have "Suc k * ?P \<le> k' * ?P" by (rule mult_le_mono1)
    then have "k * ?P + length bytes \<le> k' * ?P" using size(3) bytes by simp
    then obtain d where "k' * ?P = k * ?P + length bytes + d" by (metis le_Suc_ex)
    with 3 size(4) v show ?thesis
      by (simp add: piece_bytes_def splice_block_def add.commute)
  qed
qed

text \<open>The content is the concatenation of its pieces.\<close>

lemma concat_pieces:
  assumes "wf_info i" and "length v = content_length (info_download_type i)"
  shows "concat (map (piece_bytes i v) [0..<piece_count i]) = v"
proof -
  let ?P = "unat (info_piece_length i)"
  have "concat (map (piece_bytes i v) [0..<n]) = take (n * ?P) v" for n
  proof (induction n)
    case (Suc n)
    have "piece_bytes i v n = take ?P (drop (n * ?P) v)"
      using assms(2) by (simp add: piece_bytes_def piece_size_def min_def)
    then show ?case by (simp add: Suc take_add [symmetric] add.commute)
  qed simp
  then show ?thesis using piece_count_covers [OF assms(1)] assms(2) by simp
qed

lemma content_eqI:
  assumes "wf_info i" and "length v = content_length (info_download_type i)"
    and "length w = content_length (info_download_type i)"
    and "\<And>k. k < piece_count i \<Longrightarrow> piece_bytes i v k = piece_bytes i w k"
  shows "v = w"
proof -
  have "map (piece_bytes i v) [0..<piece_count i] = map (piece_bytes i w) [0..<piece_count i]"
    using assms(4) by simp
  then show ?thesis using concat_pieces [OF assms(1,2)] concat_pieces [OF assms(1,3)] by metis
qed

lemma piece_bytes_zero: "piece_bytes i (replicate n 0) k = replicate (length (piece_bytes i (replicate n 0) k)) 0"
  by (simp add: piece_bytes_def min_def)

section \<open>What was received\<close>

text \<open>What the receiver was told last about piece \<open>k\<close>.\<close>

fun last_piece :: "downloader_msg list \<Rightarrow> nat \<Rightarrow> u8 list option" where
  "last_piece [] k = None"
| "last_piece (PieceMsg k' len bytes # ms) k =
     (case last_piece ms k of Some b \<Rightarrow> Some b | None \<Rightarrow> if unat k' = k then Some bytes else None)"
| "last_piece (Disconnect a # ms) k = last_piece ms k"

lemma last_piece_snoc:
  "last_piece (ms @ [PieceMsg k' len bytes]) k = (if unat k' = k then Some bytes else last_piece ms k)"
  "last_piece (ms @ [Disconnect a]) k = last_piece ms k"
  by (induction ms k rule: last_piece.induct) (auto split: option.splits)

lemma last_piece_mem:
  "last_piece ms k = Some bytes \<Longrightarrow> \<exists>k' len. PieceMsg k' len bytes \<in> set ms \<and> unat k' = k"
  by (induction ms k rule: last_piece.induct) (auto split: option.splits if_splits)

lemma last_piece_known:
  "PieceMsg k' len bytes \<in> set ms \<Longrightarrow> unat k' = k \<Longrightarrow> \<exists>b. last_piece ms k = Some b"
  by (induction ms k rule: last_piece.induct) (auto split: option.splits)

end
