(* ===== verification/SessionInv.thy ===== *)
theory SessionInv
  imports Session
begin

text \<open>
  What holds in every reachable state of a session: the lock is used as it should be, the bytes
  assembled so far are validated pieces, and with honest and calm peers on working links every
  marked piece is known to the receiver, in the channel or in the hands of the task that holds
  the lock.
\<close>

section \<open>The lock\<close>

text \<open>
  Nobody is in the queue twice; a task with a piece on its way into the channel is the holder;
  whoever is in the queue is at a point that wants the lock or holds it.
\<close>

fun sends :: "session \<Rightarrow> lock_user \<Rightarrow> bool" where
  "sends s (ByTask n) \<longleftrightarrow> n < length (tasks s) \<and> holds_lock (tk_pc (tasks s ! n))"
| "sends s ByReceiver \<longleftrightarrow> False"

definition lock_ok :: "session \<Rightarrow> bool" where
  "lock_ok s \<longleftrightarrow> distinct (lock_queue s) \<and>
     (\<forall>u. sends s u \<longrightarrow> (\<exists>q. lock_queue s = u # q)) \<and>
     (\<forall>u \<in> set (lock_queue s). wants_to_lock s u \<or> sends s u)"

lemma step_task_AtSend:
  assumes "step_task env inp n s = (AtSend m, dl)"
  obtains k where "tk_pc (tasks s ! n) = AtMark k"
  using assms task_step_AtSend unfolding step_task_def by metis

lemma put_task_simps [simp]:
  "length (tasks (put_task n t s)) = length (tasks s)"
  "lock_queue (put_task n t s) = lock_queue s" "to_check (put_task n t s) = to_check s"
  "shared_bitfield (put_task n t s) = shared_bitfield s" "chan (put_task n t s) = chan s"
  "received (put_task n t s) = received s" "out_bytes (put_task n t s) = out_bytes s"
  "outcome (put_task n t s) = outcome s"
  by (cases t; simp add: put_task_def)+

lemma put_task_nth:
  "n < length (tasks s) \<Longrightarrow> tasks (put_task n (pc, dl) s) ! j =
    (if j = n then \<lparr>tk_pc = pc, tk_dl = dl\<rparr> else tasks s ! j)"
  by (simp add: put_task_def)

lemma put_task_set:
  assumes "tk \<in> set (tasks (put_task n (pc, dl) s))"
  shows "tk = \<lparr>tk_pc = pc, tk_dl = dl\<rparr> \<or> tk \<in> set (tasks s)"
  using assms set_update_subset_insert by (fastforce simp: put_task_def)

text \<open>Only the user \<open>w\<close> moves: outside the queue, off its head, or staying there with a piece.\<close>

definition only_moves :: "lock_user \<Rightarrow> session \<Rightarrow> session \<Rightarrow> bool" where
  "only_moves w s s' \<longleftrightarrow> (\<forall>u. u \<noteq> w \<longrightarrow> wants_to_lock s' u = wants_to_lock s u \<and> sends s' u = sends s u)"

lemma only_moves_task:
  assumes "n < length (tasks s)" and "tasks s' = tasks (put_task n t s)" and "to_check s' = to_check s"
  shows "only_moves (ByTask n) s s'"
  unfolding only_moves_def
proof (intro allI impI)
  fix u
  assume "u \<noteq> ByTask n"
  then show "wants_to_lock s' u = wants_to_lock s u \<and> sends s' u = sends s u"
    using assms by (cases u; cases t) (simp_all add: put_task_nth)
qed

lemma only_moves_receiver:
  assumes "tasks s' = tasks s"
  shows "only_moves ByReceiver s s'"
  unfolding only_moves_def
proof (intro allI impI)
  fix u
  assume "u \<noteq> ByReceiver"
  then show "wants_to_lock s' u = wants_to_lock s u \<and> sends s' u = sends s u"
    using assms by (cases u) simp_all
qed

lemma lock_ok_free:
  assumes "lock_ok s" "only_moves w s s'" "lock_queue s' = lock_queue s"
    and "\<not> sends s' w" "w \<in> set (lock_queue s) \<Longrightarrow> wants_to_lock s' w"
  shows "lock_ok s'"
  using assms unfolding lock_ok_def only_moves_def by metis

lemma lock_ok_release:
  assumes "lock_ok s" "only_moves w s s'" "lock_queue s = w # q" "lock_queue s' = q" "\<not> sends s' w"
  shows "lock_ok s'"
proof -
  have "\<not> sends s u" if "u \<noteq> w" for u using assms(1,3) that by (auto simp: lock_ok_def)
  then have "\<not> sends s' u" for u using assms(2,5) unfolding only_moves_def by metis
  moreover have "w \<notin> set q" "distinct q" "\<forall>u \<in> set q. wants_to_lock s u \<or> sends s u"
    using assms(1,3) by (auto simp: lock_ok_def)
  ultimately show ?thesis using assms(2,4) unfolding lock_ok_def only_moves_def by metis
qed

lemma lock_ok_keep:
  assumes "lock_ok s" "only_moves w s s'" "lock_queue s = w # q" "lock_queue s' = w # q" "sends s' w"
  shows "lock_ok s'"
proof -
  have "\<not> sends s u" if "u \<noteq> w" for u using assms(1,3) that by (auto simp: lock_ok_def)
  then have "\<not> sends s' u" if "u \<noteq> w" for u using that assms(2) unfolding only_moves_def by metis
  moreover have "distinct (w # q)" "\<forall>u \<in> set q. wants_to_lock s u \<or> sends s u" "w \<notin> set q"
    using assms(1,3) by (auto simp: lock_ok_def)
  ultimately show ?thesis using assms(2,4,5) unfolding lock_ok_def only_moves_def by (metis set_ConsD)
qed

lemma send_step_simps [simp]:
  "length (tasks (send_step env n m s)) = length (tasks s)"
  "tasks (send_step env n m s) = tasks (put_task n (step_task env KeepAliveTimeout n s) s)"
  "to_check (send_step env n m s) = to_check s" "lock_queue (send_step env n m s) = lock_queue s"
  "shared_bitfield (send_step env n m s) = shared_bitfield s" "received (send_step env n m s) = received s"
  "out_bytes (send_step env n m s) = out_bytes s" "outcome (send_step env n m s) = outcome s"
  by (simp_all add: send_step_def)

lemma recv_step_simps [simp]:
  "tasks (recv_step i m ms s) = tasks s" "lock_queue (recv_step i m ms s) = lock_queue s"
  "shared_bitfield (recv_step i m ms s) = shared_bitfield s" "chan (recv_step i m ms s) = ms"
  "received (recv_step i m ms s) = received s @ [m]"
  by (simp_all add: recv_step_def Let_def split: res.splits)

lemma check_step_simps [simp]:
  "tasks (check_step q s) = tasks s" "lock_queue (check_step q s) = q" "to_check (check_step q s) = False"
  "shared_bitfield (check_step q s) = shared_bitfield s" "chan (check_step q s) = chan s"
  "received (check_step q s) = received s" "out_bytes (check_step q s) = out_bytes s"
  by (simp_all add: check_step_def Let_def split: res.splits)


lemma step_task_holds:
  "holds_lock (fst (step_task env inp n s)) \<Longrightarrow> \<exists>k. tk_pc (tasks s ! n) = AtMark k"
  by (cases "step_task env inp n s"; cases "fst (step_task env inp n s)") (auto elim: step_task_AtSend)

lemma put_task_sends:
  "n < length (tasks s) \<Longrightarrow> tasks s' = tasks (put_task n t s) \<Longrightarrow> sends s' (ByTask n) = holds_lock (fst t)"
  by (cases t) (simp add: put_task_nth)

lemma locked_step_simps [simp]:
  "tasks (locked_step env n q s) = tasks (put_task n (step_task env KeepAliveTimeout n s) s)"
  "to_check (locked_step env n q s) = to_check s" "chan (locked_step env n q s) = chan s"
  "received (locked_step env n q s) = received s" "out_bytes (locked_step env n q s) = out_bytes s"
  "outcome (locked_step env n q s) = outcome s"
  "lock_queue (locked_step env n q s) =
    (if holds_lock (fst (step_task env KeepAliveTimeout n s)) then ByTask n # q else q)"
  "shared_bitfield (locked_step env n q s) = own_bitfield (snd (step_task env KeepAliveTimeout n s))"
  by (simp_all add: locked_step_def split: prod.splits)

lemma lock_ok_step:
  assumes ok: "lock_ok s" and step: "session_step envs ok' i s s'"
  shows "lock_ok s'"
  using step
proof cases
  case (ask u)
  have "wants_to_lock s' v = wants_to_lock s v \<and> sends s' v = sends s v" for v using ask(1) by (cases v) simp_all
  then show ?thesis using ok ask by (auto simp: lock_ok_def)
next
  case (locked n q)
  let ?t = "step_task (envs n) KeepAliveTimeout n s"
  have mv: "only_moves (ByTask n) s s'" using locked by (intro only_moves_task [of _ _ _ ?t]) simp_all
  have sends: "sends s' (ByTask n) = holds_lock (fst ?t)" using locked by (intro put_task_sends) simp_all
  show ?thesis
  proof (cases "holds_lock (fst ?t)")
    case True
    then show ?thesis using lock_ok_keep [OF ok mv locked(4)] locked(1) sends by simp
  next
    case False
    then show ?thesis using lock_ok_release [OF ok mv locked(4)] locked(1) sends by simp
  qed
next
  case (inp n inp)
  let ?t = "step_task (envs n) inp n s"
  have mv: "only_moves (ByTask n) s s'" using inp by (intro only_moves_task [of _ _ _ ?t]) simp_all
  have "\<not> holds_lock (fst ?t)" using step_task_holds [of "envs n" inp n s] inp(4) by auto
  then have "\<not> sends s' (ByTask n)" using put_task_sends [of n s s' ?t] inp by simp
  moreover have "ByTask n \<notin> set (lock_queue s)" using ok inp(4) by (auto simp: lock_ok_def)
  ultimately show ?thesis using lock_ok_free [OF ok mv] inp(1) by simp
next
  case (send n m q)
  let ?t = "step_task (envs n) KeepAliveTimeout n s"
  have mv: "only_moves (ByTask n) s s'" using send by (intro only_moves_task [of _ _ _ ?t]) simp_all
  have "\<not> holds_lock (fst ?t)" using step_task_holds [of "envs n" KeepAliveTimeout n s] send(4) by auto
  then have "\<not> sends s' (ByTask n)" using put_task_sends [of n s s' ?t] send by simp
  then show ?thesis using lock_ok_release [OF ok mv send(5)] send(1) by simp
next
  case (disconnect n m)
  let ?t = "step_task (envs n) KeepAliveTimeout n s"
  have mv: "only_moves (ByTask n) s s'" using disconnect by (intro only_moves_task [of _ _ _ ?t]) simp_all
  have "\<not> holds_lock (fst ?t)" using step_task_holds [of "envs n" KeepAliveTimeout n s] disconnect(4) by auto
  then have "\<not> sends s' (ByTask n)" using put_task_sends [of n s s' ?t] disconnect by simp
  moreover have "ByTask n \<notin> set (lock_queue s)" using ok disconnect(4) by (auto simp: lock_ok_def)
  ultimately show ?thesis using lock_ok_free [OF ok mv] disconnect(1) by simp
next
  case (recv m ms)
  then have mv: "only_moves ByReceiver s s'" by (intro only_moves_receiver) simp
  have "ByReceiver \<notin> set (lock_queue s)" using ok recv(3) by (auto simp: lock_ok_def)
  then show ?thesis using lock_ok_free [OF ok mv] recv(1) by simp
next
  case (check q)
  then have mv: "only_moves ByReceiver s s'" by (intro only_moves_receiver) simp
  then show ?thesis using lock_ok_release [OF ok mv check(4)] check(1) by simp
next
  case closed
  then have mv: "only_moves ByReceiver s s'" by (intro only_moves_receiver) simp
  have "ByReceiver \<notin> set (lock_queue s)" using ok closed(3) by (auto simp: lock_ok_def)
  then show ?thesis using lock_ok_free [OF ok mv] closed(1) by simp
qed

section \<open>Steps of tasks and steps of others\<close>

text \<open>What the task \<open>tk\<close> puts into the channel with its next step.\<close>

definition sent_now :: "env \<Rightarrow> task \<Rightarrow> downloader_msg list" where
  "sent_now env tk =
     (let put = (\<lambda>m. if env_tx_ok env (tx_sent (tk_dl tk)) m then [m] else []) in
      case tk_pc tk of AtSend m \<Rightarrow> put m | AtDisconnect \<Rightarrow> put (Disconnect (sd_addr (tk_dl tk))) | _ \<Rightarrow> [])"

definition task_moves ::
  "(nat \<Rightarrow> env) \<Rightarrow> (seed_downloader \<Rightarrow> download_input \<Rightarrow> bool) \<Rightarrow> nat \<Rightarrow> session \<Rightarrow> session \<Rightarrow> bool"
where
  "task_moves envs ok n s s' \<longleftrightarrow> n < length (tasks s) \<and> (\<forall>r. tk_pc (tasks s ! n) \<noteq> Ended r) \<and>
     (\<exists>inp pc dl. step_task (envs n) inp n s = (pc, dl) \<and>
        (tk_pc (tasks s ! n) = AtSelect \<longrightarrow> ok (tk_dl (tasks s ! n)) inp) \<and>
        tasks s' = tasks (put_task n (pc, dl) s) \<and> shared_bitfield s' = own_bitfield dl) \<and>
     chan s' = chan s @ sent_now (envs n) (tasks s ! n) \<and> received s' = received s \<and> to_check s' = to_check s \<and>
     out_bytes s' = out_bytes s \<and> outcome s = None \<and> outcome s' = None"

lemma step_task_own:
  "\<not> wants_lock (tk_pc (tasks s ! n)) \<Longrightarrow> own_bitfield (snd (step_task env inp n s)) = shared_bitfield s"
  using unlocked_step_own [of "tk_pc (tasks s ! n)" env inp "(tk_dl (tasks s ! n))\<lparr>own_bitfield := shared_bitfield s\<rparr>"]
  by (cases "step_task env inp n s") (simp add: step_task_def)

lemma session_step_cases:
  assumes "session_step envs ok i s s'"
  obtains (task) n where "task_moves envs ok n s s'"
  | (ask) u where "outcome s = None" "wants_to_lock s u" "u \<notin> set (lock_queue s)" "s' = s\<lparr>lock_queue := lock_queue s @ [u]\<rparr>"
  | (recv) m ms where "outcome s = None" "\<not> to_check s" "chan s = m # ms" "s' = recv_step i m ms s"
  | (check) q where "outcome s = None" "to_check s" "lock_queue s = ByReceiver # q" "s' = check_step q s"
  | (closed) "outcome s = None" "\<not> to_check s" "chan s = []" "\<forall>tk \<in> set (tasks s). \<exists>r. tk_pc tk = Ended r"
      "s' = s\<lparr>outcome := Some (Err IoFailed)\<rparr>"
  using assms
proof cases
  case ask
  then show thesis using that by blast
next
  case (locked n q)
  obtain pc dl where st: "step_task (envs n) KeepAliveTimeout n s = (pc, dl)" by (metis surj_pair)
  have "sent_now (envs n) (tasks s ! n) = []" using locked(5)
    by (cases "tk_pc (tasks s ! n)") (simp_all add: sent_now_def)
  then have "task_moves envs ok n s s'"
    using locked st unfolding task_moves_def
    by (auto intro!: exI [of _ KeepAliveTimeout])
  then show thesis using that by blast
next
  case (inp n inp)
  obtain pc dl where st: "step_task (envs n) inp n s = (pc, dl)" by (metis surj_pair)
  then have "own_bitfield dl = shared_bitfield s" using step_task_own [of s n "envs n" inp] inp(4) by simp
  moreover have "sent_now (envs n) (tasks s ! n) = []" using inp(4) by (simp add: sent_now_def)
  ultimately have "task_moves envs ok n s s'"
    using inp st unfolding task_moves_def
    by (auto intro!: exI [of _ inp])
  then show thesis using that by blast
next
  case (send n m q)
  obtain pc dl where st: "step_task (envs n) KeepAliveTimeout n s = (pc, dl)" by (metis surj_pair)
  then have "own_bitfield dl = shared_bitfield s" using step_task_own [of s n "envs n" KeepAliveTimeout] send(4) by simp
  then have "task_moves envs ok n s s'"
    using send st unfolding task_moves_def
    by (auto intro!: exI [of _ KeepAliveTimeout] simp: sent_now_def send_step_def)
  then show thesis using that by blast
next
  case (disconnect n m)
  obtain pc dl where st: "step_task (envs n) KeepAliveTimeout n s = (pc, dl)" by (metis surj_pair)
  then have "own_bitfield dl = shared_bitfield s" using step_task_own [of s n "envs n" KeepAliveTimeout] disconnect(4) by simp
  then have "task_moves envs ok n s s'"
    using disconnect st unfolding task_moves_def
    by (auto intro!: exI [of _ KeepAliveTimeout] simp: sent_now_def send_step_def)
  then show thesis using that by blast
next
  case recv
  then show thesis using that by blast
next
  case check
  then show thesis using that by blast
next
  case closed
  then show thesis using that by blast
qed

text \<open>What holds of every task, with the bitfield all of them share.\<close>

definition all_tasks :: "(task_pc \<Rightarrow> seed_downloader \<Rightarrow> bool) \<Rightarrow> session \<Rightarrow> bool" where
  "all_tasks P s \<longleftrightarrow> (\<forall>n < length (tasks s).
     P (tk_pc (tasks s ! n)) ((tk_dl (tasks s ! n))\<lparr>own_bitfield := shared_bitfield s\<rparr>))"

lemma all_tasks_cong: "all_tasks P s \<Longrightarrow> tasks s' = tasks s \<Longrightarrow> shared_bitfield s' = shared_bitfield s \<Longrightarrow> all_tasks P s'"
  by (simp add: all_tasks_def)

lemma all_tasks_put:
  assumes "all_tasks P s" and "n < length (tasks s)" and "tasks s' = tasks (put_task n (pc, dl) s)"
    and "shared_bitfield s' = own_bitfield dl" and "P pc dl"
    and "\<And>pc t. P pc (t\<lparr>own_bitfield := shared_bitfield s\<rparr>) \<Longrightarrow> P pc (t\<lparr>own_bitfield := own_bitfield dl\<rparr>)"
  shows "all_tasks P s'"
  unfolding all_tasks_def
proof (intro allI impI)
  fix j assume j: "j < length (tasks s')"
  have len: "length (tasks s') = length (tasks s)" using assms(3) by simp
  show "P (tk_pc (tasks s' ! j)) ((tk_dl (tasks s' ! j))\<lparr>own_bitfield := shared_bitfield s'\<rparr>)"
  proof (cases "j = n")
    case True
    have "dl\<lparr>own_bitfield := own_bitfield dl\<rparr> = dl" by (cases dl) simp
    then show ?thesis using True assms(2,3,4,5) put_task_nth [OF assms(2)] by simp
  next
    case False
    then show ?thesis
      using assms(1,3,4,6) j len put_task_nth [OF assms(2)] by (simp add: all_tasks_def)
  qed
qed

lemma all_tasksD:
  "all_tasks P s \<Longrightarrow> n < length (tasks s) \<Longrightarrow>
   P (tk_pc (tasks s ! n)) ((tk_dl (tasks s ! n))\<lparr>own_bitfield := shared_bitfield s\<rparr>)"
  by (simp add: all_tasks_def)

section \<open>Safety of a session\<close>

definition pieces_stored :: "info \<Rightarrow> u8 list \<Rightarrow> downloader_msg list \<Rightarrow> bool" where
  "pieces_stored i v ms \<longleftrightarrow> length v = content_length (info_download_type i) \<and>
     (\<forall>k < piece_count i. piece_bytes i v k =
        (case last_piece ms k of Some b \<Rightarrow> b | None \<Rightarrow> replicate (piece_size i k) 0))"

definition session_inv :: "env \<Rightarrow> info \<Rightarrow> session \<Rightarrow> bool" where
  "session_inv e i s \<longleftrightarrow>
     bf_inv (shared_bitfield s) \<and> total_pieces (shared_bitfield s) = piece_count i \<and>
     all_tasks (\<lambda>pc dl. task_hash e i pc dl \<and> task_bits i pc dl) s \<and>
     (\<forall>m \<in> set (received s) \<union> set (chan s). tx_msg_ok e i m) \<and>
     pieces_stored i (out_bytes s) (received s) \<and>
     (\<forall>r. outcome s = Some r \<longrightarrow>
        r = Ok (out_bytes s) \<and> owned (shared_bitfield s) = {..<piece_count i} \<or> (\<exists>x. r = Err x))"

lemma hash_inv_cong:
  assumes "env_sha1 e = env_sha1 e'"
  shows "hash_inv e i s = hash_inv e' i s"
  by (simp add: hash_inv_def tx_msg_ok_cong [OF assms])

lemma task_hash_cong: "env_sha1 e = env_sha1 e' \<Longrightarrow> task_hash e i pc s = task_hash e' i pc s"
  using hash_inv_cong [of e e'] tx_msg_ok_cong [of e e'] by (simp add: task_hash_def)

lemma task_hash_bitfield [simp]: "task_hash e i pc (s\<lparr>own_bitfield := b\<rparr>) = task_hash e i pc s"
  by (simp add: task_hash_def hash_inv_def)

lemma wf_download_info: "wf_download i \<Longrightarrow> wf_info i" "wf_download i \<Longrightarrow> content_length (info_download_type i) < 2 ^ 64"
  by (simp_all add: wf_download_def wf_info_def)

lemma task_bits_bitfield:
  "task_bits i pc (s\<lparr>own_bitfield := b\<rparr>) \<longleftrightarrow> bf_inv b \<and> total_pieces b = piece_count i \<and>
     (\<forall>k. pending_pieces s k \<noteq> None \<longrightarrow> unat k < piece_count i) \<and> (\<forall>k. pc = AtMark k \<longrightarrow> unat k < piece_count i)"
  by (auto simp: task_bits_def bits_ok_def)

lemma store_msg_inv:
  assumes wf: "wf_download i" and ok: "tx_msg_ok e i m" and stored: "pieces_stored i v ms"
  obtains v' where "store_msg i m v = Ok v'" "pieces_stored i v' (ms @ [m])"
proof (cases m)
  case (Disconnect a)
  then show thesis using that stored by (simp add: store_msg_def last_piece_snoc pieces_stored_def)
next
  case (PieceMsg k len bytes)
  note L = wf_download_info(2) [OF wf]
  have v: "length v = content_length (info_download_type i)" using stored by (simp add: pieces_stored_def)
  note ok = ok [unfolded PieceMsg]
  have k: "unat k < piece_count i" using ok wf by (simp add: wf_download_def)
  note fits = tx_piece_fits [OF ok L]
  let ?v = "splice_block (unat k * unat (info_piece_length i)) bytes v"
  have "length ?v = length v" using fits v by (intro length_splice_block) simp
  moreover have "piece_bytes i ?v k' = (case last_piece (ms @ [m]) k' of Some b \<Rightarrow> b | None \<Rightarrow> replicate (piece_size i k') 0)"
    if "k' < piece_count i" for k'
    using piece_bytes_splice [OF wf_download_info(1) [OF wf] k that v fits(3)] stored that
    by (simp add: PieceMsg last_piece_snoc pieces_stored_def)
  ultimately show thesis using that store_piece [OF ok L v] v by (simp add: PieceMsg pieces_stored_def)
qed

lemma recv_step_inv:
  assumes wf: "wf_download i" and inv: "session_inv e i s" and ch: "chan s = m # ms" and out: "outcome s = None"
  shows "session_inv e i (recv_step i m ms s)"
proof -
  obtain v' where v': "store_msg i m (out_bytes s) = Ok v'" "pieces_stored i v' (received s @ [m])"
    using store_msg_inv [OF wf, of e m "out_bytes s" "received s"] inv ch by (auto simp: session_inv_def)
  then have "recv_step i m ms s = s\<lparr>chan := ms, received := received s @ [m], out_bytes := v', to_check := True\<rparr>"
    by (simp add: recv_step_def)
  with inv ch out v'(2) show ?thesis by (auto simp: session_inv_def all_tasks_def)
qed

lemma check_step_outcome:
  assumes bf: "bf_inv (shared_bitfield s)"
  shows "outcome (check_step q s) =
    (if owned (shared_bitfield s) = {..<total_pieces (shared_bitfield s)} then Some (Ok (out_bytes s)) else None)"
proof -
  obtain left where left: "remaining (shared_bitfield s) = Ok left" using remaining_ring [OF bf] by blast
  then show ?thesis using remaining_zero_iff [OF bf] by (auto simp: check_step_def)
qed

lemma task_moves_inv:
  assumes sha: "\<forall>n. env_sha1 (envs n) = env_sha1 e" and inv: "session_inv e i s"
    and step: "task_moves envs ok n s s'"
  shows "session_inv e i s'"
proof -
  obtain inp pc dl where n: "n < length (tasks s)" and st: "step_task (envs n) inp n s = (pc, dl)"
    and s': "tasks s' = tasks (put_task n (pc, dl) s)" "shared_bitfield s' = own_bitfield dl"
    using step by (auto simp: task_moves_def)
  let ?tk = "tasks s ! n"
  let ?dl = "(tk_dl ?tk)\<lparr>own_bitfield := shared_bitfield s\<rparr>"
  have all: "all_tasks (\<lambda>pc dl. task_hash e i pc dl \<and> task_bits i pc dl) s" using inv by (simp add: session_inv_def)
  have pre: "task_hash e i (tk_pc ?tk) ?dl" "task_bits i (tk_pc ?tk) ?dl" using all_tasksD [OF all n] by simp_all
  have run: "task_step (envs n) inp (tk_pc ?tk, ?dl) = (pc, dl)" using st by (simp add: step_task_def)
  have post: "task_hash e i pc dl" "task_bits i pc dl"
    using task_step_hash [OF _ run] pre(1) task_hash_cong sha task_step_bits [OF pre(2) run] by blast+
  then have bf: "bf_inv (own_bitfield dl)" "total_pieces (own_bitfield dl) = piece_count i"
    by (simp_all add: task_bits_def bits_ok_def)
  have "all_tasks (\<lambda>pc dl. task_hash e i pc dl \<and> task_bits i pc dl) s'"
    by (rule all_tasks_put [OF all n s']) (use post bf in \<open>simp_all add: task_bits_bitfield\<close>)
  moreover have "tx_msg_ok e i m" if "m \<in> set (sent_now (envs n) ?tk)" for m
    using that pre(1) by (auto simp: sent_now_def Let_def task_hash_def split: task_pc.splits if_splits)
  ultimately show ?thesis
    using step inv bf s'(2) by (auto simp: session_inv_def task_moves_def)
qed

lemma session_step_inv:
  assumes wf: "wf_download i" and sha: "\<forall>n. env_sha1 (envs n) = env_sha1 e" and inv: "session_inv e i s"
    and step: "session_step envs ok i s s'"
  shows "session_inv e i s'"
  using step
proof (cases rule: session_step_cases)
  case (task n)
  then show ?thesis by (rule task_moves_inv [OF sha inv])
next
  case (recv m ms)
  then show ?thesis using recv_step_inv [OF wf inv] by simp
next
  case (check q)
  have "bf_inv (shared_bitfield s)" "total_pieces (shared_bitfield s) = piece_count i"
    using inv by (simp_all add: session_inv_def)
  then show ?thesis
    using inv check check_step_outcome [of s q] by (auto simp: session_inv_def all_tasks_def)
next
  case (ask u)
  with inv show ?thesis by (simp add: session_inv_def all_tasks_def)
next
  case closed
  with inv show ?thesis by (simp add: session_inv_def all_tasks_def)
qed

section \<open>Honest and calm peers on working links\<close>

definition ideal_env :: "info \<Rightarrow> u8 list \<Rightarrow> env \<Rightarrow> bool" where
  "ideal_env i content env \<longleftrightarrow> link_up env \<and> order_ok env \<and> (\<forall>sent m. env_tx_ok env sent m) \<and>
     (\<forall>k < piece_count i. info_pieces i ! k = env_sha1 env (piece_bytes i content k))"

text \<open>
  A step of a task either marks a piece and is left with exactly its bytes to send, or marks
  nothing and has nothing to send.
\<close>

definition delivers :: "info \<Rightarrow> u8 list \<Rightarrow> task_pc \<Rightarrow> seed_downloader \<Rightarrow> task_pc \<Rightarrow> seed_downloader \<Rightarrow> bool" where
  "delivers i content pc s pc' s' \<longleftrightarrow>
     (\<exists>k len. pc = AtMark k \<and> pc' = AtSend (PieceMsg k len (piece_bytes i content (unat k))) \<and>
        owned (own_bitfield s') = insert (unat k) (owned (own_bitfield s))) \<or>
     (\<forall>m. pc' \<noteq> AtSend m) \<and> owned (own_bitfield s') = owned (own_bitfield s)"

lemma mark_sends:
  assumes env: "ideal_env i content env" "wf_download i" "piece_count i mod 8 \<noteq> 0"
    and content: "length content = content_length (info_download_type i)"
    and ready: "mark_ready (honest i content) i k s" and step: "task_step env inp (AtMark k, s) = (pc', s')"
  shows "\<exists>len. pc' = AtSend (PieceMsg k len (piece_bytes i content (unat k))) \<and>
    owned (own_bitfield s') = insert (unat k) (owned (own_bitfield s))"
proof -
  obtain r s1 where run: "mark_piece env k s = (r, s1)" by (metis surj_pair)
  obtain dl where dl: "pending_pieces s k = Some dl" using ready by (auto simp: mark_ready_def)
  note h = honest_mark [OF env(2) content ready dl]
  have "validate_piece env (dl_bytes dl) (piece_hash dl)"
    using env(1) h by (simp add: ideal_env_def validate_piece_def)
  then have "r = Ok (PieceMsg k (dl_piece_length dl) (dl_bytes dl))"
    "owned (own_bitfield s1) = insert (unat k) (owned (own_bitfield s))"
    using mark_step_run(1,2) [OF ready dl run] env(3) by auto
  then show ?thesis using run step h(1) by (auto simp: task_step_def)
qed

lemma mark_delivers:
  assumes "ideal_env i content env" "wf_download i" "piece_count i mod 8 \<noteq> 0"
    and "length content = content_length (info_download_type i)"
    and "mark_ready (honest i content) i k s" and "task_step env inp (AtMark k, s) = (pc', s')"
  shows "delivers i content (AtMark k) s pc' s'"
  using mark_sends [OF assms] by (auto simp: delivers_def)

lemma task_step_ideal:
  assumes env: "ideal_env i content env" "wf_download i" "piece_count i mod 8 \<noteq> 0"
    and content: "length content = content_length (info_download_type i)"
    and inv: "pc_pipe (honest i content) i pc s" "pc_calm pc s" and live: "\<forall>r. pc \<noteq> Ended r"
    and ok: "pc = AtSelect \<Longrightarrow> calm_input (honest i content) s inp"
    and step: "task_step env inp (pc, s) = (pc', s')"
  shows "pc_pipe (honest i content) i pc' s'" and "pc_calm pc' s'" and "delivers i content pc s pc' s'"
proof -
  let ?Q = "honest i content"
  have e: "link_up env" "order_ok env" using env(1) by (simp_all add: ideal_env_def)
  have law: "pc = AtSelect \<Longrightarrow> lawful_input ?Q s inp" using ok by (simp add: calm_input_def)
  show "pc_pipe ?Q i pc' s'" 
    using task_step_pipe(1) [OF e env(2) inv(1) live law step] by (simp add: step_ok_def)
  show "pc_calm pc' s'"
    using task_step_pipe(2) [OF e env(2) inv(1) live law step inv(2)] ok by blast
  show "delivers i content pc s pc' s'"
  proof (cases "\<exists>k. pc = AtMark k")
    case True
    then show ?thesis using mark_delivers [OF env content] inv(1) step by auto
  next
    case False
    then have none: "pc' \<noteq> AtSend m" for m using task_step_AtSend step by metis
    have "owned (own_bitfield s') = owned (own_bitfield s)"
    proof (cases "wants_lock pc")
      case True
      then consider "pc = AtHead" | "pc = AtPick" using False by (cases pc) auto
      then show ?thesis
      proof cases
        case 1
        then show ?thesis using head_step_pipe [of ?Q i s env inp pc' s'] inv(1) step by simp
      next
        case 2
        then show ?thesis
          using pick_step_pipe(4) [OF e(1) env(2), of ?Q s inp pc' s'] inv(1) step by (simp add: same_rest_def)
      qed
    next
      case False
      then show ?thesis using unlocked_step_own step by simp
    qed
    with none show ?thesis by (simp add: delivers_def)
  qed
qed

text \<open>The messages of a session: taken from the channel, in it, or on their way into it.\<close>

definition all_msgs :: "session \<Rightarrow> downloader_msg set" where
  "all_msgs s = set (received s) \<union> set (chan s) \<union>
     {m. \<exists>n < length (tasks s). tk_pc (tasks s ! n) = AtSend m}"

definition ideal_inv :: "info \<Rightarrow> u8 list \<Rightarrow> session \<Rightarrow> bool" where
  "ideal_inv i content s \<longleftrightarrow>
     all_tasks (\<lambda>pc dl. pc_pipe (honest i content) i pc dl \<and> pc_calm pc dl) s \<and>
     (\<forall>k \<in> owned (shared_bitfield s). \<exists>k' len bytes. PieceMsg k' len bytes \<in> all_msgs s \<and> unat k' = k) \<and>
     (\<forall>k len bytes. PieceMsg k len bytes \<in> all_msgs s \<longrightarrow> bytes = piece_bytes i content (unat k))"

lemma put_task_msgs:
  assumes n: "n < length (tasks s)" and s': "tasks s' = tasks (put_task n (pc, dl) s)"
  shows "{m. \<exists>j < length (tasks s'). tk_pc (tasks s' ! j) = AtSend m} =
    {m. pc = AtSend m} \<union> {m. \<exists>j < length (tasks s). j \<noteq> n \<and> tk_pc (tasks s ! j) = AtSend m}"
  using n s' put_task_nth [OF n, of pc dl] by (auto simp: s')

lemma task_moves_ideal:
  assumes env: "\<forall>n. ideal_env i content (envs n)" "wf_download i" "piece_count i mod 8 \<noteq> 0"
    and content: "length content = content_length (info_download_type i)"
    and sinv: "session_inv e i s" and inv: "ideal_inv i content s"
    and step: "task_moves envs (calm_input (honest i content)) n s s'"
  shows "ideal_inv i content s'"
proof -
  let ?Q = "honest i content" and ?tk = "tasks s ! n"
  let ?dl = "(tk_dl ?tk)\<lparr>own_bitfield := shared_bitfield s\<rparr>"
  obtain inp pc dl where n: "n < length (tasks s)" and live: "\<forall>r. tk_pc ?tk \<noteq> Ended r"
    and st: "step_task (envs n) inp n s = (pc, dl)" and ok: "tk_pc ?tk = AtSelect \<Longrightarrow> calm_input ?Q (tk_dl ?tk) inp"
    and s': "tasks s' = tasks (put_task n (pc, dl) s)" "shared_bitfield s' = own_bitfield dl"
    and chan: "chan s' = chan s @ sent_now (envs n) ?tk" "received s' = received s"
    using step by (auto simp: task_moves_def)
  have all: "all_tasks (\<lambda>pc dl. pc_pipe ?Q i pc dl \<and> pc_calm pc dl) s" using inv by (simp add: ideal_inv_def)
  have pre: "pc_pipe ?Q i (tk_pc ?tk) ?dl" "pc_calm (tk_pc ?tk) ?dl" using all_tasksD [OF all n] by simp_all
  have run: "task_step (envs n) inp (tk_pc ?tk, ?dl) = (pc, dl)" using st by (simp add: step_task_def)
  have okd: "tk_pc ?tk = AtSelect \<Longrightarrow> calm_input ?Q ?dl inp" using ok by (simp add: calm_input_def lawful_input_def)
  have e: "ideal_env i content (envs n)" using env(1) by simp
  note new = task_step_ideal [OF e env(2,3) content pre live okd run]
  have "all_tasks (\<lambda>pc dl. task_hash e i pc dl \<and> task_bits i pc dl) s" using sinv by (simp add: session_inv_def)
  from all_tasksD [OF this n] have "task_bits i pc dl" using task_step_bits [OF _ run] by simp
  then have bf: "bf_inv (own_bitfield dl)" "total_pieces (own_bitfield dl) = piece_count i"
    by (simp_all add: task_bits_def bits_ok_def)
  have tasks': "all_tasks (\<lambda>pc dl. pc_pipe ?Q i pc dl \<and> pc_calm pc dl) s'"
  proof (rule all_tasks_put [OF all n s'])
    show "pc_pipe ?Q i pc dl \<and> pc_calm pc dl" using new by simp
    show "pc_pipe ?Q i p (t\<lparr>own_bitfield := own_bitfield dl\<rparr>) \<and> pc_calm p (t\<lparr>own_bitfield := own_bitfield dl\<rparr>)"
      if "pc_pipe ?Q i p (t\<lparr>own_bitfield := shared_bitfield s\<rparr>) \<and> pc_calm p (t\<lparr>own_bitfield := shared_bitfield s\<rparr>)" for p t
      using that pc_pipe_bitfield [OF _ bf, of ?Q p "t\<lparr>own_bitfield := shared_bitfield s\<rparr>"] by simp
  qed
  have old: "tk_pc ?tk = AtSend m \<Longrightarrow> m \<in> set (chan s')" for m
    using e chan by (simp add: sent_now_def ideal_env_def)
  have sent: "set (chan s') \<subseteq> set (chan s) \<union> {m. tk_pc ?tk = AtSend m} \<union> {Disconnect (sd_addr (tk_dl ?tk))}"
    using chan by (auto simp: sent_now_def Let_def split: task_pc.splits if_splits)
  have keep: "m \<in> all_msgs s'" if m: "m \<in> all_msgs s" for m
  proof -
    consider "m \<in> set (received s) \<union> set (chan s)"
      | j where "j < length (tasks s)" "j \<noteq> n" "tk_pc (tasks s ! j) = AtSend m" | "tk_pc ?tk = AtSend m"
      using m by (auto simp: all_msgs_def)
    then show ?thesis
    proof cases
      case 1
      then show ?thesis using chan by (auto simp: all_msgs_def)
    next
      case 2
      then show ?thesis unfolding all_msgs_def put_task_msgs [OF n s'(1)] by blast
    next
      case 3
      then show ?thesis using old by (auto simp: all_msgs_def)
    qed
  qed
  have origin: "m \<in> all_msgs s \<or> (\<exists>a. m = Disconnect a) \<or> pc = AtSend m" if "m \<in> all_msgs s'" for m
    using that sent n unfolding all_msgs_def put_task_msgs [OF n s'(1)] chan(2) by (elim UnE) blast+
  have exact: "bytes = piece_bytes i content (unat k)" if "PieceMsg k len bytes \<in> all_msgs s'" for k len bytes
    using origin [OF that] inv new(3) unfolding ideal_inv_def delivers_def by auto
  have known: "\<exists>k' len bytes. PieceMsg k' len bytes \<in> all_msgs s' \<and> unat k' = k"
    if k: "k \<in> owned (shared_bitfield s')" for k
  proof (cases "k \<in> owned (shared_bitfield s)")
    case True
    then show ?thesis using inv keep unfolding ideal_inv_def by blast
  next
    case False
    then obtain k' len where "pc = AtSend (PieceMsg k' len (piece_bytes i content (unat k')))" "unat k' = k"
      using k new(3) s'(2) by (auto simp: delivers_def)
    then show ?thesis unfolding all_msgs_def put_task_msgs [OF n s'(1)] by blast
  qed
  show ?thesis using tasks' known exact unfolding ideal_inv_def by blast
qed

lemma ideal_inv_cong:
  assumes "ideal_inv i content s" and "tasks s' = tasks s" and "shared_bitfield s' = shared_bitfield s"
    and "set (received s') \<union> set (chan s') = set (received s) \<union> set (chan s)"
  shows "ideal_inv i content s'"
proof -
  have "all_msgs s' = all_msgs s" using assms(2,4) by (simp add: all_msgs_def)
  then show ?thesis using assms(1) all_tasks_cong [OF _ assms(2,3)] assms(3) unfolding ideal_inv_def by simp
qed

lemma ideal_step:
  assumes env: "\<forall>n. ideal_env i content (envs n)" "wf_download i" "piece_count i mod 8 \<noteq> 0"
    and content: "length content = content_length (info_download_type i)"
    and sinv: "session_inv e i s" and inv: "ideal_inv i content s"
    and step: "session_step envs (calm_input (honest i content)) i s s'"
  shows "ideal_inv i content s'"
  using step
proof (cases rule: session_step_cases)
  case (task n)
  then show ?thesis by (rule task_moves_ideal [OF env content sinv inv])
qed (auto intro: ideal_inv_cong [OF inv])

section \<open>The start of a session\<close>

text \<open>The peers \<open>pick_seeds\<close> accepts, and what must not happen while it looks at them.\<close>

definition accepts :: "peer_env \<Rightarrow> u8 list \<Rightarrow> u8 list \<Rightarrow> usize \<Rightarrow> socket_addr \<Rightarrow> bool" where
  "accepts pe ident ih n addr \<longleftrightarrow> \<not> pe_timeout pe addr \<and> check_is_seed pe addr ident ih n = Ok ()"

definition checks_end :: "peer_env \<Rightarrow> u8 list \<Rightarrow> u8 list \<Rightarrow> usize \<Rightarrow> socket_addr \<Rightarrow> bool" where
  "checks_end pe ident ih n addr \<longleftrightarrow> pe_timeout pe addr \<or>
     check_is_seed pe addr ident ih n = Ok () \<and> pe_peer_addr pe addr = Some addr \<or>
     (\<exists>e. check_is_seed pe addr ident ih n = Err e)"

lemma pick_seeds_loop_eq:
  "k < max_seeds \<Longrightarrow> \<forall>addr \<in> set addrs. checks_end pe ident ih n addr \<Longrightarrow>
   pick_seeds_loop pe ident ih n i b k addrs =
     Ok (map (new_downloader i b) (take (max_seeds - k) (filter (accepts pe ident ih n) addrs)))"
proof (induction addrs arbitrary: k)
  case (Cons addr addrs)
  then show ?case
  proof (cases "accepts pe ident ih n addr")
    case True
    then have acc: "\<not> pe_timeout pe addr" "check_is_seed pe addr ident ih n = Ok ()" "pe_peer_addr pe addr = Some addr"
      using Cons.prems(2) by (auto simp: accepts_def checks_end_def)
    show ?thesis
    proof (cases "k + 1 = max_seeds")
      case True
      then have "max_seeds - k = Suc 0" by simp
      with acc True \<open>accepts pe ident ih n addr\<close> show ?thesis by simp
    next
      case False
      then have "k + 1 < max_seeds" "max_seeds - k = Suc (max_seeds - (k + 1))" using Cons.prems(1) by simp_all
      with acc Cons False \<open>accepts pe ident ih n addr\<close> show ?thesis by simp
    qed
  next
    case False
    then have "pick_seeds_loop pe ident ih n i b k (addr # addrs) = pick_seeds_loop pe ident ih n i b k addrs"
      using Cons.prems(2) by (auto simp: accepts_def checks_end_def)
    with False Cons show ?thesis by simp
  qed
qed simp

lemma pick_seeds_loop_shape:
  "pick_seeds_loop pe ident ih n i b k addrs = Ok dls \<Longrightarrow> dl \<in> set dls \<Longrightarrow> dl \<in> range (new_downloader i b)"
proof (induction addrs arbitrary: k dls)
  case (Cons addr addrs)
  then show ?case
    by (auto simp: Let_def and_then_Ok_iff split: if_splits res.splits option.splits)
qed simp

lemma start_download_shape:
  assumes wf: "wf_info i" and newf: "new_file ident i peers = Ok f" and start: "start_download pe hash f = Ok s"
  defines "b \<equiv> zero_pieces (of_nat (piece_count i))"
  shows "shared_bitfield s = b" and "set (tasks s) \<subseteq> range (\<lambda>a. spawn (new_downloader i b a))"
    and "chan s = []" and "received s = []" and "outcome s = None" and "lock_queue s = []" and "to_check s = False"
    and "out_bytes s = replicate (content_length (info_download_type i)) 0"
proof -
  have f: "file_info f = i" "file_bytes f = replicate (content_length (info_download_type i)) 0"
    using newf wf_info_len [OF wf]
    by (auto simp: new_file_def total_length_def download_len_eq unat_of_nat_u64)
  obtain dls where dls: "pick_seeds pe hash b f = Ok dls"
    and s: "s = \<lparr>shared_bitfield = b, lock_queue = [], tasks = map spawn dls, chan = [], out_bytes = file_bytes f,
           received = [], to_check = False, outcome = None\<rparr>"
    using start by (auto simp: start_download_def f num_pieces_eq [OF wf] b_def Let_def and_then_Ok_iff)
  have "dl \<in> range (new_downloader i b)" if "dl \<in> set dls" for dl
    using dls that pick_seeds_loop_shape unfolding pick_seeds_def f and_then_Ok_iff by blast
  then show "set (tasks s) \<subseteq> range (\<lambda>a. spawn (new_downloader i b a))" using s by fastforce
  show "shared_bitfield s = b" "chan s = []" "received s = []" "outcome s = None" "lock_queue s = []" "to_check s = False"
    "out_bytes s = replicate (content_length (info_download_type i)) 0"
    using s f by simp_all
qed

lemma start_session_inv:
  assumes wf: "wf_download i" and start: "new_file ident i peers = Ok f" "start_download pe hash f = Ok s"
  shows "session_inv e i s" and "ideal_inv i content s" and "lock_ok s"
proof -
  have wfi: "wf_info i" using wf by (simp add: wf_download_def)
  note shape = start_download_shape [OF wfi start]
  let ?b = "zero_pieces (of_nat (piece_count i)) :: bitfield"
  have tot: "total_pieces ?b = piece_count i" using wfi by (simp add: wf_info_def unat_of_nat_u32)
  have task: "\<exists>a. tasks s ! n = spawn (new_downloader i ?b a)" if "n < length (tasks s)" for n
    using shape(2) nth_mem [OF that] by blast
  then have send: "tk_pc (tasks s ! n) \<noteq> AtSend m" if "n < length (tasks s)" for n m
    using that by (fastforce simp: spawn_def)
  then have msgs: "all_msgs s = {}" using shape(3,4) by (auto simp: all_msgs_def)
  have upd: "(new_downloader i ?b a)\<lparr>own_bitfield := ?b\<rparr> = new_downloader i ?b a" for a by (simp add: new_downloader_def)
  have all: "all_tasks P s" if "\<And>a. P AtHead (new_downloader i ?b a)" for P
    unfolding all_tasks_def
  proof (intro allI impI)
    fix n assume "n < length (tasks s)"
    then obtain a where "tasks s ! n = spawn (new_downloader i ?b a)" using task by blast
    then show "P (tk_pc (tasks s ! n)) ((tk_dl (tasks s ! n))\<lparr>own_bitfield := shared_bitfield s\<rparr>)"
      using that [of a] shape(1) upd by (simp add: spawn_def)
  qed
  have zero: "piece_bytes i (replicate (content_length (info_download_type i)) 0) k = replicate (piece_size i k) 0"
    if "k < piece_count i" for k
    using piece_bytes_zero length_piece_bytes [OF wfi that] by (metis length_replicate)
  have "task_hash e i AtHead (new_downloader i ?b a)" "task_bits i AtHead (new_downloader i ?b a)" for a
    using tot bf_inv_zero by (simp_all add: new_downloader_def task_hash_def hash_inv_def task_bits_def bits_ok_def)
  then show "session_inv e i s"
    using shape zero tot bf_inv_zero all by (simp add: session_inv_def pieces_stored_def)
  show "ideal_inv i content s"
    using all new_downloader_pipe [OF bf_inv_zero tot] new_downloader_calm shape(1) msgs by (simp add: ideal_inv_def)
  have "\<not> sends s u" for u
    using send by (cases u) (auto elim: holds_lock.elims)
  then show "lock_ok s" using shape(6) by (simp add: lock_ok_def)
qed

section \<open>In every reachable state\<close>

lemma session_reach_inv:
  assumes wf: "wf_download i" and sha: "\<forall>n. env_sha1 (envs n) = env_sha1 e"
  shows "session_reach envs ok i s0 s \<Longrightarrow> session_inv e i s0 \<Longrightarrow> session_inv e i s"
  by (induction rule: session_reach.induct) (blast intro: session_step_inv [OF wf sha])+

lemma session_reach_ideal:
  assumes wf: "wf_download i" and sha: "\<forall>n. env_sha1 (envs n) = env_sha1 e"
    and env: "\<forall>n. ideal_env i content (envs n)" "piece_count i mod 8 \<noteq> 0"
    and content: "length content = content_length (info_download_type i)"
    and reach: "session_reach envs (calm_input (honest i content)) i s0 s"
    and start: "session_inv e i s0" "ideal_inv i content s0"
  shows "ideal_inv i content s"
  using reach
proof (induction rule: session_reach.induct)
  case refl
  then show ?case using start(2) .
next
  case (step s s')
  have "session_inv e i s" by (rule session_reach_inv [OF wf sha step(1) start(1)])
  from ideal_step [OF env(1) wf env(2) content this step(3) step(2)] show ?case .
qed

lemma session_reach_lock: "session_reach envs ok i s0 s \<Longrightarrow> lock_ok s0 \<Longrightarrow> lock_ok s"
  by (induction rule: session_reach.induct) (blast intro: lock_ok_step)+

lemma session_step_none: "session_step envs ok i s s' \<Longrightarrow> outcome s = None"
  by (erule session_step.cases) simp_all

text \<open>The receiving loop returns with the lock in its hands, so no task then holds a piece.\<close>

lemma return_holds_lock:
  assumes "session_reach envs ok i s0 s" and "lock_ok s0" and "outcome s0 = None"
    and "outcome s = Some (Ok v)" and "n < length (tasks s)"
  shows "tk_pc (tasks s ! n) \<noteq> AtSend m"
  using assms(1,4,5)
proof (induction arbitrary: n m v rule: session_reach.induct)
  case refl
  then show ?case using assms(3) by simp
next
  case (step s s')
  have ok: "lock_ok s" using session_reach_lock step(1) assms(2) by blast
  show ?case
    using step(2)
  proof (cases rule: session_step_cases)
    case (task k)
    then show ?thesis using step(4) by (simp add: task_moves_def)
  next
    case (check q)
    have "\<not> sends s (ByTask n)" using ok check(3) unfolding lock_ok_def by (metis list.inject lock_user.distinct(1))
    then show ?thesis using check(4) step(5) by auto
  next
    case (recv k ms)
    then show ?thesis using step(4) by (auto simp: recv_step_def Let_def split: res.splits)
  qed (use step(4) in simp_all)
qed

end
