(* ===== verification/UnitTorrent.thy ===== *)
theory UnitTorrent
  imports SessionInv
begin

text \<open>
  Sessions over torrents whose pieces are single bytes, with a hash function that is constant
  and links that always work: the lemmas that build concrete runs from few steps.
\<close>

section \<open>The torrent and the downloader between two pieces\<close>

definition unit_info :: "nat \<Rightarrow> info" where
  "unit_info n = \<lparr>info_name = ''units'', info_piece_length = 1, info_pieces = replicate n (replicate 20 7),
     info_download_type = SingleFile (of_nat n)\<rparr>"

definition unit_dl :: piece_download where
  "unit_dl = \<lparr>piece_hash = replicate 20 7, dl_piece_length = 1, requested = 1, remaining_blocks = 1, dl_bytes = [0]\<rparr>"

definition unit_block :: "u32 \<Rightarrow> block_download" where
  "unit_block k = \<lparr>blk_piece_index = k, blk_begin = 0, blk_len = 1\<rparr>"

text \<open>Nothing asked for; piece \<open>k\<close> asked for; the block of piece \<open>k\<close> stored.\<close>

definition idle :: "nat \<Rightarrow> seed_downloader \<Rightarrow> bool" where
  "idle n dl \<longleftrightarrow> sd_info dl = unit_info n \<and> \<not> choked_us dl \<and> pending_pieces dl = Map.empty \<and>
     pending_blocks dl = {} \<and> inflight dl = 0"

definition awaits :: "nat \<Rightarrow> u32 \<Rightarrow> seed_downloader \<Rightarrow> bool" where
  "awaits n k dl \<longleftrightarrow> sd_info dl = unit_info n \<and> \<not> choked_us dl \<and> pending_pieces dl = [k \<mapsto> unit_dl] \<and>
     pending_blocks dl = {unit_block k} \<and> inflight dl = 1"

definition stored :: "nat \<Rightarrow> u32 \<Rightarrow> u8 \<Rightarrow> seed_downloader \<Rightarrow> bool" where
  "stored n k x dl \<longleftrightarrow> sd_info dl = unit_info n \<and> \<not> choked_us dl \<and>
     pending_pieces dl = [k \<mapsto> unit_dl\<lparr>remaining_blocks := 0, dl_bytes := [x]\<rparr>] \<and>
     pending_blocks dl = {} \<and> inflight dl = 0"

lemma idle_bitfield [simp]: "idle n (dl\<lparr>own_bitfield := b\<rparr>) = idle n dl"
  and awaits_bitfield [simp]: "awaits n k (dl\<lparr>own_bitfield := b\<rparr>) = awaits n k dl"
  and stored_bitfield [simp]: "stored n k x (dl\<lparr>own_bitfield := b\<rparr>) = stored n k x dl"
  by (simp_all add: idle_def awaits_def stored_def)

lemma unit_length: "n < 2 ^ 32 \<Longrightarrow> content_length (info_download_type (unit_info n)) = n"
  by (simp add: unit_info_def unat_of_nat_u64)

lemma unit_pieces: "n < 2 ^ 32 \<Longrightarrow> piece_count (unit_info n) = n"
  using unit_length [of n] by (simp add: piece_count_def) (simp add: unit_info_def)

lemma unit_piece_size: "n < 2 ^ 32 \<Longrightarrow> k < n \<Longrightarrow> piece_size (unit_info n) k = 1"
  using unit_length [of n] by (simp add: piece_size_def) (simp add: unit_info_def)

lemma unit_wf:
  assumes "n < 2 ^ 32"
  shows "wf_download (unit_info n)"
proof -
  have "info_piece_length (unit_info n) = 1" "length (info_pieces (unit_info n)) = n" by (simp_all add: unit_info_def)
  then show ?thesis
    using assms unit_length [OF assms] unit_pieces [OF assms]
    by (simp add: wf_download_def wf_info_def num_blocks_def)
qed

lemma unit_piece_length:
  assumes "n < 2 ^ 32" and "unat k < n"
  shows "get_piece_length (unit_info n) k = Ok 1"
proof -
  have "wf_info (unit_info n)" using unit_wf [OF assms(1)] by (simp add: wf_download_def)
  from get_piece_length_size(1) [OF this, of "unat k"] show ?thesis
    using assms unit_pieces [OF assms(1)] unit_piece_size [OF assms] by simp
qed

section \<open>Steps of a task\<close>

lemma unit_request_next:
  assumes "idle n dl"
  shows "request_next demo_env dl = (Ok AtPick, dl)"
proof -
  have "env_iter_order demo_env Map.empty = []" by (simp add: demo_env_with_def)
  then show ?thesis
    using assms by (simp add: request_next_def request_more_def idle_def max_inflight_per_peer_def bnd_def)
qed

lemma unit_unchoke:
  assumes "n < 2 ^ 32"
  shows "\<exists>dl. task_step demo_env (Received Unchoke) (AtSelect, (new_downloader (unit_info n) init a)\<lparr>own_bitfield := b\<rparr>) =
    (AtPick, dl\<lparr>own_bitfield := b\<rparr>) \<and> idle n dl"
proof -
  let ?dl = "(new_downloader (unit_info n) init a)\<lparr>own_bitfield := b, choked_us := False\<rparr>"
  have "idle n ?dl" by (simp add: idle_def new_downloader_def)
  moreover have "choked_us (new_downloader (unit_info n) init a)" by (simp add: new_downloader_def)
  moreover have "?dl\<lparr>own_bitfield := b\<rparr> = ?dl" by simp
  ultimately show ?thesis
    using unit_request_next [of n ?dl]
    by (intro exI [of _ ?dl]) (simp add: task_step_def select_input_def start_msg_def)
qed

lemma unit_store:
  assumes "awaits n k dl"
  shows "\<exists>dl'. task_step demo_env (Received (Piece k 0 [x])) (AtSelect, dl\<lparr>own_bitfield := b\<rparr>) =
    (AtMark k, dl'\<lparr>own_bitfield := b\<rparr>) \<and> stored n k x dl'"
proof -
  let ?dl = "dl\<lparr>pending_blocks := {}, inflight := 0, pending_pieces := [k \<mapsto> unit_dl\<lparr>remaining_blocks := 0, dl_bytes := [x]\<rparr>]\<rparr>"
  have "store_block k 0 [x] (dl\<lparr>own_bitfield := b\<rparr>) = (Ok True, ?dl\<lparr>own_bitfield := b\<rparr>)"
    using assms by (simp add: store_block_def Let_def splice_vec_def sub_chk_def awaits_def unit_block_def)
      (simp add: unit_dl_def)
  moreover have "stored n k x ?dl" using assms by (simp add: stored_def awaits_def)
  ultimately show ?thesis
    by (intro exI [of _ ?dl]) (simp add: task_step_def select_input_def start_msg_def bnd_def [of "store_block _ _ _"])
qed

lemma unit_mark:
  assumes "stored n k x dl" and "set_piece k b = (Ok (), b')"
  shows "\<exists>dl'. task_step demo_env inp (AtMark k, dl\<lparr>own_bitfield := b\<rparr>) =
    (AtSend (PieceMsg k 1 [x]), dl'\<lparr>own_bitfield := b'\<rparr>) \<and> idle n dl'"
proof -
  let ?dl = "dl\<lparr>pending_pieces := Map.empty\<rparr>"
  have "mark_piece demo_env k (dl\<lparr>own_bitfield := b\<rparr>) = (Ok (PieceMsg k 1 [x]), ?dl\<lparr>own_bitfield := b'\<rparr>)"
    using mark_piece_Ok [of k "dl\<lparr>own_bitfield := b\<rparr>" b' "unit_dl\<lparr>remaining_blocks := 0, dl_bytes := [x]\<rparr>" demo_env] assms
    by (simp add: stored_def) (simp add: validate_piece_def demo_env_with_def unit_dl_def)
  moreover have "idle n ?dl" using assms(1) by (simp add: stored_def idle_def)
  ultimately show ?thesis by (intro exI [of _ ?dl]) (simp add: task_step_def)
qed

lemma unit_send:
  assumes "idle n dl"
  shows "\<exists>dl'. task_step demo_env inp (AtSend m, dl\<lparr>own_bitfield := b\<rparr>) = (AtPick, dl'\<lparr>own_bitfield := b\<rparr>) \<and> idle n dl'"
proof -
  let ?dl = "dl\<lparr>tx_sent := tx_sent dl @ [m]\<rparr>"
  have "idle n ?dl" using assms by (simp add: idle_def)
  moreover from this have "request_next demo_env (?dl\<lparr>own_bitfield := b\<rparr>) = (Ok AtPick, ?dl\<lparr>own_bitfield := b\<rparr>)"
    by (intro unit_request_next [of n]) simp
  moreover have "send_tx demo_env m (dl\<lparr>own_bitfield := b\<rparr>) = (Ok (), ?dl\<lparr>own_bitfield := b\<rparr>)"
    by (cases dl) (simp add: send_tx_def demo_env_with_def)
  ultimately show ?thesis
    by (intro exI [of _ ?dl]) (simp add: task_step_def)
qed

lemma unit_pick:
  assumes n: "n < 2 ^ 32" and idle: "idle n dl" and pick: "pick_piece b = (Ok (Some k), b')" and k: "unat k < n"
  shows "\<exists>dl'. task_step demo_env inp (AtPick, dl\<lparr>own_bitfield := b\<rparr>) = (AtHead, dl'\<lparr>own_bitfield := b'\<rparr>) \<and> awaits n k dl'"
proof -
  let ?s = "dl\<lparr>own_bitfield := b'\<rparr>"
  let ?s' = "dl\<lparr>own_bitfield := b', stream_sent := stream_sent dl @ [Request k 0 1], pending_blocks := {unit_block k}, inflight := 1\<rparr>"
  have fields: "sd_info ?s = unit_info n" "pending_blocks ?s = {}" "inflight ?s = 0" "pending_pieces ?s = Map.empty"
    "\<not> choked_us ?s" using idle by (simp_all add: idle_def)
  have new: "start_dl (unit_info n) k 1 = unit_dl\<lparr>requested := 0\<rparr>"
    using k by (simp add: start_dl_def unit_info_def unit_dl_def block_size_eq)
  have "request_blocks demo_env k (unit_dl\<lparr>requested := 0\<rparr>, ?s) = (Ok (), (unit_dl, ?s'))"
    using request_blocks_eq [OF demo_env_ok(1), where dl = "unit_dl\<lparr>requested := 0\<rparr>" and j = 0 and k = k
        and len = 1 and s = ?s] fields
    by (simp add: unit_dl_def num_blocks_def burst_def after_requests_def block_at_def request_at_def
        block_len_at_def block_pos_def unit_block_def)
  then have "start_piece demo_env k ?s = (Ok (), ?s'\<lparr>pending_pieces := [k \<mapsto> unit_dl]\<rparr>)"
    using start_piece_eq [of ?s k 1 demo_env unit_dl ?s'] fields new k unit_piece_length [OF n k]
    by (simp add: unit_info_def)
  then have "bnd (with_bitfield pick_piece) (begin_piece demo_env) (dl\<lparr>own_bitfield := b\<rparr>) =
      (Ok (), ?s'\<lparr>pending_pieces := [k \<mapsto> unit_dl]\<rparr>)"
    using pick fields(4) by (simp add: with_bitfield_def begin_piece_def bnd_def [of "gets _"])
  moreover have "awaits n k (?s'\<lparr>pending_pieces := [k \<mapsto> unit_dl]\<rparr>)"
    using fields by (simp add: awaits_def)
  ultimately show ?thesis
    by (intro exI [of _ "?s'\<lparr>pending_pieces := [k \<mapsto> unit_dl]\<rparr>"]) (simp add: task_step_def)
qed

lemma unit_pick_none:
  assumes "idle n dl" and "pick_piece b = (Ok None, b')"
  shows "task_step demo_env inp (AtPick, dl\<lparr>own_bitfield := b\<rparr>) = (AtHead, dl\<lparr>own_bitfield := b'\<rparr>)"
  using assms by (simp add: task_step_def with_bitfield_def begin_piece_def)

lemma unit_head:
  assumes "remaining b = Ok left" and "left \<noteq> 0"
  shows "task_step demo_env inp (AtHead, dl\<lparr>own_bitfield := b\<rparr>) = (AtSelect, dl\<lparr>own_bitfield := b\<rparr>)"
  using assms by (simp add: task_step_def head_check_def)

section \<open>Steps of a session\<close>

definition running ::
  "bitfield \<Rightarrow> lock_user list \<Rightarrow> task list \<Rightarrow> downloader_msg list \<Rightarrow> u8 list \<Rightarrow> downloader_msg list \<Rightarrow> bool \<Rightarrow> session"
where
  "running b q ts c v ms chk = \<lparr>shared_bitfield = b, lock_queue = q, tasks = ts, chan = c, out_bytes = v,
     received = ms, to_check = chk, outcome = None\<rparr>"

abbreviation unit_reach :: "nat \<Rightarrow> (seed_downloader \<Rightarrow> download_input \<Rightarrow> bool) \<Rightarrow> session \<Rightarrow> session \<Rightarrow> bool" where
  "unit_reach n ok \<equiv> session_reach (\<lambda>_. demo_env) ok (unit_info n)"

abbreviation at :: "task_pc \<Rightarrow> seed_downloader \<Rightarrow> task" where
  "at pc dl \<equiv> \<lparr>tk_pc = pc, tk_dl = dl\<rparr>"

lemma running_simps [simp]:
  "shared_bitfield (running b q ts c v ms chk) = b" "lock_queue (running b q ts c v ms chk) = q"
  "tasks (running b q ts c v ms chk) = ts" "chan (running b q ts c v ms chk) = c"
  "out_bytes (running b q ts c v ms chk) = v" "received (running b q ts c v ms chk) = ms"
  "to_check (running b q ts c v ms chk) = chk" "outcome (running b q ts c v ms chk) = None"
  by (simp_all add: running_def)

lemma running_eqI:
  "shared_bitfield s = b \<Longrightarrow> lock_queue s = q \<Longrightarrow> tasks s = ts \<Longrightarrow> chan s = c \<Longrightarrow> out_bytes s = v \<Longrightarrow>
   received s = ms \<Longrightarrow> to_check s = chk \<Longrightarrow> outcome s = None \<Longrightarrow> s = running b q ts c v ms chk"
  by (cases s) (simp add: running_def)

lemma reach_stepI:
  "session_reach envs ok i s0 s \<Longrightarrow> session_step envs ok i s s' \<Longrightarrow> s' = s'' \<Longrightarrow> session_reach envs ok i s0 s''"
  using session_reach.step by blast

lemma put_task_tasks: "tasks (put_task j (pc, dl) s) = (tasks s)[j := at pc dl]"
  by (simp add: put_task_def)

lemma step_running:
  "ts ! j = at pc dl \<Longrightarrow> step_task env inp j (running b q ts c v ms chk) = task_step env inp (pc, dl\<lparr>own_bitfield := b\<rparr>)"
  by (simp add: step_task_def)

lemma ask_run:
  assumes "unit_reach n ok s0 (running b q ts c v ms chk)" and "wants_to_lock (running b q ts c v ms chk) u" and "u \<notin> set q"
  shows "unit_reach n ok s0 (running b (q @ [u]) ts c v ms chk)"
  by (rule reach_stepI [OF assms(1) session_step.ask [where u = u]]) (use assms in \<open>auto intro: running_eqI\<close>)

lemma locked_run:
  assumes "unit_reach n ok s0 (running b (ByTask j # q) ts c v ms chk)" and "j < length ts" and "ts ! j = at pc dl"
    and "wants_lock pc" and "task_step demo_env KeepAliveTimeout (pc, dl\<lparr>own_bitfield := b\<rparr>) = (pc', dl'\<lparr>own_bitfield := b'\<rparr>)"
  shows "unit_reach n ok s0 (running b' (if holds_lock pc' then ByTask j # q else q)
    (ts[j := at pc' (dl'\<lparr>own_bitfield := b'\<rparr>)]) c v ms chk)"
  by (rule reach_stepI [OF assms(1) session_step.locked [where n = j and q = q]])
    (use assms in \<open>auto intro!: running_eqI simp: step_running put_task_tasks\<close>)

lemma inp_run:
  assumes "unit_reach n ok s0 (running b q ts c v ms chk)" and "j < length ts" and "ts ! j = at AtSelect dl"
    and "ok dl inp" and "task_step demo_env inp (AtSelect, dl\<lparr>own_bitfield := b\<rparr>) = (pc', dl')"
  shows "unit_reach n ok s0 (running b q (ts[j := at pc' dl']) c v ms chk)"
  by (rule reach_stepI [OF assms(1) session_step.inp [where n = j and inp = inp]])
    (use assms in \<open>auto intro!: running_eqI simp: step_running put_task_tasks\<close>)

lemma send_run:
  assumes "unit_reach n ok s0 (running b (ByTask j # q) ts c v ms chk)" and "j < length ts" and "ts ! j = at (AtSend m) dl"
    and "length c < 5" and "task_step demo_env KeepAliveTimeout (AtSend m, dl\<lparr>own_bitfield := b\<rparr>) = (pc', dl')"
  shows "unit_reach n ok s0 (running b q (ts[j := at pc' dl']) (c @ [m]) v ms chk)"
proof -
  have "env_tx_ok demo_env x m" for x by (simp add: demo_env_with_def)
  then show ?thesis
    by (intro reach_stepI [OF assms(1) session_step.send [where n = j and q = q and m = m]])
      (use assms in \<open>auto intro!: running_eqI simp: send_step_def step_running put_task_tasks chan_capacity_def\<close>)
qed

lemma recv_run:
  assumes "unit_reach n ok s0 (running b q ts (m # ms) v rec False)" and "store_msg (unit_info n) m v = Ok v'"
  shows "unit_reach n ok s0 (running b q ts ms v' (rec @ [m]) True)"
  by (rule reach_stepI [OF assms(1) session_step.recv [where m = m and ms = ms]])
    (use assms in \<open>auto intro!: running_eqI simp: recv_step_def\<close>)

lemma check_run:
  assumes "unit_reach n ok s0 (running b (ByReceiver # q) ts c v ms True)" and "remaining b = Ok left"
  shows "unit_reach n ok s0 ((running b q ts c v ms False)\<lparr>outcome := (if left = 0 then Some (Ok v) else None)\<rparr>)"
  by (rule reach_stepI [OF assms(1) session_step.check [where q = q]])
    (use assms in \<open>simp_all add: check_step_def running_def\<close>)

text \<open>A point at which the lock is taken and given back, with nobody else in the queue.\<close>

lemma lock_run:
  assumes "unit_reach n ok s0 (running b [] ts c v ms chk)" and "j < length ts" and "ts ! j = at pc dl"
    and "wants_lock pc" and "task_step demo_env KeepAliveTimeout (pc, dl\<lparr>own_bitfield := b\<rparr>) = (pc', dl'\<lparr>own_bitfield := b'\<rparr>)"
    and "\<not> holds_lock pc'"
  shows "unit_reach n ok s0 (running b' [] (ts[j := at pc' (dl'\<lparr>own_bitfield := b'\<rparr>)]) c v ms chk)"
proof -
  have "unit_reach n ok s0 (running b [ByTask j] ts c v ms chk)"
    using ask_run [OF assms(1), of "ByTask j"] assms(2-4) by simp
  from locked_run [OF this assms(2-5)] assms(6) show ?thesis by simp
qed

lemma select_run:
  assumes "unit_reach n ok s0 (running b [] ts c v ms chk)" and "j < length ts" and "ts ! j = at AtHead dl"
    and "remaining b = Ok left" and "left \<noteq> 0"
  shows "unit_reach n ok s0 (running b [] (ts[j := at AtSelect (dl\<lparr>own_bitfield := b\<rparr>)]) c v ms chk)"
  by (rule lock_run [OF assms(1-3) _ unit_head [OF assms(4,5)]]) simp_all

lemma pick_run:
  assumes "unit_reach n ok s0 (running b [] ts c v ms chk)" and "j < length ts" and "ts ! j = at AtPick dl"
    and "n < 2 ^ 32" and "idle n dl" and "pick_piece b = (Ok (Some k), b')" and "unat k < n"
  shows "\<exists>dl'. awaits n k dl' \<and> unit_reach n ok s0 (running b' [] (ts[j := at AtHead dl']) c v ms chk)"
proof -
  obtain dl' where "task_step demo_env KeepAliveTimeout (AtPick, dl\<lparr>own_bitfield := b\<rparr>) = (AtHead, dl'\<lparr>own_bitfield := b'\<rparr>)"
    "awaits n k dl'" using unit_pick [OF assms(4-7)] by blast
  with lock_run [OF assms(1-3) _ this(1)] show ?thesis by (intro exI [of _ "dl'\<lparr>own_bitfield := b'\<rparr>"]) simp
qed

lemma unchoke_run:
  assumes "unit_reach n ok s0 (running b [] ts c v ms chk)" and "j < length ts"
    and "ts ! j = spawn (new_downloader (unit_info n) init a)" and "n < 2 ^ 32" and "remaining b = Ok left" and "left \<noteq> 0"
    and "\<And>dl. ok dl (Received Unchoke)" and "pick_piece b = (Ok (Some k), b')" and "unat k < n"
  shows "\<exists>dl'. awaits n k dl' \<and> unit_reach n ok s0 (running b' [] (ts[j := at AtHead dl']) c v ms chk)"
proof -
  let ?dl = "new_downloader (unit_info n) init a"
  obtain dl where dl: "task_step demo_env (Received Unchoke) (AtSelect, ?dl\<lparr>own_bitfield := b\<rparr>) = (AtPick, dl\<lparr>own_bitfield := b\<rparr>)"
    "idle n dl" using unit_unchoke [OF assms(4)] by blast
  have "unit_reach n ok s0 (running b [] (ts[j := at AtSelect (?dl\<lparr>own_bitfield := b\<rparr>)]) c v ms chk)"
    using select_run [OF assms(1,2) _ assms(5,6)] assms(3) by (simp add: spawn_def)
  from inp_run [OF this _ _ assms(7), of j "?dl\<lparr>own_bitfield := b\<rparr>"] dl(1) assms(2)
  have "unit_reach n ok s0 (running b [] (ts[j := at AtPick (dl\<lparr>own_bitfield := b\<rparr>)]) c v ms chk)" by simp
  from pick_run [OF this _ _ assms(4) _ assms(8,9), of j "dl\<lparr>own_bitfield := b\<rparr>"] dl(2) assms(2) show ?thesis by simp
qed

text \<open>The block arrives; the piece is marked, which keeps the lock; it is sent; the next one is picked.\<close>

lemma block_run:
  assumes "unit_reach n ok s0 (running b [] ts c v ms chk)" and "j < length ts" and "ts ! j = at AtHead dl"
    and "awaits n k dl" and "remaining b = Ok left" and "left \<noteq> 0" and "\<And>dl. ok dl (Received (Piece k 0 [x]))"
  shows "\<exists>dl'. stored n k x dl' \<and> unit_reach n ok s0 (running b [] (ts[j := at (AtMark k) dl']) c v ms chk)"
proof -
  obtain dl' where dl': "task_step demo_env (Received (Piece k 0 [x])) (AtSelect, dl\<lparr>own_bitfield := b\<rparr>) =
    (AtMark k, dl'\<lparr>own_bitfield := b\<rparr>)" "stored n k x dl'" using unit_store [OF assms(4)] by blast
  from inp_run [OF select_run [OF assms(1-3,5,6)] _ _ assms(7), of j] dl'(1) assms(2)
  have "unit_reach n ok s0 (running b [] (ts[j := at (AtMark k) (dl'\<lparr>own_bitfield := b\<rparr>)]) c v ms chk)" by simp
  with dl'(2) show ?thesis by (intro exI [of _ "dl'\<lparr>own_bitfield := b\<rparr>"]) simp
qed

lemma mark_run:
  assumes "unit_reach n ok s0 (running b (ByTask j # q) ts c v ms chk)" and "j < length ts" and "ts ! j = at (AtMark k) dl"
    and "stored n k x dl" and "set_piece k b = (Ok (), b')"
  shows "\<exists>dl'. idle n dl' \<and> unit_reach n ok s0 (running b' (ByTask j # q) (ts[j := at (AtSend (PieceMsg k 1 [x])) dl']) c v ms chk)"
proof -
  obtain dl' where dl': "task_step demo_env KeepAliveTimeout (AtMark k, dl\<lparr>own_bitfield := b\<rparr>) =
    (AtSend (PieceMsg k 1 [x]), dl'\<lparr>own_bitfield := b'\<rparr>)" "idle n dl'" using unit_mark [OF assms(4,5)] by blast
  with locked_run [OF assms(1-3) _ dl'(1)] show ?thesis by (intro exI [of _ "dl'\<lparr>own_bitfield := b'\<rparr>"]) simp
qed

lemma put_run:
  assumes "unit_reach n ok s0 (running b (ByTask j # q) ts c v ms chk)" and "j < length ts" and "ts ! j = at (AtSend m) dl"
    and "idle n dl" and "length c < 5"
  shows "\<exists>dl'. idle n dl' \<and> unit_reach n ok s0 (running b q (ts[j := at AtPick dl']) (c @ [m]) v ms chk)"
proof -
  obtain dl' where dl': "task_step demo_env KeepAliveTimeout (AtSend m, dl\<lparr>own_bitfield := b\<rparr>) = (AtPick, dl'\<lparr>own_bitfield := b\<rparr>)"
    "idle n dl'" using unit_send [OF assms(4)] by blast
  with send_run [OF assms(1-3,5) dl'(1)] show ?thesis by (intro exI [of _ "dl'\<lparr>own_bitfield := b\<rparr>"]) simp
qed

lemma hold_run:
  assumes "unit_reach n ok s0 (running b [] ts c v ms chk)" and "j < length ts" and "ts ! j = at AtHead dl"
    and "awaits n k dl" and "remaining b = Ok left" and "left \<noteq> 0" and "\<And>dl. ok dl (Received (Piece k 0 [x]))"
    and "set_piece k b = (Ok (), b')"
  shows "\<exists>dl'. idle n dl' \<and> unit_reach n ok s0 (running b' [ByTask j] (ts[j := at (AtSend (PieceMsg k 1 [x])) dl']) c v ms chk)"
proof -
  obtain d1 where d1: "stored n k x d1" "unit_reach n ok s0 (running b [] (ts[j := at (AtMark k) d1]) c v ms chk)"
    using block_run [where ok = ok, OF assms(1-7)] by blast
  have "unit_reach n ok s0 (running b [ByTask j] (ts[j := at (AtMark k) d1]) c v ms chk)"
    using ask_run [OF d1(2), of "ByTask j"] assms(2) by simp
  from mark_run [OF this _ _ d1(1) assms(8)] assms(2) show ?thesis by simp
qed

lemma deliver_run:
  assumes "unit_reach n ok s0 (running b [] ts c v ms chk)" and "j < length ts" and "ts ! j = at AtHead dl"
    and "awaits n k dl" and "remaining b = Ok left" and "left \<noteq> 0" and "\<And>dl. ok dl (Received (Piece k 0 [x]))"
    and "set_piece k b = (Ok (), b1)" and "length c < 5" and "n < 2 ^ 32"
    and "pick_piece b1 = (Ok (Some k'), b2)" and "unat k' < n"
  shows "\<exists>dl'. awaits n k' dl' \<and>
    unit_reach n ok s0 (running b2 [] (ts[j := at AtHead dl']) (c @ [PieceMsg k 1 [x]]) v ms chk)"
proof -
  let ?m = "PieceMsg k 1 [x]"
  obtain d1 where d1: "idle n d1" "unit_reach n ok s0 (running b1 [ByTask j] (ts[j := at (AtSend ?m) d1]) c v ms chk)"
    using hold_run [where ok = ok, OF assms(1-8)] by blast
  obtain d2 where d2: "idle n d2" "unit_reach n ok s0 (running b1 [] (ts[j := at AtPick d2]) (c @ [?m]) v ms chk)"
    using put_run [OF d1(2) _ _ d1(1) assms(9)] assms(2) by auto
  from pick_run [OF d2(2) _ _ assms(10) d2(1) assms(11,12), of j] assms(2) show ?thesis by simp
qed

section \<open>Bitfields of one byte\<close>

definition bits :: "nat \<Rightarrow> u8 \<Rightarrow> usize \<Rightarrow> usize \<Rightarrow> bitfield" where
  "bits n x c d = \<lparr>piece_ownership = [x], total_pieces = n, cur = c, confirmed = d\<rparr>"

lemma bits_simps [simp]:
  "piece_ownership (bits n x c d) = [x]" "total_pieces (bits n x c d) = n" "cur (bits n x c d) = c"
  "confirmed (bits n x c d) = d" "(bits n x c d)\<lparr>cur := c'\<rparr> = bits n x c' d"
  "(bits n x c d)\<lparr>confirmed := d'\<rparr> = bits n x c d'" "(bits n x c d)\<lparr>piece_ownership := [x']\<rparr> = bits n x' c d"
  by (simp_all add: bits_def)

lemma bits_has:
  "unat k < 8 \<Longrightarrow> has_piece (bits n x c d) k = Ok (0 < x AND push_bit (7 - unat k) 1)"
  by (simp add: has_piece_def piece_bucket_offset_eq unat_offset)

lemma bits_pick:
  assumes "d < n" and "c < 8" and "x AND push_bit (7 - c) 1 = 0"
  shows "pick_piece (bits n x c d) = (Ok (Some (of_nat c)), bits n x (if c + 1 = n then d else c + 1) d)"
proof -
  have c: "unat (of_nat c :: u32) = c" using assms(2) by (simp add: unat_of_nat_u32)
  have "pick_loop (bits n x c d) = Some (Ok (Some (of_nat c)), bits n x (if c + 1 = n then d else c + 1) d)"
    by (subst pick_loop.simps) (use assms c in \<open>simp add: bits_has\<close>)
  then show ?thesis using assms(1) by (simp add: pick_piece_def)
qed

lemma bits_set:
  assumes "unat k < 8"
  shows "set_piece k (bits n x c d) =
    (if d = unat k then advance_confirmed (bits n (x OR push_bit (7 - unat k) 1) c (d + 1))
     else (Ok (), bits n (x OR push_bit (7 - unat k) 1) c d))"
  using assms by (simp add: set_piece_def piece_bucket_offset_eq unat_offset)

lemma bits_advance:
  "d < 8 \<Longrightarrow> x AND push_bit (7 - d) 1 = 0 \<Longrightarrow> advance_confirmed (bits n x c d) = (Ok (), bits n x c d)"
  "d < 8 \<Longrightarrow> x AND push_bit (7 - d) 1 \<noteq> 0 \<Longrightarrow>
    advance_confirmed (bits n x c d) = advance_confirmed (bits n x c (d + 1))"
  by (subst advance_confirmed.simps, simp add: bits_has unat_of_nat_u32 word_neq_0_conv)+

lemma bits_remaining:
  assumes "unat (count_ones x) \<le> n" and "n < 2 ^ 32"
  shows "remaining (bits n x c d) = Ok (of_nat n - count_ones x)"
  using assms by (simp add: remaining_def add_chk_def sub_chk_def unat_of_nat_u32 word_le_nat_alt)

section \<open>The start\<close>

text \<open>Peers that are reached, answer the handshake and send the bitfield \<open>[x]\<close>.\<close>

definition unit_peer :: "u8 \<Rightarrow> peer_env" where
  "unit_peer x = \<lparr>pe_connect = (\<lambda>a. True), pe_send_handshake = (\<lambda>a h. True),
     pe_handshake = (\<lambda>a. Some (Ok (new_handshake (replicate 20 0) (replicate 20 0)))),
     pe_first_msg = (\<lambda>a. Some (Ok (BitfieldMsg [x]))), pe_peer_addr = Some, pe_timeout = (\<lambda>a. False)\<rparr>"

definition unit_file :: "nat \<Rightarrow> socket_addr list \<Rightarrow> dl_file" where
  "unit_file n peers = \<lparr>file_id = replicate 20 1, file_info = unit_info n, file_peers = peers, file_bytes = replicate n 0\<rparr>"

definition unit_start :: "nat \<Rightarrow> socket_addr list \<Rightarrow> session" where
  "unit_start n peers = running (bits n 0 0 0) [] (map (\<lambda>a. spawn (new_downloader (unit_info n) (bits n 0 0 0) a)) peers)
     [] (replicate n 0) [] False"

lemma unit_new: "n < 2 ^ 32 \<Longrightarrow> new_file (replicate 20 1) (unit_info n) peers = Ok (unit_file n peers)"
  by (simp add: new_file_def unit_file_def total_length_def unit_info_def unat_of_nat_u64)

lemma unit_check:
  assumes "is_seed n [x] = Ok True"
  shows "check_is_seed (unit_peer x) a ident ih n = Ok ()"
  using assms by (simp add: check_is_seed_def do_handshake_def unit_peer_def)

lemma unit_begin:
  assumes n: "0 < n" "n \<le> 8" and seed: "is_seed n [x] = Ok True" and peers: "length peers \<le> 5"
    and hash: "hash (unit_info n) = Ok ih"
  shows "start_download (unit_peer x) hash (unit_file n peers) = Ok (unit_start n peers)"
proof -
  have fields: "file_id (unit_file n peers) = replicate 20 1" "file_info (unit_file n peers) = unit_info n"
    "file_peers (unit_file n peers) = peers" "file_bytes (unit_file n peers) = replicate n 0"
    by (simp_all add: unit_file_def)
  have num: "num_pieces (unit_info n) = Ok (of_nat n)"
    using num_pieces_eq [of "unit_info n"] unit_wf [of n] unit_pieces [of n] n by (simp add: wf_download_def)
  have "(n + 7) div 8 = 1" using n by simp
  then have zero: "zero_pieces (of_nat n) = bits n 0 0 0"
    using n by (simp add: zero_pieces_def bits_def unat_of_nat_u32)
  have u: "unat (of_nat n :: u32) = n" using n by (simp add: unat_of_nat_u32)
  have acc: "accepts (unit_peer x) ident ih n a" "checks_end (unit_peer x) ident ih n a" for a ident
    by (simp_all add: accepts_def checks_end_def unit_check [OF seed]) (simp_all add: unit_peer_def)
  have "pick_seeds (unit_peer x) hash (bits n 0 0 0) (unit_file n peers) =
      Ok (map (new_downloader (unit_info n) (bits n 0 0 0)) peers)"
    using pick_seeds_loop_eq [of 0 peers "unit_peer x" "replicate 20 1" ih n "unit_info n" "bits n 0 0 0"] acc peers
    by (simp add: pick_seeds_def fields num hash u max_seeds_def)
  then show ?thesis
    by (simp add: start_download_def fields num zero Let_def unit_start_def running_def)
qed

lemma unit_calm:
  "calm_input Q s (Received Unchoke)"
  "Q k 0 [x] \<Longrightarrow> calm_input Q s (Received (Piece k 0 [x]))"
  by (simp_all add: calm_input_def lawful_input_def lawful_def)

lemma unit_honest:
  assumes "n < 2 ^ 32" and "unat k < n" and "length content = n"
  shows "honest (unit_info n) content k 0 [content ! unat k]"
proof -
  have "drop (unat k) content = content ! unat k # drop (Suc (unat k)) content"
    using assms(2,3) by (simp add: Cons_nth_drop_Suc)
  then show ?thesis
    using unit_piece_size [OF assms(1,2)] by (simp add: honest_def piece_bytes_def) (simp add: unit_info_def)
qed

lemma unit_ideal: "n < 2 ^ 32 \<Longrightarrow> ideal_env (unit_info n) content demo_env"
  using demo_env_ok unit_pieces [of n] by (simp add: ideal_env_def) (simp add: unit_info_def demo_env_with_def)

lemma unit_store_msg:
  assumes "n < 2 ^ 32" and "unat k < n" and "length v = n"
  shows "store_msg (unit_info n) (PieceMsg k 1 [x]) v = Ok (v[unat k := x])"
proof -
  have "info_piece_length (unit_info n) = 1" by (simp add: unit_info_def)
  then show ?thesis
    using assms by (simp add: store_msg_def usize_mul_def usize_add_def splice_vec_def upd_conv_take_nth_drop)
qed

end
