(* ===== verification/SessionRun.thy ===== *)
theory SessionRun
  imports UnitTorrent
begin

text \<open>
  Whole downloads: what holds in every reachable state of a session, what the returned bytes
  are, and a run of two one-byte pieces on which the download returns too early.
\<close>

section \<open>A session with two pieces of one byte\<close>

abbreviation duo_peers :: "socket_addr list" where
  "duo_peers \<equiv> [(0, 0)]"

lemma duo_info_ok: "wf_download (unit_info 2)" "piece_count (unit_info 2) = 2"
  "content_length (info_download_type (unit_info 2)) = 2"
  by (simp_all add: unit_wf unit_pieces unit_length)

lemma duo_seed: "is_seed 2 [192] = Ok True"
  by (simp add: is_seed_def usize_sub_def usize_mul_def upt_rec piece_bucket_offset_def)

lemma duo_bits:
  "remaining (bits 2 0 c d) = Ok 2" "remaining (bits 2 128 c d) = Ok 1" "remaining (bits 2 192 c d) = Ok 0"
  "pick_piece (bits 2 0 0 0) = (Ok (Some 0), bits 2 0 1 0)"
  "set_piece 0 (bits 2 0 1 0) = (Ok (), bits 2 128 1 1)"
  "pick_piece (bits 2 128 1 1) = (Ok (Some 1), bits 2 128 1 1)"
  "set_piece 1 (bits 2 128 1 1) = (Ok (), bits 2 192 1 2)"
proof -
  have "count_ones 0 = 0" "count_ones 128 = 1" "count_ones 192 = 2" by code_simp+
  then show "remaining (bits 2 0 c d) = Ok 2" "remaining (bits 2 128 c d) = Ok 1" "remaining (bits 2 192 c d) = Ok 0"
    by (simp_all add: bits_remaining)
qed (simp_all add: bits_pick bits_set bits_advance)

lemma duo_runs:
  assumes "\<And>dl. ok dl (Received Unchoke)" and "\<And>dl. ok dl (Received (Piece 0 0 [1]))"
    and "\<And>dl. ok dl (Received (Piece 1 0 [2]))"
  shows "\<exists>s. unit_reach 2 ok (unit_start 2 duo_peers) s \<and> outcome s = Some (Ok [1, 0]) \<and>
      received s = [PieceMsg 0 1 [1]] \<and> chan s = [PieceMsg 1 1 [2]]"
    and "\<exists>s. unit_reach 2 ok (unit_start 2 duo_peers) s \<and> outcome s = Some (Ok [1, 2]) \<and> chan s = []"
proof -
  let ?r = "unit_reach 2 ok (unit_start 2 duo_peers)" and ?v = "replicate 2 0 :: u8 list"
  have start: "?r (running (bits 2 0 0 0) [] [spawn (new_downloader (unit_info 2) (bits 2 0 0 0) (0, 0))] [] ?v [] False)"
    using session_reach.refl [of "\<lambda>_. demo_env" ok "unit_info 2" "unit_start 2 duo_peers"] by (simp add: unit_start_def)
  obtain d0 where d0: "awaits 2 0 d0" "?r (running (bits 2 0 1 0) [] [at AtHead d0] [] ?v [] False)"
    using unchoke_run [where ok = ok and j = 0 and init = "bits 2 0 0 0" and a = "(0, 0)", OF start _ _ _ duo_bits(1) _ assms(1) duo_bits(4)]
    by auto
  obtain d1 where d1: "awaits 2 1 d1" "?r (running (bits 2 128 1 1) [] [at AtHead d1] [PieceMsg 0 1 [1]] ?v [] False)"
    using deliver_run [where ok = ok, OF d0(2) _ _ d0(1) duo_bits(1) _ assms(2) duo_bits(5) _ _ duo_bits(6), of 0] by auto
  obtain d2 where d2: "idle 2 d2"
    "?r (running (bits 2 192 1 2) [ByTask 0] [at (AtSend (PieceMsg 1 1 [2])) d2] [PieceMsg 0 1 [1]] ?v [] False)"
    using hold_run [where ok = ok, OF d1(2) _ _ d1(1) duo_bits(2) _ assms(3) duo_bits(7), of 0] by auto
  obtain d3 where d3: "?r (running (bits 2 192 1 2) [] [at AtPick d3] [PieceMsg 0 1 [1], PieceMsg 1 1 [2]] ?v [] False)"
    using put_run [OF d2(2) _ _ d2(1)] by auto
  have v: "?v = [0, 0]" by (simp add: numeral_2_eq_2)
  have store: "store_msg (unit_info 2) (PieceMsg 0 1 [1]) ?v = Ok [1, 0]" "store_msg (unit_info 2) (PieceMsg 1 1 [2]) [1, 0] = Ok [1, 2]"
    unfolding v by (simp_all add: unit_store_msg)
  have checked: "\<exists>s. ?r s \<and> s = (running b [] ts c v ms False)\<lparr>outcome := (if left = 0 then Some (Ok v) else None)\<rparr>"
    if "?r (running b [] ts c v ms True)" "remaining b = Ok left" for b ts c v ms left
    using check_run [OF ask_run [OF that(1), of ByReceiver, simplified] that(2)] by blast
  have "?r (running (bits 2 192 1 2) [] [at AtPick d3] [PieceMsg 1 1 [2]] [1, 0] [PieceMsg 0 1 [1]] True)"
    using recv_run [OF d3 store(1)] by simp
  from checked [OF this duo_bits(3)]
  show "\<exists>s. ?r s \<and> outcome s = Some (Ok [1, 0]) \<and> received s = [PieceMsg 0 1 [1]] \<and> chan s = [PieceMsg 1 1 [2]]"
    by auto
  have "?r (running (bits 2 128 1 1) [] [at AtHead d1] [] [1, 0] [PieceMsg 0 1 [1]] True)"
    using recv_run [OF d1(2) store(1)] by simp
  from checked [OF this duo_bits(2)]
  have e1: "?r (running (bits 2 128 1 1) [] [at AtHead d1] [] [1, 0] [PieceMsg 0 1 [1]] False)"
    by (simp add: running_def)
  obtain e2 where e2: "idle 2 e2"
    "?r (running (bits 2 192 1 2) [ByTask 0] [at (AtSend (PieceMsg 1 1 [2])) e2] [] [1, 0] [PieceMsg 0 1 [1]] False)"
    using hold_run [where ok = ok, OF e1 _ _ d1(1) duo_bits(2) _ assms(3) duo_bits(7), of 0] by auto
  obtain e3 where e3: "?r (running (bits 2 192 1 2) [] [at AtPick e3] [PieceMsg 1 1 [2]] [1, 0] [PieceMsg 0 1 [1]] False)"
    using put_run [OF e2(2) _ _ e2(1)] by auto
  have "?r (running (bits 2 192 1 2) [] [at AtPick e3] [] [1, 2] [PieceMsg 0 1 [1], PieceMsg 1 1 [2]] True)"
    using recv_run [OF e3 store(2)] by simp
  from checked [OF this duo_bits(3)]
  show "\<exists>s. ?r s \<and> outcome s = Some (Ok [1, 2]) \<and> chan s = []" by auto
qed

section \<open>Properties\<close>

text \<open>
  C8. Every session, whatever the peers send, in every interleaving: at all times a piece of the
  assembled bytes is either still zero or the piece received last, which has the hash of the
  metainfo; the receiving loop never panics, and when it returns bytes these are the assembled
  ones and every piece is marked in the shared bitfield.
\<close>

theorem session_bytes_are_validated:
  assumes "wf_download i" and "new_file ident i peers = Ok f" and "start_download pe hash f = Ok s0"
    and "\<forall>n. env_sha1 (envs n) = sha" and "session_reach envs ok i s0 s"
  shows "(\<forall>k < piece_count i. case last_piece (received s) k of
        None \<Rightarrow> piece_bytes i (out_bytes s) k = replicate (piece_size i k) 0
      | Some bytes \<Rightarrow> piece_bytes i (out_bytes s) k = bytes \<and> sha bytes = info_pieces i ! k) \<and>
    length (out_bytes s) = content_length (info_download_type i) \<and>
    (\<forall>r. outcome s = Some r \<longrightarrow> (\<exists>e. r = Err e) \<or>
       r = Ok (out_bytes s) \<and> owned (shared_bitfield s) = {..<piece_count i})"
proof -
  have sha: "\<forall>n. env_sha1 (envs n) = env_sha1 (envs 0)" "env_sha1 (envs 0) = sha" using assms(4) by simp_all
  have inv: "session_inv (envs 0) i s"
    using session_reach_inv [OF assms(1) sha(1) assms(5) start_session_inv(1) [OF assms(1-3)]] .
  have "sha bytes = info_pieces i ! k" if last: "last_piece (received s) k = Some bytes" for k bytes
  proof -
    obtain k' len where m: "PieceMsg k' len bytes \<in> set (received s)" "unat k' = k"
      using last_piece_mem [OF last] by blast
    then have "tx_msg_ok (envs 0) i (PieceMsg k' len bytes)" using inv unfolding session_inv_def by blast
    with m(2) sha(2) show ?thesis by simp
  qed
  with inv show ?thesis by (auto simp: session_inv_def pieces_stored_def split: option.splits)
qed

lemma duo_hyps:
  "new_file (replicate 20 1) (unit_info 2) duo_peers = Ok (unit_file 2 duo_peers)"
  "start_download (unit_peer 192) (\<lambda>i. Ok (replicate 20 9)) (unit_file 2 duo_peers) = Ok (unit_start 2 duo_peers)"
  "\<forall>n::nat. env_sha1 demo_env = env_sha1 demo_env"
  by (simp_all add: unit_new unit_begin duo_seed)

lemma duo_honest:
  "calm_input (honest (unit_info 2) [1, 2]) s (Received Unchoke)"
  "calm_input (honest (unit_info 2) [1, 2]) s (Received (Piece 0 0 [1]))"
  "calm_input (honest (unit_info 2) [1, 2]) s (Received (Piece 1 0 [2]))"
  using unit_honest [of 2 0 "[1, 2]"] unit_honest [of 2 1 "[1, 2]"] by (simp_all add: unit_calm)

theorem session_bytes_are_validated_witness:
  "env_sha1 demo_env [1] = info_pieces (unit_info 2) ! 0"
proof -
  obtain s where s: "unit_reach 2 (\<lambda>s inp. True) (unit_start 2 duo_peers) s" "received s = [PieceMsg 0 1 [1]]"
    using duo_runs(1) [where ok = "\<lambda>s inp. True"] by auto
  from session_bytes_are_validated [OF duo_info_ok(1) duo_hyps(1,2,3) s(1)] s(2) show ?thesis
    by (auto simp: duo_info_ok dest: spec [of _ 0])
qed

text \<open>
  What is returned in a download from honest and calm seeds over links that work: a piece that is
  not yet in the bytes is still in the channel.
\<close>

lemma returned_pieces:
  assumes "wf_download i" and "piece_count i mod 8 \<noteq> 0"
    and "length content = content_length (info_download_type i)"
    and "\<forall>n. ideal_env i content (envs n) \<and> env_sha1 (envs n) = sha"
    and "new_file ident i peers = Ok f" and "start_download pe hash f = Ok s0"
    and "session_reach envs (calm_input (honest i content)) i s0 s"
    and "outcome s = Some (Ok bytes)"
  shows "length bytes = content_length (info_download_type i)"
    and "k < piece_count i \<Longrightarrow> piece_bytes i bytes k = piece_bytes i content k \<or>
      (\<exists>len. PieceMsg (of_nat k) len (piece_bytes i content k) \<in> set (chan s))"
proof -
  have sha: "\<forall>n. env_sha1 (envs n) = env_sha1 (envs 0)" and env: "\<forall>n. ideal_env i content (envs n)"
    using assms(4) by simp_all
  note start = start_session_inv [OF assms(1,5,6)]
  have inv: "session_inv (envs 0) i s" using session_reach_inv [OF assms(1) sha assms(7) start(1)] .
  have ideal: "ideal_inv i content s"
    using session_reach_ideal [OF assms(1) sha env assms(2,3,7) start(1,2)] .
  have "outcome s0 = None"
    using start_download_shape(5) [OF wf_download_info(1) [OF assms(1)] assms(5,6)] .
  then have "all_msgs s = set (received s) \<union> set (chan s)"
    using return_holds_lock [OF assms(7) start(3) _ assms(8)] by (auto simp: all_msgs_def)
  with ideal have known: "\<forall>k \<in> owned (shared_bitfield s).
      \<exists>k' len bytes. PieceMsg k' len bytes \<in> set (received s) \<union> set (chan s) \<and> unat k' = k"
    and exact: "\<forall>k len bytes. PieceMsg k len bytes \<in> set (received s) \<union> set (chan s) \<longrightarrow>
      bytes = piece_bytes i content (unat k)"
    unfolding ideal_inv_def by simp_all
  have out: "bytes = out_bytes s" "owned (shared_bitfield s) = {..<piece_count i}"
    "pieces_stored i (out_bytes s) (received s)"
    using inv assms(8) by (simp_all add: session_inv_def)
  then show "length bytes = content_length (info_download_type i)" by (simp add: pieces_stored_def)
  assume k: "k < piece_count i"
  with known out(2) obtain k' len b
    where m: "PieceMsg k' len b \<in> set (received s) \<union> set (chan s)" "unat k' = k" by blast
  have b: "b = piece_bytes i content k" using exact m by blast
  show "piece_bytes i bytes k = piece_bytes i content k \<or>
      (\<exists>len. PieceMsg (of_nat k) len (piece_bytes i content k) \<in> set (chan s))"
  proof (cases "PieceMsg k' len b \<in> set (chan s)")
    case True
    moreover have "k' = of_nat k" using m(2) by auto
    ultimately show ?thesis using b by blast
  next
    case False
    then have "PieceMsg k' len b \<in> set (received s)" using m(1) by blast
    then obtain b' where b': "last_piece (received s) k = Some b'" using last_piece_known m(2) by blast
    then have "b' = piece_bytes i content k" using last_piece_mem exact by blast
    then show ?thesis using out(1,3) b' k by (simp add: pieces_stored_def)
  qed
qed

text \<open>
  C9. A download from honest and calm seeds over links that work, with the number of pieces no
  multiple of eight: every piece of the returned bytes is that of the content, or is still in the
  channel; so the bytes are the content if the channel was empty.
\<close>

theorem complete_download_is_content:
  assumes "wf_download i" and "piece_count i mod 8 \<noteq> 0"
    and "length content = content_length (info_download_type i)"
    and "\<forall>n. ideal_env i content (envs n) \<and> env_sha1 (envs n) = sha"
    and "new_file ident i peers = Ok f" and "start_download pe hash f = Ok s0"
    and "session_reach envs (calm_input (honest i content)) i s0 s"
    and "outcome s = Some (Ok bytes)"
  shows "(\<forall>k < piece_count i. piece_bytes i bytes k = piece_bytes i content k \<or>
      (\<exists>len. PieceMsg (of_nat k) len (piece_bytes i content k) \<in> set (chan s))) \<and>
    (chan s = [] \<longrightarrow> bytes = content)"
  using returned_pieces [OF assms] content_eqI [OF wf_download_info(1) [OF assms(1)] _ assms(3), of bytes] by auto

theorem complete_download_is_content_witness:
  "\<exists>s. outcome s = Some (Ok [1, 2 :: u8]) \<and> unit_reach 2 (calm_input (honest (unit_info 2) [1, 2])) (unit_start 2 duo_peers) s"
proof -
  let ?ok = "calm_input (honest (unit_info 2) [1, 2])"
  obtain s v where s: "unit_reach 2 ?ok (unit_start 2 duo_peers) s" "outcome s = Some (Ok v)" "chan s = []"
    using duo_runs(2) [where ok = ?ok, OF duo_honest] by blast
  have "\<forall>n::nat. ideal_env (unit_info 2) [1, 2] demo_env \<and> env_sha1 demo_env = env_sha1 demo_env"
    by (simp add: unit_ideal)
  from complete_download_is_content [OF duo_info_ok(1) _ _ this duo_hyps(1,2) s(1,2)] s(3)
  have "v = [1, 2]" by (simp add: duo_info_ok)
  with s show ?thesis by blast
qed

text \<open>
  C29. Without that last condition the claim fails: a piece is marked in the shared bitfield before
  it has been received, and the receiving loop stops as soon as every piece is marked. With one
  honest seed and two pieces the download returns bytes in which the second piece is missing,
  and reports success.
\<close>

theorem download_returns_before_last_piece:
  "\<exists>f s0 s. new_file (replicate 20 1) (unit_info 2) duo_peers = Ok f \<and>
     start_download (unit_peer 192) (\<lambda>i. Ok (replicate 20 9)) f = Ok s0 \<and> ideal_env (unit_info 2) [1, 2] demo_env \<and>
     session_reach (\<lambda>n. demo_env) (calm_input (honest (unit_info 2) [1, 2])) (unit_info 2) s0 s \<and>
     outcome s = Some (Ok [1, 0])"
  using duo_hyps(1,2) unit_ideal [of 2 "[1, 2]"] duo_runs(1) [where ok = "calm_input (honest (unit_info 2) [1, 2])", OF duo_honest]
  by fastforce

text \<open>
  What it takes to be chosen, in terms of what the peer does: it is connected and written to before
  the timeout, it answers with some handshake, and its first message is a bitfield in which the
  bit of every piece is set, and all bits of the bytes before the last one. And what keeps the check of
  a peer from a panic: nothing it sends makes the decoders panic, a bitfield has a bit for every
  piece, and the socket knows its address.
\<close>

definition presents_seed :: "peer_env \<Rightarrow> u8 list \<Rightarrow> u8 list \<Rightarrow> usize \<Rightarrow> socket_addr \<Rightarrow> bool" where
  "presents_seed pe ident ih n addr \<longleftrightarrow>
     \<not> pe_timeout pe addr \<and> pe_connect pe addr \<and> pe_send_handshake pe addr (new_handshake ih ident) \<and>
     (\<exists>h. pe_handshake pe addr = Some (Ok h)) \<and>
     (\<exists>v. pe_first_msg pe addr = Some (Ok (BitfieldMsg v)) \<and> (\<forall>i < max n (8 * (length v - 1)). bit_at v i))"

definition answers_tamely :: "peer_env \<Rightarrow> usize \<Rightarrow> socket_addr \<Rightarrow> bool" where
  "answers_tamely pe n addr \<longleftrightarrow> pe_timeout pe addr \<or>
     (\<forall>r. pe_handshake pe addr = Some r \<longrightarrow> (\<exists>h. r = Ok h) \<or> (\<exists>e. r = Err e)) \<and>
     (\<forall>r. pe_first_msg pe addr = Some r \<longrightarrow> (\<exists>m. r = Ok m) \<or> (\<exists>e. r = Err e)) \<and>
     (\<forall>v. pe_first_msg pe addr = Some (Ok (BitfieldMsg v)) \<longrightarrow> v \<noteq> [] \<and> n \<le> 8 * length v \<and> length v < 2 ^ 61) \<and>
     pe_peer_addr pe addr = Some addr"

lemma check_is_seed_verdict:
  assumes n: "n < 2 ^ 32" and tame: "answers_tamely pe n addr" and time: "\<not> pe_timeout pe addr"
  shows "if presents_seed pe ident ih n addr then check_is_seed pe addr ident ih n = Ok ()
    else \<exists>e. check_is_seed pe addr ident ih n = Err e"
proof (cases "pe_connect pe addr \<and> pe_send_handshake pe addr (new_handshake ih ident) \<and> (\<exists>h. pe_handshake pe addr = Some (Ok h))")
  case True
  then have check: "check_is_seed pe addr ident ih n = (case pe_first_msg pe addr of
       None \<Rightarrow> Err (Anyhow ''stream ended before first msg'')
     | Some msg \<Rightarrow> and_then msg (\<lambda>m. case m of
           BitfieldMsg bytes \<Rightarrow>
             and_then (is_seed n bytes) (\<lambda>seed.
               if \<not> seed then Err (Anyhow ''peer is not seed'') else Ok ())
         | _ \<Rightarrow> Err (Anyhow ''first message was not bitfield'')))"
    by (auto simp: check_is_seed_def do_handshake_def)
  show ?thesis
  proof (cases "\<exists>v. pe_first_msg pe addr = Some (Ok (BitfieldMsg v))")
    case bf: True
    then obtain v where v: "pe_first_msg pe addr = Some (Ok (BitfieldMsg v))" by blast
    with tame time have "v \<noteq> []" "n \<le> 8 * length v" "length v < 2 ^ 61" by (auto simp: answers_tamely_def)
    then show ?thesis
      using is_seed_long [OF n, of v] True time v by (auto simp: check presents_seed_def)
  next
    case False
    then have "\<not> presents_seed pe ident ih n addr" by (auto simp: presents_seed_def)
    moreover have "\<exists>e. check_is_seed pe addr ident ih n = Err e"
      using False tame time unfolding check answers_tamely_def
      by (auto split: option.splits message.splits)
    ultimately show ?thesis by simp
  qed
next
  case False
  then have "\<not> presents_seed pe ident ih n addr" by (auto simp: presents_seed_def)
  moreover have "\<exists>e. check_is_seed pe addr ident ih n = Err e"
    using False tame time unfolding answers_tamely_def
    by (auto simp: check_is_seed_def do_handshake_def Let_def split: option.splits)
  ultimately show ?thesis by simp
qed

text \<open>
  C30. The choice of seeds is a filter. When no peer makes its check panic, that is when the bitfield a
  peer sends first has a bit for every piece, the downloaders are those of the first five peers,
  in order, that are reached before the timeout, answer with a handshake and present a bitfield
  in which the bit of every piece is set (and the bits of all bytes before the last).
\<close>

theorem pick_seeds_filters:
  assumes "length (file_id f) = 20" and "num_pieces (file_info f) = Ok n" and "hash (file_info f) = Ok ih"
    and "\<forall>addr \<in> set (file_peers f). answers_tamely pe (unat n) addr"
  shows "pick_seeds pe hash b f = Ok (map (new_downloader (file_info f) b)
    (take 5 (filter (presents_seed pe (file_id f) ih (unat n)) (file_peers f))))"
proof -
  have n: "unat n < 2 ^ 32" using unsigned_less [of n] by simp
  have acc: "accepts pe (file_id f) ih (unat n) addr = presents_seed pe (file_id f) ih (unat n) addr"
    and ends: "checks_end pe (file_id f) ih (unat n) addr" if "addr \<in> set (file_peers f)" for addr
  proof -
    have tame: "answers_tamely pe (unat n) addr" using assms(4) that by blast
    note verdict = check_is_seed_verdict [OF n tame, of "file_id f" ih]
    show "accepts pe (file_id f) ih (unat n) addr = presents_seed pe (file_id f) ih (unat n) addr"
      using verdict by (auto simp: accepts_def presents_seed_def split: if_splits)
    show "checks_end pe (file_id f) ih (unat n) addr"
      using verdict tame by (auto simp: checks_end_def answers_tamely_def split: if_splits)
  qed
  then have "filter (accepts pe (file_id f) ih (unat n)) (file_peers f) =
      filter (presents_seed pe (file_id f) ih (unat n)) (file_peers f)"
    by (intro filter_cong) simp_all
  then show ?thesis
    using pick_seeds_loop_eq [of 0 "file_peers f"] assms(1-3) ends by (simp add: pick_seeds_def max_seeds_def)
qed

theorem pick_seeds_filters_witness:
  "pick_seeds (unit_peer 192) (\<lambda>i. Ok (replicate 20 9)) (bits 2 0 0 0) (unit_file 2 duo_peers) =
     Ok [new_downloader (unit_info 2) (bits 2 0 0 0) (0, 0)]"
proof -
  have n: "num_pieces (file_info (unit_file 2 duo_peers)) = Ok 2"
    using num_pieces_eq [of "unit_info 2"] duo_info_ok by (simp add: wf_download_def unit_file_def)
  have "i < 2 \<Longrightarrow> bit_at [192] i" for i
    by (cases i; simp add: bit_at_def bit_iff_odd; cases "i - 1"; simp)
  then have "presents_seed (unit_peer 192) ident ih 2 a" "answers_tamely (unit_peer 192) 2 a" for ident ih a
    by (simp_all add: presents_seed_def answers_tamely_def unit_peer_def)
  then show ?thesis
    using pick_seeds_filters [of "unit_file 2 duo_peers" 2 "\<lambda>i. Ok (replicate 20 9)" "replicate 20 9" "unit_peer 192" "bits 2 0 0 0"] n
    by (simp add: unit_file_def)
qed

text \<open>
  What the peer says in its handshake is not looked at: a check succeeds only through the
  bitfield of a seed, and it has the same result for any two handshakes that are well formed,
  whatever info hash they carry.
\<close>

theorem check_ignores_handshake_contents:
  assumes "pe_handshake pe addr = Some (Ok h)"
  shows "check_is_seed pe addr ident ih n =
      check_is_seed (pe\<lparr>pe_handshake := (pe_handshake pe)(addr := Some (Ok h'))\<rparr>) addr ident ih n \<and>
    (check_is_seed pe addr ident ih n = Ok () \<longrightarrow>
      (\<exists>bytes. pe_first_msg pe addr = Some (Ok (BitfieldMsg bytes)) \<and> is_seed n bytes = Ok True))"
proof
  show "check_is_seed pe addr ident ih n =
      check_is_seed (pe\<lparr>pe_handshake := (pe_handshake pe)(addr := Some (Ok h'))\<rparr>) addr ident ih n"
    using assms by (auto simp: check_is_seed_def do_handshake_def Let_def)
  show "check_is_seed pe addr ident ih n = Ok () \<longrightarrow>
      (\<exists>bytes. pe_first_msg pe addr = Some (Ok (BitfieldMsg bytes)) \<and> is_seed n bytes = Ok True)"
  proof
    assume ok: "check_is_seed pe addr ident ih n = Ok ()"
    then obtain r where r: "pe_first_msg pe addr = Some r"
      using assms by (auto simp: check_is_seed_def do_handshake_def Let_def split: option.splits if_splits)
    then obtain m where m: "r = Ok m"
      using ok assms by (cases r) (auto simp: check_is_seed_def do_handshake_def Let_def split: if_splits)
    then show "\<exists>bytes. pe_first_msg pe addr = Some (Ok (BitfieldMsg bytes)) \<and> is_seed n bytes = Ok True"
      using ok r assms
      by (cases m) (auto simp: check_is_seed_def do_handshake_def Let_def and_then_Ok_iff split: if_splits)
  qed
qed

theorem check_ignores_handshake_contents_witness:
  "check_is_seed (unit_peer 192\<lparr>pe_handshake := (pe_handshake (unit_peer 192))((0, 0) :=
      Some (Ok (new_handshake (replicate 20 5) (replicate 20 6))))\<rparr>) (0, 0) (replicate 20 1) (replicate 20 9) 2 = Ok ()"
proof -
  have "pe_handshake (unit_peer 192) (0, 0) = Some (Ok (new_handshake (replicate 20 0) (replicate 20 0)))"
    by (simp add: unit_peer_def)
  from check_ignores_handshake_contents [OF this, of "replicate 20 1" "replicate 20 9" 2] show ?thesis
    by (simp add: unit_check duo_seed)
qed

text \<open>
  One peer can end the client: the first peer to be checked that answers with an empty
  bitfield before the timeout makes the whole start panic, since the index of the last byte is
  computed as a length minus one.
\<close>

theorem empty_bitfield_panics_client:
  assumes "length (file_id f) = 20" and "num_pieces (file_info f) = Ok n" and "hash (file_info f) = Ok ih"
    and "file_peers f = addr # rest" and "\<not> pe_timeout pe addr" and "pe_connect pe addr"
    and "\<forall>h. pe_send_handshake pe addr h" and "pe_handshake pe addr = Some (Ok hs)"
    and "pe_first_msg pe addr = Some (Ok (BitfieldMsg []))"
  shows "start_download pe hash f = Panic ArithOverflow"
  using assms
  by (simp add: start_download_def pick_seeds_def check_is_seed_def do_handshake_def is_seed_def usize_sub_def Let_def)

theorem empty_bitfield_panics_client_witness:
  "start_download (unit_peer 192\<lparr>pe_first_msg := (\<lambda>a. Some (Ok (BitfieldMsg [])))\<rparr>) (\<lambda>i. Ok []) (unit_file 2 duo_peers) = Panic ArithOverflow"
proof -
  have n: "num_pieces (file_info (unit_file 2 duo_peers)) = Ok 2"
    using num_pieces_eq [of "unit_info 2"] duo_info_ok by (simp add: wf_download_def unit_file_def)
  show ?thesis
    by (rule empty_bitfield_panics_client [OF _ n]) (simp_all add: unit_file_def unit_peer_def)
qed

end
