(* ===== verification/Deadlock.thy ===== *)
theory Deadlock
  imports SessionRun
begin

text \<open>
  Who waits for whom in a session: the tasks and the receiving loop wait for the lock on the
  bitfield, the holder of the lock may wait for room in the channel, and only the receiving loop
  makes room. There is one state in which nobody can go on, and it is reached.
\<close>

section \<open>The circle\<close>

text \<open>
  The receiving loop has taken a message and waits for the lock; the holder of the lock has a piece
  to send, and the channel is full.
\<close>

definition stuck :: "(nat \<Rightarrow> env) \<Rightarrow> session \<Rightarrow> bool" where
  "stuck envs s \<longleftrightarrow> outcome s = None \<and> to_check s \<and> chan_capacity \<le> length (chan s) \<and>
     (\<exists>n q m. lock_queue s = ByTask n # q \<and> n < length (tasks s) \<and> tk_pc (tasks s ! n) = AtSend m \<and>
        env_tx_ok (envs n) (tx_sent (tk_dl (tasks s ! n))) m)"

lemma stuck_step:
  assumes st: "stuck envs s" and step: "session_step envs ok i s s'"
  shows "stuck envs s'"
proof -
  obtain n q m where q: "lock_queue s = ByTask n # q" "n < length (tasks s)" "tk_pc (tasks s ! n) = AtSend m"
    "env_tx_ok (envs n) (tx_sent (tk_dl (tasks s ! n))) m"
    and chan: "to_check s" "chan_capacity \<le> length (chan s)"
    using st by (auto simp: stuck_def)
  have keep: "stuck envs s'"
    if "outcome s' = None" "to_check s' = to_check s" "chan s' = chan s" "lock_queue s' = lock_queue s @ r"
      "length (tasks s') = length (tasks s)" "tasks s' ! n = tasks s ! n" for r
    using that q chan by (auto simp: stuck_def)
  show ?thesis
    using step
  proof cases
    case (ask u)
    then show ?thesis by (intro keep [of "[u]"]) simp_all
  next
    case (locked k r)
    then show ?thesis using q by simp
  next
    case (inp k inp)
    obtain pc dl where t: "step_task (envs k) inp k s = (pc, dl)" by (metis surj_pair)
    have "k \<noteq> n" using inp(4) q(3) by auto
    then show ?thesis using inp t put_task_nth [OF inp(3)] by (intro keep [of "[]"]) simp_all
  next
    case (send k m' r)
    then show ?thesis using q chan by simp
  next
    case (disconnect k m')
    obtain pc dl where t: "step_task (envs k) KeepAliveTimeout k s = (pc, dl)" by (metis surj_pair)
    have "k \<noteq> n" using disconnect(4) q(3) by auto
    moreover have "\<not> env_tx_ok (envs k) (tx_sent (tk_dl (tasks s ! k))) m'" using disconnect(6) chan by auto
    ultimately show ?thesis using disconnect t put_task_nth [OF disconnect(3)]
      by (intro keep [of "[]"]) (simp_all add: send_step_def)
  next
    case (recv m' ms)
    then show ?thesis using chan by simp
  next
    case (check r)
    then show ?thesis using q by simp
  next
    case closed
    then show ?thesis using chan by simp
  qed
qed

lemma stuck_forever: "session_reach envs ok i s s' \<Longrightarrow> stuck envs s \<Longrightarrow> stuck envs s'"
  by (induction rule: session_reach.induct) (blast intro: stuck_step)+

text \<open>The only circle: in any other state someone can move, or all live tasks wait for their peers.\<close>

definition waits_for_peers :: "session \<Rightarrow> bool" where
  "waits_for_peers s \<longleftrightarrow> \<not> to_check s \<and> chan s = [] \<and> lock_queue s = [] \<and>
     list_all (\<lambda>tk. tk_pc tk = AtSelect \<or> (\<exists>r. tk_pc tk = Ended r)) (tasks s) \<and>
     list_ex (\<lambda>tk. tk_pc tk = AtSelect) (tasks s)"

lemma holder_moves:
  assumes ok: "lock_ok s" and out: "outcome s = None" and q: "lock_queue s = u # q" and not: "\<not> stuck envs s"
  shows "\<exists>s'. session_step envs inputs i s s'"
proof -
  have "wants_to_lock s u \<or> sends s u" using ok q by (simp add: lock_ok_def)
  then show ?thesis
  proof
    assume "wants_to_lock s u"
    then show ?thesis
      using session_step.locked [OF out] session_step.check [OF out] q by (cases u) (simp, blast)+
  next
    assume "sends s u"
    then obtain n where u: "u = ByTask n" "n < length (tasks s)" "holds_lock (tk_pc (tasks s ! n))" by (cases u) auto
    then obtain m where m: "tk_pc (tasks s ! n) = AtSend m" by (cases "tk_pc (tasks s ! n)") auto
    show ?thesis
    proof (cases "env_tx_ok (envs n) (tx_sent (tk_dl (tasks s ! n))) m \<and> chan_capacity \<le> length (chan s)")
      case False
      then show ?thesis
        using session_step.send [OF out u(2) m q [unfolded u(1)], of envs] by (meson not_le)
    next
      case True
      then have "\<not> to_check s" using not out q u m by (auto simp: stuck_def)
      moreover obtain m' ms where "chan s = m' # ms" using True by (cases "chan s") (auto simp: chan_capacity_def)
      ultimately show ?thesis using session_step.recv [OF out] by blast
    qed
  qed
qed

lemma someone_moves:
  assumes ok: "lock_ok s" and out: "outcome s = None"
  shows "(\<exists>s'. session_step envs inputs i s s') \<or> stuck envs s \<or> waits_for_peers s"
proof (cases "lock_queue s")
  case (Cons u q)
  then show ?thesis using holder_moves [OF ok out Cons] by blast
next
  case Nil
  show ?thesis
  proof (cases "\<exists>u. wants_to_lock s u")
    case True
    then show ?thesis using session_step.ask [OF out] Nil by fastforce
  next
    case False
    then have free: "\<not> to_check s" "n < length (tasks s) \<Longrightarrow> \<not> wants_lock (tk_pc (tasks s ! n))" for n
      by (metis wants_to_lock.simps)+
    have sends: "\<not> sends s u" for u using ok Nil by (auto simp: lock_ok_def)
    have hold: "\<not> holds_lock (tk_pc (tasks s ! n))" if "n < length (tasks s)" for n
      using sends [of "ByTask n"] that by simp
    show ?thesis
    proof (cases "chan s")
      case (Cons m ms)
      then show ?thesis using session_step.recv [OF out free(1)] by blast
    next
      case empty: Nil
      show ?thesis
      proof (cases "\<exists>n < length (tasks s). tk_pc (tasks s ! n) = AtDisconnect")
        case True
        then obtain n where n: "n < length (tasks s)" "tk_pc (tasks s ! n) = AtDisconnect" by blast
        have "length (chan s) < chan_capacity" using empty by (simp add: chan_capacity_def)
        then show ?thesis using session_step.disconnect [OF out n HOL.refl, of envs inputs i] by blast
      next
        case False
        have "tk_pc (tasks s ! n) = AtSelect \<or> (\<exists>r. tk_pc (tasks s ! n) = Ended r)" if "n < length (tasks s)" for n
          using False that free(2) [OF that] hold [OF that] by (cases "tk_pc (tasks s ! n)") auto
        then have all: "\<forall>tk \<in> set (tasks s). tk_pc tk = AtSelect \<or> (\<exists>r. tk_pc tk = Ended r)"
          by (metis in_set_conv_nth)
        show ?thesis
        proof (cases "\<exists>tk \<in> set (tasks s). tk_pc tk = AtSelect")
          case True
          then show ?thesis using all free(1) empty Nil by (simp add: waits_for_peers_def list_all_iff list_ex_iff)
        next
          case False
          then have "\<forall>tk \<in> set (tasks s). \<exists>r. tk_pc tk = Ended r" using all by blast
          then show ?thesis using session_step.closed [OF out free(1) empty] by blast
        qed
      qed
    qed
  qed
qed

section \<open>A run into it\<close>

text \<open>
  Seven one-byte pieces and two seeds. The first seed delivers five pieces while the receiving
  loop does not run yet, which fills the channel, and a sixth, which it keeps with the lock; the
  second waits for the lock with the last piece; the receiving loop takes one piece and queues for
  the lock behind it.
\<close>

abbreviation pair_peers :: "socket_addr list" where
  "pair_peers \<equiv> [(0, 0), (1, 0)]"

lemma pair_seed: "is_seed 7 [254] = Ok True"
  by (simp add: is_seed_def usize_sub_def usize_mul_def upt_rec piece_bucket_offset_def)

lemma pair_bits:
  "pick_piece (bits 7 0 0 0) = (Ok (Some 0), bits 7 0 1 0)" "pick_piece (bits 7 0 1 0) = (Ok (Some 1), bits 7 0 2 0)"
  "set_piece 0 (bits 7 0 2 0) = (Ok (), bits 7 128 2 1)" "pick_piece (bits 7 128 2 1) = (Ok (Some 2), bits 7 128 3 1)"
  "set_piece 2 (bits 7 128 3 1) = (Ok (), bits 7 160 3 1)" "pick_piece (bits 7 160 3 1) = (Ok (Some 3), bits 7 160 4 1)"
  "set_piece 3 (bits 7 160 4 1) = (Ok (), bits 7 176 4 1)" "pick_piece (bits 7 176 4 1) = (Ok (Some 4), bits 7 176 5 1)"
  "set_piece 4 (bits 7 176 5 1) = (Ok (), bits 7 184 5 1)" "pick_piece (bits 7 184 5 1) = (Ok (Some 5), bits 7 184 6 1)"
  "set_piece 5 (bits 7 184 6 1) = (Ok (), bits 7 188 6 1)" "pick_piece (bits 7 188 6 1) = (Ok (Some 6), bits 7 188 1 1)"
  "set_piece 6 (bits 7 188 1 1) = (Ok (), bits 7 190 1 1)" "set_piece 1 (bits 7 190 1 1) = (Ok (), bits 7 254 1 7)"
  by (simp_all add: bits_pick bits_set bits_advance)

lemma pair_left:
  "remaining (bits 7 0 c d) = Ok 7" "remaining (bits 7 128 c d) = Ok 6" "remaining (bits 7 160 c d) = Ok 5"
  "remaining (bits 7 176 c d) = Ok 4" "remaining (bits 7 184 c d) = Ok 3" "remaining (bits 7 188 c d) = Ok 2"
proof -
  have "count_ones 0 = 0" "count_ones 128 = 1" "count_ones 160 = 2" "count_ones 176 = 3" "count_ones 184 = 4"
    "count_ones 188 = 5" by code_simp+
  then show "remaining (bits 7 0 c d) = Ok 7" "remaining (bits 7 128 c d) = Ok 6" "remaining (bits 7 160 c d) = Ok 5"
    "remaining (bits 7 176 c d) = Ok 4" "remaining (bits 7 184 c d) = Ok 3" "remaining (bits 7 188 c d) = Ok 2"
    by (simp_all add: bits_remaining)
qed

lemma pair_run:
  assumes ok: "\<And>dl. ok dl (Received Unchoke)"
    and blocks: "\<And>dl. ok dl (Received (Piece 0 0 [1]))" "\<And>dl. ok dl (Received (Piece 1 0 [2]))"
      "\<And>dl. ok dl (Received (Piece 2 0 [3]))" "\<And>dl. ok dl (Received (Piece 3 0 [4]))"
      "\<And>dl. ok dl (Received (Piece 4 0 [5]))" "\<And>dl. ok dl (Received (Piece 5 0 [6]))"
      "\<And>dl. ok dl (Received (Piece 6 0 [7]))"
  shows "\<exists>s. unit_reach 7 ok (unit_start 7 pair_peers) s \<and> stuck (\<lambda>n. demo_env) s \<and>
    shared_bitfield s = bits 7 254 1 7 \<and> received s = [PieceMsg 0 1 [1]]"
proof -
  let ?r = "unit_reach 7 ok (unit_start 7 pair_peers)" and ?v = "replicate 7 0 :: u8 list"
  let ?new = "\<lambda>a. spawn (new_downloader (unit_info 7) (bits 7 0 0 0) a)"
  have s0: "?r (running (bits 7 0 0 0) [] [?new (0, 0), ?new (1, 0)] [] ?v [] False)"
    using session_reach.refl [of "\<lambda>_. demo_env" ok "unit_info 7" "unit_start 7 pair_peers"] by (simp add: unit_start_def)
  obtain a0 where a0: "awaits 7 0 a0" "?r (running (bits 7 0 1 0) [] [at AtHead a0, ?new (1, 0)] [] ?v [] False)"
    using unchoke_run [where ok = ok and j = 0 and init = "bits 7 0 0 0" and a = "(0, 0)",
        OF s0 _ _ _ pair_left(1) _ ok pair_bits(1)] by auto
  obtain b0 where b0: "awaits 7 1 b0" "?r (running (bits 7 0 2 0) [] [at AtHead a0, at AtHead b0] [] ?v [] False)"
    using unchoke_run [where ok = ok and j = 1 and init = "bits 7 0 0 0" and a = "(1, 0)",
        OF a0(2) _ _ _ pair_left(1) _ ok pair_bits(2)] by auto
  obtain a1 where a1: "awaits 7 2 a1"
    "?r (running (bits 7 128 3 1) [] [at AtHead a1, at AtHead b0] [PieceMsg 0 1 [1]] ?v [] False)"
    using deliver_run [where ok = ok and j = 0, OF b0(2) _ _ a0(1) pair_left(1) _ blocks(1) pair_bits(3) _ _ pair_bits(4)] by auto
  obtain a2 where a2: "awaits 7 3 a2"
    "?r (running (bits 7 160 4 1) [] [at AtHead a2, at AtHead b0] [PieceMsg 0 1 [1], PieceMsg 2 1 [3]] ?v [] False)"
    using deliver_run [where ok = ok and j = 0, OF a1(2) _ _ a1(1) pair_left(2) _ blocks(3) pair_bits(5) _ _ pair_bits(6)] by auto
  obtain a3 where a3: "awaits 7 4 a3"
    "?r (running (bits 7 176 5 1) [] [at AtHead a3, at AtHead b0]
      [PieceMsg 0 1 [1], PieceMsg 2 1 [3], PieceMsg 3 1 [4]] ?v [] False)"
    using deliver_run [where ok = ok and j = 0, OF a2(2) _ _ a2(1) pair_left(3) _ blocks(4) pair_bits(7) _ _ pair_bits(8)] by auto
  obtain a4 where a4: "awaits 7 5 a4"
    "?r (running (bits 7 184 6 1) [] [at AtHead a4, at AtHead b0]
      [PieceMsg 0 1 [1], PieceMsg 2 1 [3], PieceMsg 3 1 [4], PieceMsg 4 1 [5]] ?v [] False)"
    using deliver_run [where ok = ok and j = 0, OF a3(2) _ _ a3(1) pair_left(4) _ blocks(5) pair_bits(9) _ _ pair_bits(10)] by auto
  let ?four = "[PieceMsg 2 1 [3], PieceMsg 3 1 [4], PieceMsg 4 1 [5], PieceMsg 5 1 [6]]"
  obtain a5 where a5: "awaits 7 6 a5"
    "?r (running (bits 7 188 1 1) [] [at AtHead a5, at AtHead b0] (PieceMsg 0 1 [1] # ?four) ?v [] False)"
    using deliver_run [where ok = ok and j = 0, OF a4(2) _ _ a4(1) pair_left(5) _ blocks(6) pair_bits(11) _ _ pair_bits(12)] by auto
  obtain b1 where b1: "stored 7 1 2 b1"
    "?r (running (bits 7 188 1 1) [] [at AtHead a5, at (AtMark 1) b1] (PieceMsg 0 1 [1] # ?four) ?v [] False)"
    using block_run [where ok = ok and j = 1, OF a5(2) _ _ b0(1) pair_left(6) _ blocks(2)] by auto
  obtain a6 where a6: "idle 7 a6"
    "?r (running (bits 7 190 1 1) [ByTask 0] [at (AtSend (PieceMsg 6 1 [7])) a6, at (AtMark 1) b1] (PieceMsg 0 1 [1] # ?four) ?v [] False)"
    using hold_run [where ok = ok and j = 0, OF b1(2) _ _ a5(1) pair_left(6) _ blocks(7) pair_bits(13)] by auto
  have q1: "?r (running (bits 7 190 1 1) [ByTask 0, ByTask 1] [at (AtSend (PieceMsg 6 1 [7])) a6, at (AtMark 1) b1]
      (PieceMsg 0 1 [1] # ?four) ?v [] False)"
    using ask_run [OF a6(2), of "ByTask 1"] by simp
  obtain v where v: "?r (running (bits 7 190 1 1) [ByTask 0, ByTask 1] [at (AtSend (PieceMsg 6 1 [7])) a6, at (AtMark 1) b1]
      ?four v [PieceMsg 0 1 [1]] True)"
    using recv_run [OF q1 unit_store_msg] by auto
  have q2: "?r (running (bits 7 190 1 1) [ByTask 0, ByTask 1, ByReceiver] [at (AtSend (PieceMsg 6 1 [7])) a6, at (AtMark 1) b1]
      ?four v [PieceMsg 0 1 [1]] True)"
    using ask_run [OF v, of ByReceiver] by simp
  obtain a7 where a7: "?r (running (bits 7 190 1 1) [ByTask 1, ByReceiver] [at AtPick a7, at (AtMark 1) b1]
      (?four @ [PieceMsg 6 1 [7]]) v [PieceMsg 0 1 [1]] True)"
    using put_run [OF q2 _ _ a6(1)] by auto
  obtain b2 where b2: "?r (running (bits 7 254 1 7) [ByTask 1, ByReceiver] [at AtPick a7, at (AtSend (PieceMsg 1 1 [2])) b2]
      (?four @ [PieceMsg 6 1 [7]]) v [PieceMsg 0 1 [1]] True)"
    using mark_run [OF a7 _ _ b1(1) pair_bits(14)] by auto
  have "env_tx_ok demo_env sent m" for sent m by (simp add: demo_env_with_def)
  then have "stuck (\<lambda>n. demo_env) (running (bits 7 254 1 7) [ByTask 1, ByReceiver]
      [at AtPick a7, at (AtSend (PieceMsg 1 1 [2])) b2] (?four @ [PieceMsg 6 1 [7]]) v [PieceMsg 0 1 [1]] True)"
    by (simp add: stuck_def chan_capacity_def)
  with b2 show ?thesis by fastforce
qed

section \<open>Properties\<close>

text \<open>
  C12. The download can wait for ever, though every peer is honest and calm, every link works and
  every piece has been downloaded and validated. A task sends a finished piece while it holds the
  lock on the bitfield, and the receiving loop, which alone makes room in the channel, takes the
  lock between two messages. So when the channel is full, a task that gets the lock before the
  loop does never gives it back: from the state reached here no run, whatever the peers send,
  ends the download.
\<close>

theorem download_can_deadlock:
  "\<exists>f s0 s. new_file (replicate 20 1) (unit_info 7) pair_peers = Ok f \<and>
     start_download (unit_peer 254) (\<lambda>i. Ok (replicate 20 9)) f = Ok s0 \<and>
     ideal_env (unit_info 7) [1, 2, 3, 4, 5, 6, 7] demo_env \<and>
     session_reach (\<lambda>n. demo_env) (calm_input (honest (unit_info 7) [1, 2, 3, 4, 5, 6, 7])) (unit_info 7) s0 s \<and>
     remaining (shared_bitfield s) = Ok 0 \<and>
     \<not> (\<exists>ok s'. session_reach (\<lambda>n. demo_env) ok (unit_info 7) s s' \<and> outcome s' \<noteq> None)"
proof -
  let ?ok = "calm_input (honest (unit_info 7) [1, 2, 3, 4, 5, 6, 7])"
  have h: "honest (unit_info 7) [1, 2, 3, 4, 5, 6, 7] k 0 [[1, 2, 3, 4, 5, 6, 7] ! unat k]" if "unat k < 7" for k
    using that by (intro unit_honest) simp_all
  obtain s where s: "unit_reach 7 ?ok (unit_start 7 pair_peers) s" "stuck (\<lambda>n. demo_env) s" "shared_bitfield s = bits 7 254 1 7"
    using pair_run [where ok = ?ok] h [of 0] h [of 1] h [of 2] h [of 3] h [of 4] h [of 5] h [of 6]
    by (auto simp: unit_calm)
  have "count_ones 254 = 7" by code_simp
  then have left: "remaining (shared_bitfield s) = Ok 0" by (simp add: s(3) bits_remaining)
  have "outcome s' = None" if "session_reach (\<lambda>n. demo_env) ok (unit_info 7) s s'" for ok s'
    using stuck_forever [OF that s(2)] by (simp add: stuck_def)
  moreover have "new_file (replicate 20 1) (unit_info 7) pair_peers = Ok (unit_file 7 pair_peers)"
    "start_download (unit_peer 254) (\<lambda>i. Ok (replicate 20 9)) (unit_file 7 pair_peers) = Ok (unit_start 7 pair_peers)"
    by (simp_all add: unit_new unit_begin pair_seed)
  ultimately show ?thesis using s(1) left unit_ideal [of 7 "[1, 2, 3, 4, 5, 6, 7]"] by fastforce
qed

text \<open>
  C13. There is no other way to get stuck. In every reachable state of every session in which the
  download has not returned, either some task or the receiving loop can take a step that needs no
  input from a peer, or the state is the circle above, or nothing is left to do but to wait for the
  peers: the channel is empty, nobody wants the lock, and some task is at its stream.
\<close>

theorem no_other_deadlock:
  assumes "wf_download i" and "new_file ident i peers = Ok f" and "start_download pe hash f = Ok s0"
    and "session_reach envs ok i s0 s" and "outcome s = None"
  shows "(\<exists>s'. session_step envs (\<lambda>dl inp. False) i s s') \<or> stuck envs s \<or> waits_for_peers s"
proof -
  have "lock_ok s" using session_reach_lock [OF assms(4)] start_session_inv(3) [OF assms(1-3)] by blast
  then show ?thesis using someone_moves assms(5) by blast
qed

theorem no_other_deadlock_witness:
  "\<exists>s'. session_step (\<lambda>n. demo_env) (\<lambda>dl inp. False) (unit_info 2) (unit_start 2 duo_peers) s'"
proof -
  have "session_reach (\<lambda>n. demo_env) (\<lambda>dl inp. False) (unit_info 2) (unit_start 2 duo_peers) (unit_start 2 duo_peers)"
    by (rule session_reach.refl)
  from no_other_deadlock [OF duo_info_ok(1) duo_hyps(1,2) this] show ?thesis
    by (simp add: unit_start_def stuck_def waits_for_peers_def spawn_def)
qed

end
