(* ===== verification/Progress.thy ===== *)
theory Progress
  imports Deadlock
begin

text \<open>
  Downloads end. Seeds that answer what they were asked and do nothing else bring every session to
  an end in a bounded number of steps: a measure counts the blocks still to come, the points the
  tasks have to pass and the messages on their way.
\<close>

section \<open>The blocks still to come\<close>

definition left_blocks :: "seed_downloader \<Rightarrow> u32 \<Rightarrow> nat option" where
  "left_blocks s k = map_option (\<lambda>dl. unat (remaining_blocks dl)) (pending_pieces s k)"

definition todo_at :: "info \<Rightarrow> seed_downloader \<Rightarrow> nat \<Rightarrow> nat" where
  "todo_at i s k =
     (case left_blocks s (of_nat k) of
        Some n \<Rightarrow> n
      | None \<Rightarrow> if k \<in> owned (own_bitfield s) then 0 else num_blocks (piece_size i k))"

definition todo :: "info \<Rightarrow> seed_downloader \<Rightarrow> nat" where
  "todo i s = (\<Sum>k<piece_count i. todo_at i s k)"

lemma todo_mono: "(\<And>k. k < piece_count i \<Longrightarrow> todo_at i s' k \<le> todo_at i s k) \<Longrightarrow> todo i s' \<le> todo i s"
  unfolding todo_def by (rule sum_mono) simp

lemma todo_less:
  assumes "\<And>k. k < piece_count i \<Longrightarrow> todo_at i s' k \<le> todo_at i s k"
    and "k < piece_count i" and "todo_at i s' k < todo_at i s k"
  shows "todo i s' < todo i s"
  unfolding todo_def by (rule sum_strict_mono_ex1) (use assms in auto)

lemma todo_cong:
  "left_blocks s' = left_blocks s \<Longrightarrow> owned (own_bitfield s) \<subseteq> owned (own_bitfield s') \<Longrightarrow> todo i s' \<le> todo i s"
  by (rule todo_mono) (auto simp: todo_at_def split: option.splits)

text \<open>Asking for blocks changes nothing of this.\<close>

definition standing :: "seed_downloader \<Rightarrow> (u32 \<Rightarrow> nat option) \<times> bool \<times> bitfield" where
  "standing s = (left_blocks s, choked_us s, own_bitfield s)"

lemma continue_piece_standing: "keeps (\<lambda>s. standing s = x) (continue_piece env k)"
  unfolding keeps_def
proof (intro allI impI)
  fix s assume x: "standing s = x"
  show "standing (snd (continue_piece env k s)) = x"
  proof (cases "pending_pieces s k")
    case (Some dl)
    obtain r dl' s' where run: "request_blocks env k (dl, s) = (r, (dl', s'))" by (metis surj_pair)
    have "standing (s'\<lparr>pending_pieces := (pending_pieces s')(k \<mapsto> dl')\<rparr>) = x"
      using request_blocks_frame [of dl s env k] run Some unfolding x [symmetric]
      by (auto simp: standing_def left_blocks_def fun_eq_iff same_frame_def)
    then show ?thesis using Some run x by (simp add: continue_piece_def bnd_def)
  qed (simp add: continue_piece_def x)
qed

lemma continue_pieces_standing: "keeps (\<lambda>s. standing s = x) (continue_pieces env ks)"
  by (induction ks) (simp_all add: keeps continue_piece_standing)

lemma request_more_standing: "keeps (\<lambda>s. standing s = x) (request_more env)"
  unfolding request_more_def by (auto intro!: keeps continue_pieces_standing)

lemma request_next_standing:
  assumes "request_next env s = (r, s')"
  shows "left_blocks s' = left_blocks s" "choked_us s' = choked_us s" "own_bitfield s' = own_bitfield s"
  using keepsD [OF request_next_keeps [OF request_more_standing] HOL.refl assms] by (simp_all add: standing_def)

lemma todo_standing: "left_blocks s' = left_blocks s \<Longrightarrow> own_bitfield s' = own_bitfield s \<Longrightarrow> todo i s' = todo i s"
  by (simp add: todo_def todo_at_def cong: option.case_cong)

section \<open>What a step costs\<close>

text \<open>
  A peer answers: it unchokes a task that is choked, or sends a block the task waits for, and
  nothing else.
\<close>

definition answers :: "block_law \<Rightarrow> seed_downloader \<Rightarrow> download_input \<Rightarrow> bool" where
  "answers Q s inp \<longleftrightarrow>
     (case inp of
        Received Unchoke \<Rightarrow> choked_us s
      | Received (Piece k off block) \<Rightarrow>
          \<lparr>blk_piece_index = k, blk_begin = off, blk_len = of_nat (length block)\<rparr> \<in> pending_blocks s \<and>
          lawful Q (Piece k off block)
      | _ \<Rightarrow> False)"

lemma answers_cases:
  assumes "answers Q s inp"
  obtains "inp = Received Unchoke" "choked_us s"
    | k off block where "inp = Received (Piece k off block)" "lawful Q (Piece k off block)"
      "\<lparr>blk_piece_index = k, blk_begin = off, blk_len = of_nat (length block)\<rparr> \<in> pending_blocks s"
  using assms by (auto simp: answers_def split: download_input.splits message.splits)

lemma answers_calm: "answers Q s inp \<Longrightarrow> calm_input Q s inp"
  by (erule answers_cases) (auto simp: calm_input_def lawful_input_def lawful_def)

text \<open>The points of a round, weighed by what is left of it.\<close>

fun rank :: "task_pc \<Rightarrow> nat" where
  "rank AtSelect = 0"
| "rank (Ended r) = 0"
| "rank AtHead = 1"
| "rank AtPick = 3"
| "rank AtDisconnect = 4"
| "rank (AtSend m) = 8"
| "rank (AtMark k) = 9"

fun sends_at :: "task_pc \<Rightarrow> nat" where
  "sends_at (AtSend m) = 1"
| "sends_at AtDisconnect = 1"
| "sends_at pc = 0"

definition cost :: "info \<Rightarrow> task_pc \<Rightarrow> seed_downloader \<Rightarrow> nat" where
  "cost i pc s = 16 * (todo i s + of_bool (choked_us s)) + rank pc"

lemma request_next_rank:
  assumes "request_next env s = (r, s')"
  shows "rank (next_pc r) + of_bool (wants_lock (next_pc r)) \<le> 4" and "wants_lock (next_pc r) \<or> (\<exists>e. next_pc r = Ended e)"
  using request_next_pc [of env s "case r of Ok pc \<Rightarrow> pc" s'] assms by (cases r; auto)+

lemma next_cost:
  assumes run: "request_next env s1 = (r, s')" and less: "16 * (todo i s1 + of_bool (choked_us s1)) + 4 + n < N"
  shows "cost i (next_pc r) s' + of_bool (wants_lock (next_pc r)) + n < N"
  using request_next_rank(1) [OF run] request_next_standing [OF run] todo_standing [of s' s1 i] less
  by (simp add: cost_def)

lemma todo_choked: "todo i (s\<lparr>choked_us := c\<rparr>) = todo i s"
  by (rule todo_standing) (simp_all add: left_blocks_def fun_eq_iff)

lemma todo_tx: "todo i (s\<lparr>tx_sent := c\<rparr>) = todo i s"
  by (rule todo_standing) (simp_all add: left_blocks_def fun_eq_iff)

lemma of_nat_piece: "wf_info i \<Longrightarrow> k < piece_count i \<Longrightarrow> unat (of_nat k :: u32) = k"
  by (simp add: wf_info_def unat_of_nat_u32)

text \<open>A block that was waited for is one block less to come.\<close>

lemma accept_todo:
  assumes inv: "pipe_inv Q i s" and dl: "pending_pieces s k = Some dl"
    and mem: "\<lparr>blk_piece_index = k, blk_begin = off, blk_len = of_nat (length block)\<rparr> \<in> pending_blocks s"
    and law: "lawful Q (Piece k off block)"
  shows "todo i (accept_block k off block dl s) < todo i s"
proof -
  let ?s = "accept_block k off block dl s" and ?dl = "after_block off block dl"
  have k: "unat k < piece_count i" "0 < remaining_blocks dl"
    using inv dl by (auto simp: pipe_inv_def piece_pipe_def)
  then have "0 < unat (remaining_blocks dl)" by (simp add: unat_gt_0 word_neq_0_conv)
  moreover have "unat (remaining_blocks ?dl) = unat (remaining_blocks dl) - 1"
    using block_accepted(8) [OF inv dl mem] law by (simp add: lawful_def)
  ultimately have less: "unat (remaining_blocks ?dl) < unat (remaining_blocks dl)" by simp
  have left: "left_blocks ?s = (left_blocks s)(k \<mapsto> unat (remaining_blocks ?dl))"
    "left_blocks s k = Some (unat (remaining_blocks dl))" "own_bitfield ?s = own_bitfield s"
    using dl by (auto simp: left_blocks_def accept_block_def fun_eq_iff)
  show ?thesis
  proof (rule todo_less)
    show "unat k < piece_count i" by (rule k(1))
    show "todo_at i ?s (unat k) < todo_at i s (unat k)" using left less by (simp add: todo_at_def)
    show "todo_at i ?s j \<le> todo_at i s j" for j
      using left less by (cases "of_nat j = k") (auto simp: todo_at_def split: option.splits)
  qed
qed

lemma pick_todo:
  assumes wf: "wf_info i" and pick: "after_pick i s s'" and own: "owned (own_bitfield s') = owned (own_bitfield s)"
  shows "todo i s' \<le> todo i s"
proof (cases "pending_pieces s' = pending_pieces s")
  case True
  then show ?thesis using own by (intro todo_cong) (simp_all add: left_blocks_def fun_eq_iff)
next
  case False
  then obtain k dl' where k: "pending_pieces s k = None" "unat k < piece_count i" "unat k \<notin> owned (own_bitfield s)"
    and s': "pending_pieces s' = (pending_pieces s)(k \<mapsto> dl')"
    and dl': "unat (remaining_blocks dl') = num_blocks (piece_size i (unat k))"
    using pick unfolding after_pick_def by blast
  have left: "left_blocks s' = (left_blocks s)(k \<mapsto> num_blocks (piece_size i (unat k)))" "left_blocks s k = None"
    using s' dl' k(1) by (auto simp: left_blocks_def fun_eq_iff)
  have "todo_at i s' j \<le> todo_at i s j" if j: "j < piece_count i" for j
    using left k own of_nat_piece [OF wf j] by (cases "of_nat j = k") (auto simp: todo_at_def split: option.splits)
  then show ?thesis by (rule todo_mono)
qed

lemma mark_todo:
  assumes frame: "pending_pieces s' = pending_pieces s \<or> pending_pieces s' = (pending_pieces s)(k := None)"
    and own: "owned (own_bitfield s) \<subseteq> owned (own_bitfield s')" "pending_pieces s' \<noteq> pending_pieces s \<Longrightarrow> unat k \<in> owned (own_bitfield s')"
    and wf: "wf_info i"
  shows "todo i s' \<le> todo i s"
  using frame
proof
  assume "pending_pieces s' = pending_pieces s"
  then show ?thesis using own(1) by (intro todo_cong) (simp_all add: left_blocks_def fun_eq_iff)
next
  assume p: "pending_pieces s' = (pending_pieces s)(k := None)"
  then have left: "left_blocks s' = (left_blocks s)(k := None)" by (auto simp: left_blocks_def fun_eq_iff)
  show ?thesis
  proof (rule todo_mono)
    fix j assume j: "j < piece_count i"
    show "todo_at i s' j \<le> todo_at i s j"
    proof (cases "of_nat j = k \<and> pending_pieces s k \<noteq> None")
      case True
      then have "pending_pieces s' k \<noteq> pending_pieces s k" "unat k = j" using p of_nat_piece [OF wf j] by auto
      then have "j \<in> owned (own_bitfield s')" using own(2) by metis
      then show ?thesis using True left by (simp add: todo_at_def)
    next
      case False
      then have "left_blocks s' (of_nat j) = left_blocks s (of_nat j)" using left by (auto simp: left_blocks_def)
      then show ?thesis using own(1) by (auto simp: todo_at_def split: option.splits)
    qed
  qed
qed

text \<open>Every step makes a task cheaper, by more than what it puts into the channel and asks of the lock.\<close>

abbreviation cheaper :: "info \<Rightarrow> task_pc \<Rightarrow> seed_downloader \<Rightarrow> task_pc \<Rightarrow> seed_downloader \<Rightarrow> bool" where
  "cheaper i pc s pc' s' \<equiv> cost i pc' s' + of_bool (wants_lock pc') + 3 * sends_at pc < cost i pc s"

lemma select_cheaper:
  assumes inv: "pipe_inv Q i s" and ans: "answers Q s inp" and step: "task_step env inp (AtSelect, s) = (pc', s')"
  shows "cheaper i AtSelect s pc' s'"
  using ans
proof (cases rule: answers_cases)
  case 1
  then obtain r where run: "request_next env (s\<lparr>choked_us := False\<rparr>) = (r, s')" "pc' = next_pc r"
    using step by (auto simp: task_step_def select_input_def start_msg_def split: prod.splits)
  then show ?thesis using next_cost [OF run(1), of i 0 "cost i AtSelect s"] 1 by (simp add: cost_def todo_choked)
next
  case (2 k off block)
  obtain dl where dl: "pending_pieces s k = Some dl" using inv 2(3) by (force simp: pipe_inv_def)
  have short: "length block < 2 ^ 32" "Q k (unat off) block" using 2(2) by (simp_all add: lawful_def)
  note acc = block_accepted(9) [OF inv dl 2(3) short]
  let ?s = "accept_block k off block dl s" and ?dl = "after_block off block dl"
  have less: "todo i ?s < todo i s" by (rule accept_todo [OF inv dl 2(3,2)])
  have c: "choked_us ?s = choked_us s" by (simp add: accept_block_def)
  show ?thesis
  proof (cases "remaining_blocks ?dl = 0")
    case True
    then have "pc' = AtMark k" "s' = ?s"
      using step acc 2(1) by (simp_all add: task_step_def select_input_def start_msg_def bnd_def [of "store_block _ _ _"])
    then show ?thesis using less c by (simp add: cost_def)
  next
    case False
    then obtain r where run: "request_next env ?s = (r, s')" "pc' = next_pc r"
      using step acc 2(1)
      by (auto simp: task_step_def select_input_def start_msg_def bnd_def [of "store_block _ _ _"] split: prod.splits)
    then show ?thesis using next_cost [OF run(1), of i 0 "cost i AtSelect s"] less c by (simp add: cost_def)
  qed
qed

lemma mark_cheaper:
  assumes wf: "wf_info i" and ready: "mark_ready Q i k s" and step: "task_step env inp (AtMark k, s) = (pc', s')"
  shows "cheaper i (AtMark k) s pc' s'"
proof -
  obtain r s1 where run: "mark_piece env k s = (r, s1)" by (metis surj_pair)
  then have pc': "s' = s1" "pc' = next_pc (case r of Ok m \<Rightarrow> Ok (AtSend m) | Err e \<Rightarrow> Err e | Panic p \<Rightarrow> Panic p | Hang \<Rightarrow> Hang)"
    using step by (cases r; simp add: task_step_def; auto)+
  have k: "unat k < piece_count i" and bf: "bf_inv (own_bitfield s)" "unat k < total_pieces (own_bitfield s)"
    using ready by (simp_all add: mark_ready_def pipe_inv_def)
  obtain ro b where set: "set_piece k (own_bitfield s) = (ro, b)" by (metis surj_pair)
  note b = set_piece_owned [OF bf set]
  have s': "own_bitfield s' = b" "choked_us s' = choked_us s"
    "pending_pieces s' = pending_pieces s \<or> pending_pieces s' = (pending_pieces s)(k := None)"
    using run set pc'(1)
    by (auto simp: mark_piece_def with_bitfield_def bnd_def split: res.splits option.splits if_splits)
  have "todo i s' \<le> todo i s" by (rule mark_todo [OF s'(3) _ _ wf]) (use b(2) s'(1) in auto)
  moreover have "rank pc' + of_bool (wants_lock pc') \<le> 8" using pc'(2) by (cases r) simp_all
  ultimately show ?thesis using s'(2) by (simp add: cost_def)
qed

lemma task_step_cheaper:
  assumes env: "link_up env" "order_ok env" "wf_download i" and inv: "pc_pipe Q i pc s"
    and live: "\<forall>r. pc \<noteq> Ended r" and ans: "pc = AtSelect \<Longrightarrow> answers Q s inp"
    and step: "task_step env inp (pc, s) = (pc', s')"
  shows "cheaper i pc s pc' s'"
proof (cases pc)
  case AtHead
  then show ?thesis
    using inv head_step_pipe [of Q i s env inp pc' s'] step by (auto simp: cost_def)
next
  case AtSelect
  then show ?thesis using select_cheaper inv ans step by simp
next
  case (AtMark k)
  have "wf_info i" using env(3) by (simp add: wf_download_def)
  then show ?thesis using AtMark mark_cheaper inv step by simp
next
  case (AtSend m)
  show ?thesis
  proof (cases "env_tx_ok env (tx_sent s) m")
    case False
    then have "pc' = AtHead" "s' = s" using step AtSend by (simp_all add: task_step_def send_tx_def)
    then show ?thesis using AtSend by (simp add: cost_def)
  next
    case True
    then obtain r where run: "request_next env (s\<lparr>tx_sent := tx_sent s @ [m]\<rparr>) = (r, s')" "pc' = next_pc r"
      using step AtSend by (auto simp: task_step_def send_tx_def split: prod.splits)
    then show ?thesis
      using next_cost [OF run(1), of i 3 "cost i pc s"] AtSend by (simp add: cost_def todo_tx)
  qed
next
  case AtPick
  have s: "pipe_inv Q i s" "unat (inflight s) < 5" using inv AtPick by simp_all
  note pick = pick_step_pipe [OF env(1,3) s step [unfolded AtPick]]
  have "wf_info i" using env(3) by (simp add: wf_download_def)
  from pick_todo [OF this pick(5)] show ?thesis
    using pick(1,4) AtPick by (simp add: cost_def same_rest_def)
next
  case AtDisconnect
  have "todo i (s\<lparr>tx_sent := x\<rparr>) = todo i s" for x by (rule todo_tx)
  then show ?thesis
    using disconnect_step [of env inp s pc' s'] step AtDisconnect by (auto simp: cost_def)
qed (use live in simp)

section \<open>A task that waits is owed an answer\<close>

text \<open>
  A task at the head of the loop or at its stream is choked, or waits for blocks, or nothing is
  left to do; a task has ended only when nothing is left to do.
\<close>

fun busy :: "info \<Rightarrow> task_pc \<Rightarrow> seed_downloader \<Rightarrow> bool" where
  "busy i AtDisconnect s = False"
| "busy i (Ended e) s \<longleftrightarrow> owned (own_bitfield s) = {..<piece_count i}"
| "busy i AtHead s \<longleftrightarrow> choked_us s \<or> pending_blocks s \<noteq> {} \<or> owned (own_bitfield s) = {..<piece_count i}"
| "busy i AtSelect s \<longleftrightarrow> choked_us s \<or> pending_blocks s \<noteq> {} \<or> owned (own_bitfield s) = {..<piece_count i}"
| "busy i pc s = True"

text \<open>The peer stays and asks for nothing.\<close>

fun stays :: "download_input \<Rightarrow> bool" where
  "stays StreamEnd = False"
| "stays (Received (Request a b c)) = False"
| "stays (Received (Cancel a b c)) = False"
| "stays inp = True"

definition patient :: "block_law \<Rightarrow> seed_downloader \<Rightarrow> download_input \<Rightarrow> bool" where
  "patient Q s inp \<longleftrightarrow> calm_input Q s inp \<and> stays inp"

lemma answers_patient: "answers Q s inp \<Longrightarrow> patient Q s inp"
  using answers_calm [of Q s inp] by (auto simp: patient_def elim!: answers_cases)

lemma next_busy:
  assumes env: "link_up env" "order_ok env" and inv: "pipe_inv Q i s" and run: "request_next env s = (r, s')"
    and mid: "mid_calm s"
  shows "busy i (next_pc r) s'"
proof -
  have s': "pc_pipe Q i (next_pc r) s'" "pc_calm (next_pc r) s'"
    and pc: "next_pc r = AtHead \<and> (choked_us s' \<or> 5 \<le> unat (inflight s')) \<or> next_pc r = AtPick"
    using request_next_pipe [OF env inv run] mid by auto
  show ?thesis
    using pc
  proof (elim disjE conjE)
    assume h: "next_pc r = AtHead" "5 \<le> unat (inflight s')"
    then have "5 \<le> card (pending_blocks s')" using calm_inflight [of Q i s'] s' by simp
    then have "pending_blocks s' \<noteq> {}" by auto
    then show ?thesis using h by simp
  qed simp_all
qed

lemma select_busy:
  assumes env: "link_up env" "order_ok env" and inv: "pipe_inv Q i s" "calm s" "busy i AtSelect s"
    and ok: "patient Q s inp" and step: "task_step env inp (AtSelect, s) = (pc', s')"
  shows "busy i pc' s'"
proof (cases inp)
  case KeepAliveTimeout
  then show ?thesis
    using inv(3) step by (auto simp: task_step_def select_input_def bnd_def ignore_err_def send_message_def split: if_splits)
next
  case StreamEnd
  then show ?thesis using ok by (simp add: patient_def)
next
  case StreamError
  then show ?thesis using inv(3) step by (auto simp: task_step_def select_input_def)
next
  case (Received m)
  show ?thesis
  proof (cases m)
    case Choke
    then have "pc' = AtHead" "s' = choked_state s"
      using step choke_eq [OF env(2) inv(1)] Received by (auto simp: task_step_def select_input_def start_msg_def)
    then show ?thesis by simp
  next
    case Unchoke
    show ?thesis
    proof (cases "choked_us s")
      case False
      then show ?thesis
        using step Received Unchoke inv(3) by (auto simp: task_step_def select_input_def start_msg_def)
    next
      case True
      let ?s = "s\<lparr>choked_us := False\<rparr>"
      obtain r where run: "request_next env ?s = (r, s')" "pc' = next_pc r"
        using step Received Unchoke True by (auto simp: task_step_def select_input_def start_msg_def split: prod.splits)
      have "pipe_inv Q i ?s" "mid_calm ?s"
        using inv True calm_inflight [OF inv(1,2)] by (auto simp: pipe_inv_def mid_calm_def calm_def tight_def partial_def leak_def)
      from next_busy [OF env this(1) run(1) this(2)] run(2) show ?thesis by simp
    qed
  next
    case (Piece k off block)
    let ?b = "\<lparr>blk_piece_index = k, blk_begin = off, blk_len = of_nat (length block)\<rparr> :: block_download"
    show ?thesis
    proof (cases "?b \<in> pending_blocks s")
      case False
      then have "pc' = AtHead" "s' = s"
        using step Received Piece by (simp_all add: task_step_def select_input_def start_msg_def store_block_def Let_def)
      then show ?thesis using inv(3) by simp
    next
      case mem: True
      then obtain dl where dl: "pending_pieces s k = Some dl" using inv(1) by (force simp: pipe_inv_def)
      have short: "length block < 2 ^ 32" "Q k (unat off) block"
        using ok Received Piece by (simp_all add: patient_def calm_input_def lawful_input_def lawful_def)
      note acc = block_accepted [OF inv(1) dl mem short]
      let ?s = "accept_block k off block dl s" and ?dl = "after_block off block dl"
      have "\<not> choked_us s" using inv(2) mem by (auto simp: calm_def)
      then have mid: "mid_calm ?s"
        using inv(2) acc(4-7) by (auto simp: mid_calm_def calm_def tight_def accept_block_def)
      show ?thesis
      proof (cases "remaining_blocks ?dl = 0")
        case True
        then have "pc' = AtMark k"
          using step acc(9) Received Piece
          by (simp add: task_step_def select_input_def start_msg_def bnd_def [of "store_block _ _ _"])
        then show ?thesis by simp
      next
        case False
        then obtain r where run: "request_next env ?s = (r, s')" "pc' = next_pc r"
          using step acc(9) Received Piece
          by (auto simp: task_step_def select_input_def start_msg_def bnd_def [of "store_block _ _ _"] split: prod.splits)
        from next_busy [OF env acc(1) [OF False] run(1) mid] run(2) show ?thesis by simp
      qed
    qed
  qed (use step Received inv(3) ok in \<open>auto simp: task_step_def select_input_def start_msg_def handle_msg_def patient_def\<close>)
qed

text \<open>With no request half made, a pending piece waits for a block.\<close>

lemma pending_waits:
  assumes inv: "pipe_inv Q i s" and full: "partial s = {}" and dl: "pending_pieces s k = Some dl"
  shows "pending_blocks s \<noteq> {}"
proof
  assume empty: "pending_blocks s = {}"
  have "piece_pipe Q i k (of_piece k (pending_blocks s)) dl" "0 < remaining_blocks dl"
    using inv dl by (auto simp: pipe_inv_def)
  moreover have "of_piece k (pending_blocks s) = {}" using empty by (simp add: of_piece_def)
  ultimately obtain j where at: "pipe_at Q k {} dl j" and rem: "remaining_blocks dl \<noteq> 0"
    by (auto simp: piece_pipe_def)
  have "requested dl = dl_piece_length dl" using full dl by (auto simp: partial_def)
  then have "unat (remaining_blocks dl) = 0"
    using pipe_at_complete [OF at HOL.refl] at by (simp add: pipe_at_def Let_def)
  with rem show False by (simp add: unat_eq_0)
qed


lemma task_step_busy:
  assumes env: "ideal_env i content env" "wf_download i" "piece_count i mod 8 \<noteq> 0"
    and content: "length content = content_length (info_download_type i)"
    and inv: "pc_pipe (honest i content) i pc s" "pc_calm pc s" "busy i pc s" and live: "\<forall>r. pc \<noteq> Ended r"
    and ok: "pc = AtSelect \<Longrightarrow> patient (honest i content) s inp"
    and step: "task_step env inp (pc, s) = (pc', s')"
  shows "busy i pc' s'"
proof -
  let ?Q = "honest i content"
  have e: "link_up env" "order_ok env" using env(1) by (simp_all add: ideal_env_def)
  show ?thesis
  proof (cases pc)
    case AtHead
    then have pipe: "pipe_inv ?Q i s" and bf: "bf_inv (own_bitfield s)" "total_pieces (own_bitfield s) = piece_count i"
      using inv(1) by (simp_all add: pipe_inv_def)
    obtain left where left: "remaining (own_bitfield s) = Ok left" using remaining_ring [OF bf(1)] by blast
    show ?thesis
    proof (cases "left = 0")
      case True
      then have "owned (own_bitfield s) = {..<piece_count i}"
        using left remaining_zero_iff [OF bf(1)] unfolding bf(2) by blast
      moreover have "pc' = Ended (Ok ())" "s' = s"
        using step AtHead left True by (simp_all add: task_step_def head_check_def)
      ultimately show ?thesis by simp
    next
      case False
      then have "pc' = AtSelect" "s' = s" using step AtHead left by (simp_all add: task_step_def head_check_def)
      then show ?thesis using inv(3) AtHead by simp
    qed
  next
    case AtSelect
    then show ?thesis using select_busy [OF e] inv ok step by simp
  next
    case (AtMark k)
    then show ?thesis using mark_sends [OF env content, of k s inp pc' s'] inv(1) step by auto
  next
    case (AtSend m)
    let ?s = "s\<lparr>tx_sent := tx_sent s @ [m]\<rparr>"
    have "env_tx_ok env (tx_sent s) m" using env(1) by (simp add: ideal_env_def)
    then obtain r where run: "request_next env ?s = (r, s')" "pc' = next_pc r"
      using step AtSend by (auto simp: task_step_def send_tx_def split: prod.splits)
    have "pipe_inv ?Q i ?s" "mid_calm ?s"
      using inv AtSend by (simp_all add: pipe_inv_def mid_calm_def leak_def partial_def)
    from next_busy [OF e this(1) run(1) this(2)] run(2) show ?thesis by simp
  next
    case AtPick
    then have s: "pipe_inv ?Q i s" "unat (inflight s) < 5" "partial s = {}" using inv by simp_all
    note pick = pick_step_pipe [OF e(1) env(2) s(1,2) step [unfolded AtPick]]
    have "pending_blocks s \<noteq> {}" if "pending_pieces s \<noteq> Map.empty"
      using that pending_waits [OF s(1,3)] by (meson not_None_eq ext)
    then show ?thesis using pick(1,4,5) by (auto simp: after_pick_def same_rest_def)
  next
    case AtDisconnect
    then show ?thesis using inv(3) by simp
  qed (use live in simp)
qed

section \<open>The measure of a session\<close>

definition unqueued :: "session \<Rightarrow> lock_user \<Rightarrow> nat" where
  "unqueued s u = of_bool (wants_to_lock s u \<and> u \<notin> set (lock_queue s))"

definition task_cost :: "info \<Rightarrow> session \<Rightarrow> nat \<Rightarrow> nat" where
  "task_cost i s n = cost i (tk_pc (tasks s ! n)) ((tk_dl (tasks s ! n))\<lparr>own_bitfield := shared_bitfield s\<rparr>)"

definition progress :: "info \<Rightarrow> session \<Rightarrow> nat" where
  "progress i s = (\<Sum>n<length (tasks s). task_cost i s n + unqueued s (ByTask n)) +
     (unqueued s ByReceiver + of_bool (to_check s) + 3 * length (chan s) + of_bool (outcome s = None))"

lemma answers_bitfield [simp]: "answers Q (s\<lparr>own_bitfield := b\<rparr>) inp = answers Q s inp"
  and patient_bitfield [simp]: "patient Q (s\<lparr>own_bitfield := b\<rparr>) inp = patient Q s inp"
  by (simp_all add: answers_def patient_def calm_input_def lawful_input_def split: download_input.split message.split)

lemma cost_own:
  assumes "owned b \<subseteq> owned b'"
  shows "cost i pc (dl\<lparr>own_bitfield := b'\<rparr>) \<le> cost i pc (dl\<lparr>own_bitfield := b\<rparr>)"
proof -
  have "todo i (dl\<lparr>own_bitfield := b'\<rparr>) \<le> todo i (dl\<lparr>own_bitfield := b\<rparr>)"
    by (rule todo_cong) (use assms in \<open>simp_all add: left_blocks_def fun_eq_iff\<close>)
  then show ?thesis by (simp add: cost_def)
qed

lemma progress_task:
  assumes n: "n < length (tasks s)" and s': "tasks s' = tasks (put_task n (pc', dl') s)" "shared_bitfield s' = own_bitfield dl'"
    and less: "cost i pc' dl' + of_bool (wants_lock pc') + 3 * m < task_cost i s n"
    and grows: "owned (shared_bitfield s) \<subseteq> owned (shared_bitfield s')"
    and queue: "\<And>u. u \<noteq> ByTask n \<Longrightarrow> u \<in> set (lock_queue s) \<Longrightarrow> u \<in> set (lock_queue s')"
    and rest: "to_check s' = to_check s" "length (chan s') \<le> length (chan s) + m" "outcome s' = outcome s"
  shows "progress i s' < progress i s"
proof -
  let ?f = "\<lambda>s n. task_cost i s n + unqueued s (ByTask n)"
  have len: "length (tasks s') = length (tasks s)" using s'(1) by simp
  have nth: "tasks s' ! j = (if j = n then \<lparr>tk_pc = pc', tk_dl = dl'\<rparr> else tasks s ! j)" for j
    using s'(1) put_task_nth [OF n] by simp
  have "dl'\<lparr>own_bitfield := own_bitfield dl'\<rparr> = dl'" by (cases dl') simp
  then have "?f s' n \<le> cost i pc' dl' + of_bool (wants_lock pc')"
    using n len by (simp add: task_cost_def unqueued_def nth s'(2))
  then have one: "?f s' n + 3 * m < ?f s n" using less by simp
  have "?f s' j \<le> ?f s j" if "j < length (tasks s)" "j \<noteq> n" for j
  proof -
    have "task_cost i s' j \<le> task_cost i s j" using that cost_own [OF grows] by (simp add: task_cost_def nth)
    moreover have "unqueued s' (ByTask j) \<le> unqueued s (ByTask j)"
      using that queue [of "ByTask j"] by (auto simp: unqueued_def nth len)
    ultimately show ?thesis by simp
  qed
  then have "sum (?f s') ({..<length (tasks s)} - {n}) \<le> sum (?f s) ({..<length (tasks s)} - {n})"
    by (intro sum_mono) auto
  moreover have split: "sum (?f t) {..<length (tasks s)} = ?f t n + sum (?f t) ({..<length (tasks s)} - {n})" for t
    using n by (intro sum.remove) auto
  ultimately have "sum (?f s') {..<length (tasks s)} + 3 * m < sum (?f s) {..<length (tasks s)}"
    using one unfolding split by linarith
  moreover have "unqueued s' ByReceiver \<le> unqueued s ByReceiver"
    using queue [of ByReceiver] rest(1) by (auto simp: unqueued_def)
  ultimately show ?thesis using rest unfolding progress_def len by simp
qed

lemma ideal_inv_tasks:
  "ideal_inv i content s \<Longrightarrow> all_tasks (\<lambda>pc dl. pc_pipe (honest i content) i pc dl \<and> pc_calm pc dl) s"
  by (simp add: ideal_inv_def)

text \<open>A step of a task, with what the invariants say about it.\<close>

lemma step_task_ideal:
  assumes env: "\<forall>n. ideal_env i content (envs n)" "wf_download i" "piece_count i mod 8 \<noteq> 0"
    and content: "length content = content_length (info_download_type i)"
    and inv: "ideal_inv i content s" and n: "n < length (tasks s)" and live: "\<forall>r. tk_pc (tasks s ! n) \<noteq> Ended r"
    and ans: "tk_pc (tasks s ! n) = AtSelect \<Longrightarrow> answers (honest i content) (tk_dl (tasks s ! n)) inp"
    and step: "step_task (envs n) inp n s = (pc', dl')"
  shows "cost i pc' dl' + of_bool (wants_lock pc') + 3 * sends_at (tk_pc (tasks s ! n)) < task_cost i s n"
    and "owned (shared_bitfield s) \<subseteq> owned (own_bitfield dl')"
proof -
  let ?Q = "honest i content" and ?pc = "tk_pc (tasks s ! n)"
  let ?dl = "(tk_dl (tasks s ! n))\<lparr>own_bitfield := shared_bitfield s\<rparr>"
  have pre: "pc_pipe ?Q i ?pc ?dl" "pc_calm ?pc ?dl"
    using all_tasksD [OF ideal_inv_tasks [OF inv] n] by simp_all
  have e: "ideal_env i content (envs n)" "link_up (envs n)" "order_ok (envs n)"
    using env(1) by (simp_all add: ideal_env_def)
  have run: "task_step (envs n) inp (?pc, ?dl) = (pc', dl')" using step by (simp add: step_task_def)
  have a: "answers ?Q ?dl inp" if "?pc = AtSelect" using ans that by simp
  show "cost i pc' dl' + of_bool (wants_lock pc') + 3 * sends_at ?pc < task_cost i s n"
    using task_step_cheaper [OF e(2,3) env(2) pre(1) live a run] by (simp add: task_cost_def)
  have "delivers i content ?pc ?dl pc' dl'"
    using task_step_ideal(3) [OF e(1) env(2,3) content pre live answers_calm [OF a] run] .
  then show "owned (shared_bitfield s) \<subseteq> owned (own_bitfield dl')" by (auto simp: delivers_def)
qed

lemma session_progress:
  assumes env: "\<forall>n. ideal_env i content (envs n)" "wf_download i" "piece_count i mod 8 \<noteq> 0"
    and content: "length content = content_length (info_download_type i)"
    and inv: "ideal_inv i content s" and step: "session_step envs (answers (honest i content)) i s s'"
  shows "progress i s' < progress i s"
  using step
proof cases
  case (ask u)
  have q: "unqueued s' v \<le> unqueued s v" for v using ask(1) by (cases v) (auto simp: unqueued_def)
  have u: "unqueued s' u < unqueued s u" using ask by (simp add: unqueued_def)
  have cost: "task_cost i s' n = task_cost i s n" for n using ask(1) by (simp add: task_cost_def)
  show ?thesis
  proof (cases u)
    case (ByTask n)
    have "(\<Sum>j<length (tasks s). task_cost i s' j + unqueued s' (ByTask j)) <
        (\<Sum>j<length (tasks s). task_cost i s j + unqueued s (ByTask j))"
      by (rule sum_strict_mono_ex1) (use q u ask(3) ByTask cost in auto)
    then show ?thesis using q [of ByReceiver] ask(1) by (simp add: progress_def)
  next
    case ByReceiver
    have "(\<Sum>j<length (tasks s). task_cost i s' j + unqueued s' (ByTask j)) \<le>
        (\<Sum>j<length (tasks s). task_cost i s j + unqueued s (ByTask j))"
      by (rule sum_mono) (use q cost in simp)
    then show ?thesis using u ask(1) ByReceiver by (simp add: progress_def)
  qed
next
  case (locked n q)
  obtain pc' dl' where st: "step_task (envs n) KeepAliveTimeout n s = (pc', dl')" by (metis surj_pair)
  have live: "\<forall>r. tk_pc (tasks s ! n) \<noteq> Ended r" "tk_pc (tasks s ! n) \<noteq> AtSelect" using locked(5) by auto
  note new = step_task_ideal [OF env content inv locked(3) live(1) _ st]
  show ?thesis
    by (rule progress_task [OF locked(3), of _ pc' dl' _ 0]) (use locked st new live in auto)
next
  case (inp n inp)
  obtain pc' dl' where st: "step_task (envs n) inp n s = (pc', dl')" by (metis surj_pair)
  note new = step_task_ideal [OF env content inv inp(3) _ inp(5) st]
  have "own_bitfield dl' = shared_bitfield s" using step_task_own [of s n "envs n" inp] inp(4) st by simp
  then show ?thesis
    by (intro progress_task [OF inp(3), of _ pc' dl' _ 0]) (use inp st new in auto)
next
  case (send n m q)
  obtain pc' dl' where st: "step_task (envs n) KeepAliveTimeout n s = (pc', dl')" by (metis surj_pair)
  note new = step_task_ideal [OF env content inv send(3) _ _ st]
  have "own_bitfield dl' = shared_bitfield s" using step_task_own [of s n "envs n" KeepAliveTimeout] send(4) st by simp
  then show ?thesis
    by (intro progress_task [OF send(3), of _ pc' dl' _ 1]) (use send st new in \<open>auto simp: send_step_def\<close>)
next
  case (disconnect n m)
  obtain pc' dl' where st: "step_task (envs n) KeepAliveTimeout n s = (pc', dl')" by (metis surj_pair)
  note new = step_task_ideal [OF env content inv disconnect(3) _ _ st]
  have "own_bitfield dl' = shared_bitfield s" using step_task_own [of s n "envs n" KeepAliveTimeout] disconnect(4) st by simp
  then show ?thesis
    by (intro progress_task [OF disconnect(3), of _ pc' dl' _ 1]) (use disconnect st new in \<open>auto simp: send_step_def\<close>)
next
  case (recv m ms)
  have same: "task_cost i s' n = task_cost i s n" "unqueued s' (ByTask n) = unqueued s (ByTask n)" for n
    using recv by (simp_all add: task_cost_def unqueued_def)
  have "unqueued s' ByReceiver \<le> 1" "(of_bool (to_check s') :: nat) \<le> 1" "(of_bool (outcome s' = None) :: nat) \<le> of_bool (outcome s = None)"
    using recv(2) by (simp_all add: unqueued_def)
  then show ?thesis using recv same by (simp add: progress_def)
next
  case (check q)
  have same: "task_cost i s' n = task_cost i s n" "unqueued s' (ByTask n) = unqueued s (ByTask n)" for n
    using check by (simp_all add: task_cost_def unqueued_def)
  have "unqueued s' ByReceiver = 0" "(of_bool (outcome s' = None) :: nat) \<le> of_bool (outcome s = None)"
    using check by (simp_all add: unqueued_def)
  then show ?thesis using check same by (simp add: progress_def)
next
  case closed
  have same: "task_cost i s' n = task_cost i s n" "unqueued s' u = unqueued s u" for n u
    using closed by (cases u; simp add: task_cost_def unqueued_def)+
  then show ?thesis using closed by (simp add: progress_def)
qed

section \<open>No session of patient peers comes to nothing\<close>

text \<open>
  A marked piece is known to the receiving loop or on its way to it, so that the loop looks at the
  bitfield again after the last piece was marked; no error is returned.
\<close>

definition served :: "info \<Rightarrow> session \<Rightarrow> bool" where
  "served i s \<longleftrightarrow> tasks s \<noteq> [] \<and> all_tasks (busy i) s \<and> (\<forall>r. outcome s = Some r \<longrightarrow> (\<exists>v. r = Ok v)) \<and>
     (outcome s = None \<and> owned (shared_bitfield s) = {..<piece_count i} \<longrightarrow>
        to_check s \<or> chan s \<noteq> [] \<or> (\<exists>n < length (tasks s). \<exists>m. tk_pc (tasks s ! n) = AtSend m))"

lemma busy_own:
  assumes "busy i pc (dl\<lparr>own_bitfield := b\<rparr>)" and "owned b \<subseteq> owned b'" and "owned b' \<subseteq> {..<piece_count i}"
  shows "busy i pc (dl\<lparr>own_bitfield := b'\<rparr>)"
  using assms by (cases pc) auto

lemma task_moves_served:
  assumes env: "\<forall>n. ideal_env i content (envs n)" "wf_download i" "piece_count i mod 8 \<noteq> 0"
    and content: "length content = content_length (info_download_type i)"
    and sinv: "session_inv e i s'" and inv: "ideal_inv i content s" "served i s"
    and step: "task_moves envs (patient (honest i content)) n s s'"
  shows "served i s'"
proof -
  let ?Q = "honest i content" and ?pc = "tk_pc (tasks s ! n)"
  let ?dl = "(tk_dl (tasks s ! n))\<lparr>own_bitfield := shared_bitfield s\<rparr>"
  obtain inp pc' dl' where n: "n < length (tasks s)" and live: "\<forall>r. ?pc \<noteq> Ended r"
    and st: "step_task (envs n) inp n s = (pc', dl')" and ok: "?pc = AtSelect \<Longrightarrow> patient ?Q (tk_dl (tasks s ! n)) inp"
    and s': "tasks s' = tasks (put_task n (pc', dl') s)" "shared_bitfield s' = own_bitfield dl'"
    and rest: "chan s' = chan s @ sent_now (envs n) (tasks s ! n)" "to_check s' = to_check s" "outcome s = None" "outcome s' = None"
    using step by (auto simp: task_moves_def)
  have nth: "tasks s' ! j = (if j = n then \<lparr>tk_pc = pc', tk_dl = dl'\<rparr> else tasks s ! j)" for j
    using s'(1) put_task_nth [OF n] by simp
  have pre: "pc_pipe ?Q i ?pc ?dl" "pc_calm ?pc ?dl"
    using all_tasksD [OF ideal_inv_tasks [OF inv(1)] n] by simp_all
  have all: "all_tasks (busy i) s" using inv(2) by (simp add: served_def)
  from all_tasksD [OF this n] have busy: "busy i ?pc ?dl" .
  have run: "task_step (envs n) inp (?pc, ?dl) = (pc', dl')" using st by (simp add: step_task_def)
  have e: "ideal_env i content (envs n)" using env(1) by simp
  have p: "patient ?Q ?dl inp" if "?pc = AtSelect" using ok that by simp
  then have c: "calm_input ?Q ?dl inp" if "?pc = AtSelect" using that by (simp add: patient_def)
  have busy': "busy i pc' dl'" by (rule task_step_busy [OF e env(2,3) content pre busy live p run])
  have del: "delivers i content ?pc ?dl pc' dl'"
    by (rule task_step_ideal(3) [OF e env(2,3) content pre live c run])
  then have grows: "owned (shared_bitfield s) \<subseteq> owned (own_bitfield dl')" by (auto simp: delivers_def)
  have "bf_inv (own_bitfield dl')" "total_pieces (own_bitfield dl') = piece_count i"
    using sinv s'(2) by (simp_all add: session_inv_def)
  then have bound: "owned (own_bitfield dl') \<subseteq> {..<piece_count i}" by (auto simp: owned_def)
  have "all_tasks (busy i) s'"
    by (rule all_tasks_put [OF all n s' busy']) (rule busy_own [OF _ grows bound])
  moreover have "to_check s' \<or> chan s' \<noteq> [] \<or> (\<exists>j < length (tasks s'). \<exists>m. tk_pc (tasks s' ! j) = AtSend m)"
    if full: "owned (shared_bitfield s') = {..<piece_count i}"
  proof (cases "\<exists>m. pc' = AtSend m \<or> ?pc = AtSend m")
    case True
    have "chan s' \<noteq> []" if "?pc = AtSend m" for m
      using that rest(1) e by (simp add: sent_now_def ideal_env_def)
    moreover have "\<exists>j < length (tasks s'). \<exists>m. tk_pc (tasks s' ! j) = AtSend m" if "pc' = AtSend m" for m
      using that n s'(1) nth by (intro exI [of _ n]) simp
    ultimately show ?thesis using True by blast
  next
    case False
    then have "owned (own_bitfield dl') = owned (shared_bitfield s)" using del by (auto simp: delivers_def)
    then have "to_check s \<or> chan s \<noteq> [] \<or> (\<exists>j < length (tasks s). \<exists>m. tk_pc (tasks s ! j) = AtSend m)"
      using inv(2) full s'(2) rest(3) by (simp add: served_def)
    then show ?thesis
    proof (elim disjE exE conjE)
      fix j m assume j: "j < length (tasks s)" "tk_pc (tasks s ! j) = AtSend m"
      then have "j \<noteq> n" using False by auto
      then show ?thesis using j nth s'(1) by (metis put_task_simps(1))
    qed (use rest in simp_all)
  qed
  moreover have "tasks s' \<noteq> []" using n s'(1) by (metis length_greater_0_conv less_zeroE list.size(3) put_task_simps(1))
  ultimately show ?thesis using rest(4) by (simp add: served_def)
qed

lemma served_step:
  assumes env: "\<forall>n. ideal_env i content (envs n)" "wf_download i" "piece_count i mod 8 \<noteq> 0"
    and content: "length content = content_length (info_download_type i)"
    and sinv: "session_inv e i s" "session_inv e i s'" and inv: "ideal_inv i content s" "served i s"
    and step: "session_step envs (patient (honest i content)) i s s'"
  shows "served i s'"
  using step
proof (cases rule: session_step_cases)
  case (task n)
  then show ?thesis by (rule task_moves_served [OF env content sinv(2) inv])
next
  case (ask u)
  then show ?thesis using inv(2) by (simp add: served_def all_tasks_def)
next
  case (recv m ms)
  have "tx_msg_ok e i m" "pieces_stored i (out_bytes s) (received s)"
    using sinv(1) recv(3) by (simp_all add: session_inv_def)
  then obtain v' where "store_msg i m (out_bytes s) = Ok v'" using store_msg_inv [OF env(2)] by metis
  then have "s' = s\<lparr>chan := ms, received := received s @ [m], out_bytes := v', to_check := True\<rparr>"
    using recv(4) by (simp add: recv_step_def)
  then show ?thesis using inv(2) by (simp add: served_def all_tasks_def)
next
  case (check q)
  have bf: "bf_inv (shared_bitfield s)" "total_pieces (shared_bitfield s) = piece_count i"
    using sinv(1) by (simp_all add: session_inv_def)
  have "outcome s' = (if owned (shared_bitfield s) = {..<piece_count i} then Some (Ok (out_bytes s)) else None)"
    using check_step_outcome [OF bf(1), of q] check(4) bf(2) by simp
  then show ?thesis using inv(2) check(4) by (auto simp: served_def all_tasks_def split: if_splits)
next
  case closed
  have n: "0 < length (tasks s)" using inv(2) by (simp add: served_def)
  then obtain r where "tk_pc (tasks s ! 0) = Ended r" using closed(4) by (meson nth_mem)
  moreover have "all_tasks (busy i) s" using inv(2) by (simp add: served_def)
  ultimately have "owned (shared_bitfield s) = {..<piece_count i}" using all_tasksD [OF _ n, of "busy i"] by simp
  then obtain k m where "k < length (tasks s)" "tk_pc (tasks s ! k) = AtSend m"
    using inv(2) closed(1-3) by (auto simp: served_def)
  moreover from this(1) have "\<exists>r. tk_pc (tasks s ! k) = Ended r" using closed(4) nth_mem by blast
  ultimately show ?thesis by simp
qed


section \<open>Reachable states\<close>

lemma session_step_weaken:
  assumes "session_step envs ok i s s'" and "\<And>dl inp. ok dl inp \<Longrightarrow> ok' dl inp"
  shows "session_step envs ok' i s s'"
  using assms(1)
proof (induction rule: session_step.induct)
qed (auto intro: session_step.intros assms(2))



definition total_blocks :: "info \<Rightarrow> nat" where
  "total_blocks i = (\<Sum>k<piece_count i. num_blocks (piece_size i k))"

lemma start_progress:
  assumes wf: "wf_download i" and start: "new_file ident i peers = Ok f" "start_download pe hash f = Ok s"
  shows "progress i s = length (tasks s) * (16 * total_blocks i + 18) + 1"
proof -
  let ?b = "zero_pieces (of_nat (piece_count i)) :: bitfield"
  have wfi: "wf_info i" using wf by (simp add: wf_download_def)
  note shape = start_download_shape [OF wfi start]
  have "task_cost i s n + unqueued s (ByTask n) = 16 * total_blocks i + 18" if n: "n < length (tasks s)" for n
  proof -
    obtain a where a: "tasks s ! n = spawn (new_downloader i ?b a)" using shape(2) nth_mem [OF n] by blast
    have "left_blocks (new_downloader i ?b a) k = None" for k by (simp add: left_blocks_def new_downloader_def)
    then have "todo i (new_downloader i ?b a) = total_blocks i"
      by (simp add: todo_def todo_at_def total_blocks_def) (simp add: new_downloader_def)
    moreover have "(new_downloader i ?b a)\<lparr>own_bitfield := ?b\<rparr> = new_downloader i ?b a"
      "choked_us (new_downloader i ?b a)" by (simp_all add: new_downloader_def)
    ultimately show ?thesis using a n shape(1,6) by (simp add: task_cost_def unqueued_def spawn_def cost_def)
  qed
  then have "(\<Sum>n<length (tasks s). task_cost i s n + unqueued s (ByTask n)) = length (tasks s) * (16 * total_blocks i + 18)"
    by simp
  then show ?thesis using shape by (simp add: progress_def unqueued_def)
qed

lemma start_served:
  assumes wf: "wf_download i" "piece_count i mod 8 \<noteq> 0"
    and start: "new_file ident i peers = Ok f" "start_download pe hash f = Ok s" and some: "tasks s \<noteq> []"
  shows "served i s"
proof -
  let ?b = "zero_pieces (of_nat (piece_count i)) :: bitfield"
  have wfi: "wf_info i" using wf by (simp add: wf_download_def)
  note shape = start_download_shape [OF wfi start]
  have "all_tasks (busy i) s"
    unfolding all_tasks_def
  proof (intro allI impI)
    fix n assume "n < length (tasks s)"
    then obtain a where "tasks s ! n = spawn (new_downloader i ?b a)" using shape(2) nth_mem by blast
    then show "busy i (tk_pc (tasks s ! n)) ((tk_dl (tasks s ! n))\<lparr>own_bitfield := shared_bitfield s\<rparr>)"
      by (simp add: spawn_def new_downloader_def)
  qed
  moreover have "owned (shared_bitfield s) \<noteq> {..<piece_count i}"
    using shape(1) wf(2) by (cases "piece_count i") auto
  ultimately show ?thesis using shape(5) some by (simp add: served_def)
qed

text \<open>What holds of every state of a session with patient and honest seeds over links that work.\<close>

definition driven :: "(nat \<Rightarrow> env) \<Rightarrow> info \<Rightarrow> u8 list \<Rightarrow> session \<Rightarrow> bool" where
  "driven envs i content s \<longleftrightarrow>
     wf_download i \<and> piece_count i mod 8 \<noteq> 0 \<and> length content = content_length (info_download_type i) \<and>
     (\<forall>n. ideal_env i content (envs n) \<and> env_sha1 (envs n) = env_sha1 (envs 0)) \<and>
     session_inv (envs 0) i s \<and> ideal_inv i content s \<and> served i s \<and> lock_ok s"

lemma driven_step:
  assumes dr: "driven envs i content s" and step: "session_step envs (patient (honest i content)) i s s'"
  shows "driven envs i content s'"
proof -
  have wf: "wf_download i" "piece_count i mod 8 \<noteq> 0" and content: "length content = content_length (info_download_type i)"
    and env: "\<forall>n. ideal_env i content (envs n)" "\<forall>n. env_sha1 (envs n) = env_sha1 (envs 0)"
    and inv: "session_inv (envs 0) i s" "ideal_inv i content s" "served i s" "lock_ok s"
    using dr by (auto simp: driven_def)
  have calm: "session_step envs (calm_input (honest i content)) i s s'"
    by (rule session_step_weaken [OF step]) (simp add: patient_def)
  note inv' = session_step_inv [OF wf(1) env(2) inv(1) step] ideal_step [OF env(1) wf content inv(1,2) calm]
    lock_ok_step [OF inv(4) step]
  have "served i s'" by (rule served_step [OF env(1) wf content inv(1) inv'(1) inv(2,3) step])
  then show ?thesis using dr inv' by (simp add: driven_def)
qed

lemma start_driven:
  assumes "wf_download i" and "piece_count i mod 8 \<noteq> 0"
    and "length content = content_length (info_download_type i)"
    and "\<forall>n. ideal_env i content (envs n) \<and> env_sha1 (envs n) = sha"
    and "new_file ident i peers = Ok f" and "start_download pe hash f = Ok s" and "tasks s \<noteq> []"
  shows "driven envs i content s"
  using assms start_session_inv [OF assms(1,5,6)] start_served [OF assms(1,2,5-7)] by (simp add: driven_def)


lemma answered_patient:
  "session_step envs (answers Q) i s s' \<Longrightarrow> session_step envs (patient Q) i s s'"
  using session_step_weaken answers_patient by blast

abbreviation answered_step :: "(nat \<Rightarrow> env) \<Rightarrow> info \<Rightarrow> u8 list \<Rightarrow> session \<Rightarrow> session \<Rightarrow> bool" where
  "answered_step envs i content \<equiv> session_step envs (answers (honest i content)) i"

interpretation answered: descending "answered_step envs i content" "driven envs i content" "progress i"
  for envs i content
proof unfold_locales
  fix s s'
  assume dr: "driven envs i content s" and step: "session_step envs (answers (honest i content)) i s s'"
  show "driven envs i content s'" by (rule driven_step [OF dr answered_patient [OF step]])
  show "progress i s' < progress i s"
    using dr session_progress [OF _ _ _ _ _ step] by (simp add: driven_def)
qed




section \<open>Properties\<close>

text \<open>
  C15. A download in which the peers answer does not go on for ever, when the number of pieces is no
  multiple of eight and the links work: from the start, with seeds that answer what they were
  asked and do nothing else, in every interleaving, a session takes at most
  sixteen steps for every block of the content and eighteen more for every seed, and one.
\<close>

theorem answered_download_is_bounded:
  assumes "wf_download i" and "piece_count i mod 8 \<noteq> 0"
    and "length content = content_length (info_download_type i)"
    and "\<forall>n. ideal_env i content (envs n) \<and> env_sha1 (envs n) = sha"
    and "new_file ident i peers = Ok f" and "start_download pe hash f = Ok s0" and "tasks s0 \<noteq> []"
    and "(answered_step envs i content ^^ k) s0 s"
  shows "k \<le> length (tasks s0) * (16 * (\<Sum>j<piece_count i. num_blocks (piece_size i j)) + 18) + 1"
  using answered.run_bounded [OF start_driven [OF assms(1-7)] assms(8)] start_progress [OF assms(1,5,6)]
  by (simp add: total_blocks_def)

lemma duo_env: "\<forall>n::nat. ideal_env (unit_info 2) [1, 2] demo_env \<and> env_sha1 demo_env = env_sha1 demo_env"
  by (simp add: unit_ideal)

lemma duo_tasks: "tasks (unit_start 2 duo_peers) \<noteq> []" "length (tasks (unit_start 2 duo_peers)) = 1"
  by (simp_all add: unit_start_def)

theorem answered_download_is_bounded_witness:
  "\<exists>s. session_step (\<lambda>n. demo_env) (answers (honest (unit_info 2) [1, 2])) (unit_info 2) (unit_start 2 duo_peers) s \<and>
     1 \<le> 16 * (\<Sum>j<2. num_blocks (piece_size (unit_info 2) j)) + 19"
proof -
  let ?s = "unit_start 2 duo_peers"
  have "outcome ?s = None" "wants_to_lock ?s (ByTask 0)" "ByTask 0 \<notin> set (lock_queue ?s)"
    by (simp_all add: unit_start_def spawn_def)
  note step = session_step.ask [OF this]
  have "piece_count (unit_info 2) mod 8 \<noteq> 0" "length [1, 2] = content_length (info_download_type (unit_info 2))"
    by (simp_all add: duo_info_ok)
  from answered_download_is_bounded [OF duo_info_ok(1) this duo_env duo_hyps(1,2) duo_tasks(1), of 1] step show ?thesis
    by (auto simp: duo_tasks duo_info_ok)
qed



end
