(* ===== verification/Utf8.thy ===== *)
theory Utf8
  imports Prelude
begin

text \<open>
  UTF-8 as the standard library decides it: \<open>str::from_utf8\<close> accepts the well-formed byte
  strings, \<open>String::from_utf8_lossy\<close> replaces every maximal ill-formed part by U+FFFD.
\<close>

section \<open>One character\<close>

text \<open>The ranges of the bytes that must follow a first byte; \<open>None\<close> when it cannot start a character.\<close>

definition utf8_conts :: "u8 \<Rightarrow> (u8 \<times> u8) list option" where
  "utf8_conts b =
     (if b < 0x80 then Some []
      else if 0xC2 \<le> b \<and> b \<le> 0xDF then Some [(0x80, 0xBF)]
      else if b = 0xE0 then Some [(0xA0, 0xBF), (0x80, 0xBF)]
      else if b = 0xED then Some [(0x80, 0x9F), (0x80, 0xBF)]
      else if 0xE1 \<le> b \<and> b \<le> 0xEF then Some [(0x80, 0xBF), (0x80, 0xBF)]
      else if b = 0xF0 then Some [(0x90, 0xBF), (0x80, 0xBF), (0x80, 0xBF)]
      else if 0xF1 \<le> b \<and> b \<le> 0xF3 then Some [(0x80, 0xBF), (0x80, 0xBF), (0x80, 0xBF)]
      else if b = 0xF4 then Some [(0x80, 0x8F), (0x80, 0xBF), (0x80, 0xBF)]
      else None)"

text \<open>Whether the bytes fit the ranges, and how many do.\<close>

fun match_conts :: "(u8 \<times> u8) list \<Rightarrow> u8 list \<Rightarrow> bool \<times> nat" where
  "match_conts [] bs = (True, 0)"
| "match_conts ((lo, hi) # cs) [] = (False, 0)"
| "match_conts ((lo, hi) # cs) (b # bs) =
     (if lo \<le> b \<and> b \<le> hi then (case match_conts cs bs of (ok, n) \<Rightarrow> (ok, Suc n)) else (False, 0))"

text \<open>The first character of a nonempty string: whether it is well formed, and its length.\<close>

definition utf8_step :: "u8 \<Rightarrow> u8 list \<Rightarrow> bool \<times> nat" where
  "utf8_step b bs =
     (case utf8_conts b of
        None \<Rightarrow> (False, 1)
      | Some cs \<Rightarrow> (case match_conts cs bs of (ok, n) \<Rightarrow> (ok, Suc n)))"

section \<open>Strings\<close>

definition replacement_char :: "u8 list" where
  "replacement_char = [0xEF, 0xBF, 0xBD]"

lemma match_conts_length: "snd (match_conts cs bs) \<le> length bs"
  by (induction cs bs rule: match_conts.induct) (auto split: prod.splits)

lemma utf8_step_bounds:
  assumes "utf8_step b bs = (ok, n)"
  shows "0 < n" and "n \<le> Suc (length bs)"
proof -
  show "0 < n" using assms by (auto simp: utf8_step_def split: option.splits prod.splits)
  have "snd (match_conts cs bs) \<le> length bs" for cs by (rule match_conts_length)
  then have "match_conts cs bs = (ok', m) \<Longrightarrow> m \<le> length bs" for cs ok' m by (metis snd_conv)
  then show "n \<le> Suc (length bs)"
    using assms by (auto simp: utf8_step_def split: option.splits prod.splits)
qed

function utf8_valid :: "u8 list \<Rightarrow> bool" where
  "utf8_valid [] \<longleftrightarrow> True"
| "utf8_valid (b # bs) \<longleftrightarrow> (case utf8_step b bs of (ok, n) \<Rightarrow> ok \<and> utf8_valid (drop n (b # bs)))"
  by pat_completeness auto
termination
  by (relation "measure length") (use utf8_step_bounds in \<open>fastforce dest: sym\<close>)+

function from_utf8_lossy :: "u8 list \<Rightarrow> u8 list" where
  "from_utf8_lossy [] = []"
| "from_utf8_lossy (b # bs) =
     (case utf8_step b bs of
        (ok, n) \<Rightarrow> (if ok then take n (b # bs) else replacement_char) @ from_utf8_lossy (drop n (b # bs)))"
  by pat_completeness auto
termination
  by (relation "measure length") (use utf8_step_bounds in \<open>fastforce dest: sym\<close>)+

declare utf8_valid.simps(2) [simp del] from_utf8_lossy.simps(2) [simp del]

lemma match_conts_append:
  assumes "match_conts cs bs = (True, n)"
  shows "match_conts cs (take n bs @ rest) = (True, n)"
  using assms by (induction cs bs arbitrary: n rule: match_conts.induct) (auto split: if_splits prod.splits)

lemma utf8_step_append:
  assumes "utf8_step b bs = (True, n)"
  shows "utf8_step b (take (n - 1) bs @ rest) = (True, n)"
  using assms match_conts_append by (auto simp: utf8_step_def split: option.splits prod.splits)

lemma utf8_valid_step:
  assumes "utf8_step b bs = (True, n)"
  shows "utf8_valid (take n (b # bs) @ rest) = utf8_valid rest"
proof -
  obtain m where n: "n = Suc m" using utf8_step_bounds(1) [OF assms] gr0_implies_Suc by blast
  have le: "m \<le> length bs" using utf8_step_bounds(2) [OF assms] n by simp
  have "utf8_step b (take m bs @ rest) = (True, n)" using utf8_step_append [OF assms, of rest] n by simp
  then show ?thesis using n le by (simp add: utf8_valid.simps)
qed

lemma utf8_step_replacement: "utf8_step 0xEF [0xBF, 0xBD] = (True, 3)"
  by (simp add: utf8_step_def utf8_conts_def numeral_3_eq_3)

lemma utf8_valid_replacement: "utf8_valid (replacement_char @ rest) = utf8_valid rest"
  using utf8_valid_step [OF utf8_step_replacement, of rest] by (simp add: replacement_char_def numeral_3_eq_3)

lemma lossy_valid: "utf8_valid (from_utf8_lossy v)"
proof (induction v rule: from_utf8_lossy.induct)
  case (2 b bs)
  obtain ok n where step: "utf8_step b bs = (ok, n)" by (metis surj_pair)
  then have "utf8_valid (from_utf8_lossy (drop n (b # bs)))" using 2 by simp
  then show ?case
    using step utf8_valid_step [of b bs n] utf8_valid_replacement
    by (cases ok) (simp_all add: from_utf8_lossy.simps)
qed simp

lemma lossy_id: "utf8_valid v \<Longrightarrow> from_utf8_lossy v = v"
proof (induction v rule: utf8_valid.induct)
  case (2 b bs)
  obtain n where step: "utf8_step b bs = (True, n)" "utf8_valid (drop n (b # bs))"
    using 2(2) by (auto simp: utf8_valid.simps split: prod.splits)
  then have "from_utf8_lossy (drop n (b # bs)) = drop n (b # bs)" using 2(1) by simp
  then show ?case using step(1) by (simp add: from_utf8_lossy.simps)
qed simp

lemma utf8_step_ascii: "b < 0x80 \<Longrightarrow> utf8_step b bs = (True, 1)"
  by (simp add: utf8_step_def utf8_conts_def)

lemma utf8_valid_ascii: "\<forall>b \<in> set bs. b < 0x80 \<Longrightarrow> utf8_valid bs"
  by (induction bs) (simp_all add: utf8_valid.simps utf8_step_ascii)

end
