(* ===== verification/Decimal.thy ===== *)
theory Decimal
  imports Utf8
begin

text \<open>
  Decimal numbers as the standard library reads and prints them: \<open>str::parse\<close> and \<open>to_string\<close>.
\<close>

section \<open>Reading\<close>

text \<open>
  \<open>str::parse\<close> for \<open>usize\<close>: an optional plus sign, at least one digit, nothing else, and the
  number has to fit the type.
\<close>

definition is_digit :: "u8 \<Rightarrow> bool" where
  "is_digit b \<longleftrightarrow> 48 \<le> b \<and> b \<le> 57"

definition digits_value :: "u8 list \<Rightarrow> nat" where
  "digits_value ds = foldl (\<lambda>acc d. 10 * acc + (unat d - 48)) 0 ds"

definition parse_digits :: "u8 list \<Rightarrow> nat option" where
  "parse_digits ds = (if ds \<noteq> [] \<and> list_all is_digit ds then Some (digits_value ds) else None)"

definition strip_plus :: "u8 list \<Rightarrow> u8 list" where
  "strip_plus ds = (case ds of [] \<Rightarrow> [] | d # rest \<Rightarrow> if d = 43 then rest else ds)"

definition parse_usize :: "u8 list \<Rightarrow> usize res" where
  "parse_usize ds =
     (case parse_digits (strip_plus ds) of
        None \<Rightarrow> Err ParseFailed
      | Some n \<Rightarrow> if n < 2 ^ 64 then Ok n else Err ParseFailed)"

section \<open>Printing\<close>

text \<open>\<open>to_string\<close> of an unsigned number: no leading zeros.\<close>

fun dec :: "nat \<Rightarrow> u8 list" where
  "dec n = (if n < 10 then [of_nat (48 + n)] else dec (n div 10) @ [of_nat (48 + n mod 10)])"

declare dec.simps [simp del]

lemma unat_digit: "k < 10 \<Longrightarrow> unat (of_nat (48 + k) :: u8) = 48 + k"
proof -
  assume "k < 10"
  moreover have "m < 256 \<Longrightarrow> unat (of_nat m :: u8) = m" for m by (simp add: unat_of_nat take_bit_nat_eq_self)
  ultimately show ?thesis by (simp del: of_nat_add)
qed

lemma is_digit_of_nat: "k < 10 \<Longrightarrow> is_digit (of_nat (48 + k))"
  using unat_digit [of k] by (simp add: is_digit_def word_le_nat_alt)

lemma dec_nonempty [simp]: "dec n \<noteq> []"
  by (subst dec.simps) simp

lemma dec_digits: "list_all is_digit (dec n)"
proof (induction n rule: dec.induct)
  case (1 n)
  then show ?case by (subst dec.simps) (simp add: is_digit_of_nat del: of_nat_add)
qed

lemma digits_value_snoc: "digits_value (ds @ [d]) = 10 * digits_value ds + (unat d - 48)"
  by (simp add: digits_value_def)

lemma digits_value_dec: "digits_value (dec n) = n"
proof (induction n rule: dec.induct)
  case (1 n)
  show ?case
  proof (cases "n < 10")
    case True
    then show ?thesis using unat_digit [of n] digits_value_snoc [of "[]" "of_nat (48 + n)"]
      by (subst dec.simps) (simp add: digits_value_def del: of_nat_add)
  next
    case False
    then show ?thesis using 1 unat_digit [of "n mod 10"]
      by (subst dec.simps) (simp add: digits_value_snoc del: of_nat_add)
  qed
qed

lemma parse_digits_dec: "parse_digits (dec n) = Some n"
  by (simp add: parse_digits_def dec_digits digits_value_dec)

lemma dec_Cons:
  obtains d ds where "dec n = d # ds" "is_digit d"
  using dec_digits [of n] by (cases "dec n") auto

lemma digit_not: "is_digit d \<Longrightarrow> d \<noteq> 43 \<and> d \<noteq> 45 \<and> d \<noteq> 58 \<and> d \<noteq> 100 \<and> d \<noteq> 101 \<and> d \<noteq> 105 \<and> d \<noteq> 108 \<and> d < 0x80"
  by (auto simp: is_digit_def word_le_nat_alt word_less_nat_alt)

lemma dec_not_in: "58 \<notin> set (dec n)" "101 \<notin> set (dec n)"
  using dec_digits [of n] digit_not by (auto simp: list_all_iff)

lemma utf8_dec: "utf8_valid (dec n)" "utf8_valid (45 # dec n)"
  using dec_digits [of n] digit_not by (auto simp: list_all_iff intro!: utf8_valid_ascii)

lemma strip_plus_dec: "strip_plus (dec n) = dec n"
proof -
  obtain d ds where "dec n = d # ds" "is_digit d" by (rule dec_Cons)
  then show ?thesis using digit_not [of d] by (simp add: strip_plus_def)
qed

end
