(* ===== verification/Bencode.thy ===== *)
theory Bencode
  imports Decimal "HOL-Library.List_Lexorder"
begin

text \<open>
  The values of \<open>src/bencode/mod.rs\<close> and the hand-written decoder, \<open>src/bencode/plain.rs\<close>. A \<open>String\<close> is its UTF-8 bytes, a \<open>BTreeMap\<close> the list of its
  entries with strictly increasing keys. The recursion of the decoder runs on fuel, with \<open>Hang\<close>
  for fuel that does not suffice; the decoder starts with more fuel than bytes, which is shown
  to be enough.
\<close>

section \<open>Values\<close>

datatype bvalue =
    VInt int
  | VString "u8 list"
  | VList "bvalue list"
  | VMap "(u8 list \<times> bvalue) list"

text \<open>\<open>BTreeMap::insert\<close>: a value under a key that is present is replaced.\<close>

fun btree_insert :: "u8 list \<Rightarrow> 'v \<Rightarrow> (u8 list \<times> 'v) list \<Rightarrow> (u8 list \<times> 'v) list" where
  "btree_insert k v [] = [(k, v)]"
| "btree_insert k v ((k', v') # m) =
     (if k < k' then (k, v) # (k', v') # m
      else if k = k' then (k, v) # m
      else (k', v') # btree_insert k v m)"

section \<open>Numbers\<close>

text \<open>\<open>str::parse\<close> for \<open>i64\<close>: a minus sign is accepted too.\<close>

definition parse_i64 :: "u8 list \<Rightarrow> int res" where
  "parse_i64 ds =
     (case ds of
        [] \<Rightarrow> Err ParseFailed
      | d # rest \<Rightarrow>
          if d = 45 then
            (case parse_digits rest of
               None \<Rightarrow> Err ParseFailed
             | Some n \<Rightarrow> if n \<le> 2 ^ 63 then Ok (- int n) else Err ParseFailed)
          else
            (case parse_digits (strip_plus ds) of
               None \<Rightarrow> Err ParseFailed
             | Some n \<Rightarrow> if n < 2 ^ 63 then Ok (int n) else Err ParseFailed))"

section \<open>The decoder\<close>

text \<open>\<open>iter().position(|&b| b == x)\<close>.\<close>

fun position :: "u8 \<Rightarrow> u8 list \<Rightarrow> nat option" where
  "position x [] = None"
| "position x (b # bs) = (if b = x then Some 0 else map_option Suc (position x bs))"

definition parse_utf8 :: "(u8 list \<Rightarrow> 'a res) \<Rightarrow> u8 list \<Rightarrow> 'a res" where
  "parse_utf8 parse ds = (if utf8_valid ds then parse ds else Err Utf8Invalid)"

definition decode_string :: "u8 list \<Rightarrow> (u8 list \<times> bvalue) res" where
  "decode_string bytes =
     (case position 58 bytes of
        None \<Rightarrow> Err (Anyhow ''string size is missing colon'')
      | Some colon_pos \<Rightarrow>
          and_then (parse_utf8 parse_usize (take colon_pos bytes)) (\<lambda>len.
          let bytes' = drop (colon_pos + 1) bytes in
          if len \<le> length bytes' then Ok (drop len bytes', VString (from_utf8_lossy (take len bytes')))
          else Panic OutOfBounds))"

definition decode_int :: "u8 list \<Rightarrow> (u8 list \<times> bvalue) res" where
  "decode_int bytes =
     (case position 101 bytes of
        None \<Rightarrow> Err (Anyhow ''missing e when parsing integer'')
      | Some end_pos \<Rightarrow>
          and_then (parse_utf8 parse_i64 (take (end_pos - 1) (drop 1 bytes))) (\<lambda>num.
          Ok (drop (end_pos + 1) bytes, VInt num)))"

text \<open>The function and its two loops.\<close>

fun decode_plain :: "nat \<Rightarrow> u8 list \<Rightarrow> (u8 list \<times> bvalue) res"
  and decode_list :: "nat \<Rightarrow> u8 list \<Rightarrow> bvalue list \<Rightarrow> (u8 list \<times> bvalue) res"
  and decode_dict :: "nat \<Rightarrow> u8 list \<Rightarrow> (u8 list \<times> bvalue) list \<Rightarrow> (u8 list \<times> bvalue) res"
where
  "decode_plain 0 bytes = Hang"
| "decode_plain (Suc n) bytes =
     (case bytes of
        [] \<Rightarrow> Err (Anyhow ''input is empty'')
      | ch # rest \<Rightarrow>
          if is_digit ch then decode_string bytes
          else if ch = 105 then decode_int bytes
          else if ch = 108 then decode_list n rest []
          else if ch = 100 then decode_dict n rest []
          else Panic TodoReached)"
| "decode_list 0 bytes acc = Hang"
| "decode_list (Suc n) bytes acc =
     and_then (decode_plain n bytes) (\<lambda>(bytes, elem).
     let acc = acc @ [elem] in
     case bytes of
       [] \<Rightarrow> decode_list n bytes acc
     | b # rest \<Rightarrow> if b = 101 then Ok (rest, VList acc) else decode_list n bytes acc)"
| "decode_dict 0 bytes acc = Hang"
| "decode_dict (Suc n) bytes acc =
     and_then (decode_plain n bytes) (\<lambda>(bytes, key).
     case key of
       VString key \<Rightarrow>
         and_then (decode_plain n bytes) (\<lambda>(bytes, val).
         let acc = btree_insert key val acc in
         case bytes of
           [] \<Rightarrow> decode_dict n bytes acc
         | b # rest \<Rightarrow> if b = 101 then Ok (rest, VMap acc) else decode_dict n bytes acc)
     | _ \<Rightarrow> Panic AssertFailed)"

definition plain_decode :: "u8 list \<Rightarrow> (u8 list \<times> bvalue) res" where
  "plain_decode bytes = decode_plain (2 * length bytes + 2) bytes"

declare decode_plain.simps [simp del] decode_list.simps [simp del] decode_dict.simps [simp del]

section \<open>What is left of the input\<close>

lemma position_Some:
  "position x bs = Some n \<Longrightarrow> n < length bs \<and> bs ! n = x \<and> (\<forall>i < n. bs ! i \<noteq> x)"
proof (induction bs arbitrary: n)
  case (Cons b bs)
  then show ?case by (cases n) (auto split: if_splits simp: less_Suc_eq_0_disj)
qed simp

lemma position_None: "position x bs = None \<longleftrightarrow> x \<notin> set bs"
  by (induction bs) auto

lemma position_append: "x \<notin> set as \<Longrightarrow> position x (as @ x # bs) = Some (length as)"
  by (induction as) auto

lemma decode_string_rest:
  "decode_string bytes = Ok (rest, v) \<Longrightarrow> \<exists>used. bytes = used @ rest \<and> used \<noteq> []"
proof -
  assume "decode_string bytes = Ok (rest, v)"
  then obtain pos len where pos: "position 58 bytes = Some pos"
    and rest: "rest = drop len (drop (pos + 1) bytes)" "len \<le> length (drop (pos + 1) bytes)"
    by (auto simp: decode_string_def Let_def and_then_Ok_iff split: option.splits if_splits)
  have "bytes = take (pos + 1 + len) bytes @ rest" using rest(1) by (simp add: add.commute add.left_commute)
  moreover have "take (pos + 1 + len) bytes \<noteq> []" using position_Some [OF pos] by auto
  ultimately show ?thesis by blast
qed

lemma decode_int_rest:
  "decode_int bytes = Ok (rest, v) \<Longrightarrow> \<exists>used. bytes = used @ rest \<and> used \<noteq> []"
proof -
  assume "decode_int bytes = Ok (rest, v)"
  then obtain pos where pos: "position 101 bytes = Some pos" and rest: "rest = drop (pos + 1) bytes"
    by (auto simp: decode_int_def and_then_Ok_iff split: option.splits)
  have "bytes = take (pos + 1) bytes @ rest" using rest by simp
  moreover have "take (pos + 1) bytes \<noteq> []" using position_Some [OF pos] by auto
  ultimately show ?thesis by blast
qed

section \<open>Well-formed results\<close>

text \<open>
  What the types of the code guarantee, and what the grammar adds: a decoded list or map is
  never empty.
\<close>

fun value_ok :: "bvalue \<Rightarrow> bool" where
  "value_ok (VInt n) \<longleftrightarrow> - (2 ^ 63) \<le> n \<and> n < 2 ^ 63"
| "value_ok (VString s) \<longleftrightarrow> utf8_valid s"
| "value_ok (VList vs) \<longleftrightarrow> vs \<noteq> [] \<and> (\<forall>v \<in> set vs. value_ok v)"
| "value_ok (VMap m) \<longleftrightarrow> m \<noteq> [] \<and> sorted_wrt (<) (map fst m) \<and> (\<forall>kv \<in> set m. utf8_valid (fst kv) \<and> value_ok (snd kv))"

lemma btree_insert_set: "set (btree_insert k v m) \<subseteq> insert (k, v) (set m)"
  by (induction k v m rule: btree_insert.induct) auto

lemma btree_insert_keys: "set (map fst (btree_insert k v m)) = insert k (set (map fst m))"
  by (induction k v m rule: btree_insert.induct) auto

lemma btree_insert_sorted: "sorted_wrt (<) (map fst m) \<Longrightarrow> sorted_wrt (<) (map fst (btree_insert k v m))"
proof (induction k v m rule: btree_insert.induct)
  case (2 k v k' v' m)
  then show ?case
    using btree_insert_keys [of k v m] by (auto simp: not_less_iff_gr_or_eq)
qed simp

lemma btree_insert_nonempty [simp]: "btree_insert k v m \<noteq> []"
  by (induction k v m rule: btree_insert.induct) auto

lemma btree_insert_max: "\<forall>kv \<in> set m. fst kv < k \<Longrightarrow> btree_insert k v m = m @ [(k, v)]"
  by (induction k v m rule: btree_insert.induct) auto

definition map_ok :: "(u8 list \<times> bvalue) list \<Rightarrow> bool" where
  "map_ok m \<longleftrightarrow> sorted_wrt (<) (map fst m) \<and> (\<forall>kv \<in> set m. utf8_valid (fst kv) \<and> value_ok (snd kv))"

lemma map_ok_insert: "map_ok m \<Longrightarrow> utf8_valid k \<Longrightarrow> value_ok v \<Longrightarrow> map_ok (btree_insert k v m)"
  using btree_insert_set [of k v m] by (fastforce simp: map_ok_def btree_insert_sorted)

lemma decode_string_ok: "decode_string bytes = Ok (rest, v) \<Longrightarrow> value_ok v"
  by (auto simp: decode_string_def Let_def and_then_Ok_iff lossy_valid split: option.splits if_splits)

lemma parse_i64_range: "parse_i64 ds = Ok n \<Longrightarrow> - (2 ^ 63) \<le> n \<and> n < 2 ^ 63"
proof -
  assume p: "parse_i64 ds = Ok n"
  consider k where "n = - int k" "k \<le> 2 ^ 63" | k where "n = int k" "k < 2 ^ 63"
    using p by (auto simp: parse_i64_def split: list.splits option.splits if_splits)
  then show ?thesis
  proof cases
    case 1
    then have "int k \<le> 2 ^ 63" by (metis of_nat_le_iff of_nat_numeral of_nat_power)
    then show ?thesis using 1 by simp
  next
    case 2
    then have "int k < 2 ^ 63" by (metis of_nat_less_iff of_nat_numeral of_nat_power)
    then show ?thesis using 2 by simp
  qed
qed

lemma decode_int_ok: "decode_int bytes = Ok (rest, v) \<Longrightarrow> value_ok v"
  using parse_i64_range by (auto simp: decode_int_def and_then_Ok_iff parse_utf8_def split: option.splits if_splits)

text \<open>All three functions consume input and build well-formed values.\<close>

definition good_result :: "u8 list \<Rightarrow> (u8 list \<times> bvalue) res \<Rightarrow> bool" where
  "good_result bytes r \<longleftrightarrow> (\<forall>rest v. r = Ok (rest, v) \<longrightarrow> value_ok v \<and> (\<exists>used. used \<noteq> [] \<and> bytes = used @ rest))"

lemma good_resultD: "good_result bytes (Ok (rest, v)) \<Longrightarrow> value_ok v \<and> (\<exists>used. used \<noteq> [] \<and> bytes = used @ rest)"
  by (simp add: good_result_def)

lemma good_result_trans:
  "good_result rest r \<Longrightarrow> bytes = used @ rest \<Longrightarrow> good_result bytes r"
  unfolding good_result_def by (metis append_assoc append_is_Nil_conv)

lemma good_result_bind:
  assumes "good_result bytes r" and "\<And>rest v. value_ok v \<Longrightarrow> good_result rest (f (rest, v))"
  shows "good_result bytes (and_then r f)"
proof (cases r)
  case (Ok x)
  obtain rest v where x: "x = (rest, v)" by (cases x)
  obtain used where "value_ok v" "bytes = used @ rest" using good_resultD assms(1) Ok x by blast
  then show ?thesis using good_result_trans [OF assms(2)] Ok x by simp
qed (simp_all add: good_result_def)

lemma good_result_step:
  "value_ok v \<Longrightarrow> good_result (b # rest) (Ok (rest, v))"
  "good_result bytes (Err e)" "good_result bytes (Panic p)" "good_result bytes Hang"
  by (auto simp: good_result_def)

lemma good_result_leaf: "good_result bytes (decode_string bytes)" "good_result bytes (decode_int bytes)"
proof -
  show "good_result bytes (decode_string bytes)"
    unfolding good_result_def using decode_string_ok [of bytes] decode_string_rest [of bytes] by metis
  show "good_result bytes (decode_int bytes)"
    unfolding good_result_def using decode_int_ok [of bytes] decode_int_rest [of bytes] by metis
qed

lemma decode_good:
  "good_result bytes (decode_plain n bytes) \<and>
   ((\<forall>v \<in> set vs. value_ok v) \<longrightarrow> good_result bytes (decode_list n bytes vs)) \<and>
   (map_ok m \<longrightarrow> good_result bytes (decode_dict n bytes m))"
proof (induction n arbitrary: bytes vs m)
  case 0
  show ?case by (simp add: decode_plain.simps decode_list.simps decode_dict.simps good_result_step)
next
  case (Suc n)
  have plain: "good_result bytes (decode_plain n bytes)"
    and list: "\<forall>v \<in> set vs. value_ok v \<Longrightarrow> good_result bytes (decode_list n bytes vs)"
    and dict: "map_ok m \<Longrightarrow> good_result bytes (decode_dict n bytes m)" for bytes vs m
    using Suc by blast+
  have enter: "good_result (ch # rest) (decode_list n rest [])" "good_result (ch # rest) (decode_dict n rest [])" for ch rest
    using good_result_trans [OF list [of "[]"], where used = "[ch]"] good_result_trans [OF dict [of "[]"], where used = "[ch]"]
    by (simp_all add: map_ok_def)
  have "good_result bytes (decode_plain (Suc n) bytes)"
    by (simp add: decode_plain.simps good_result_leaf good_result_step enter split: list.split)
  moreover have "good_result bytes (decode_list (Suc n) bytes vs)" if vs: "\<forall>v \<in> set vs. value_ok v"
    unfolding decode_list.simps
    by (rule good_result_bind [OF plain]) (use vs in \<open>auto simp: Let_def good_result_step list split: list.split\<close>)
  moreover have "good_result bytes (decode_dict (Suc n) bytes m)" if m: "map_ok m"
  proof -
    have val: "good_result rest (and_then (decode_plain n rest) (\<lambda>(bytes, val).
         let acc = btree_insert k val m in
         case bytes of
           [] \<Rightarrow> decode_dict n bytes acc
         | b # rest \<Rightarrow> if b = 101 then Ok (rest, VMap acc) else decode_dict n bytes acc))"
      if "utf8_valid k" for rest k
      by (rule good_result_bind [OF plain])
        (use map_ok_insert [OF m that] in \<open>auto simp: Let_def good_result_step dict map_ok_def split: list.split\<close>)
    show ?thesis
      unfolding decode_dict.simps
      by (rule good_result_bind [OF plain]) (auto simp: good_result_step val split: bvalue.split)
  qed
  ultimately show ?case by blast
qed

text \<open>The fuel suffices: a list or map takes one unit and one byte, a loop one unit and some bytes.\<close>

lemma leaf_returns: "decode_string bytes \<noteq> Hang" "decode_int bytes \<noteq> Hang"
proof -
  have "parse_usize ds \<noteq> Hang" "parse_i64 ds \<noteq> Hang" for ds
    by (auto simp: parse_usize_def parse_i64_def split: list.splits option.splits)
  then show "decode_string bytes \<noteq> Hang" "decode_int bytes \<noteq> Hang"
    by (auto simp: decode_string_def decode_int_def parse_utf8_def Let_def and_then_Hang_iff split: option.splits)
qed

lemma decode_returns:
  "(2 * length bytes < n \<longrightarrow> decode_plain n bytes \<noteq> Hang) \<and>
   (2 * length bytes + 1 < n \<longrightarrow> decode_list n bytes vs \<noteq> Hang \<and> decode_dict n bytes m \<noteq> Hang)"
proof (induction n arbitrary: bytes vs m)
  case (Suc n)
  have plain: "2 * length bytes < n \<Longrightarrow> decode_plain n bytes \<noteq> Hang"
    and loops: "2 * length bytes + 1 < n \<Longrightarrow> decode_list n bytes vs \<noteq> Hang"
      "2 * length bytes + 1 < n \<Longrightarrow> decode_dict n bytes m \<noteq> Hang" for bytes vs m
    using Suc by blast+
  have shorter: "length rest < length bytes" if "decode_plain n bytes = Ok (rest, v)" for bytes rest v
    using decode_good [of bytes n "[]" "[]"] that by (auto simp: good_result_def)
  have "decode_plain (Suc n) bytes \<noteq> Hang" if "2 * length bytes < Suc n"
    using that by (auto simp: decode_plain.simps leaf_returns loops split: list.split)
  moreover have "decode_list (Suc n) bytes vs \<noteq> Hang" if fuel: "2 * length bytes + 1 < Suc n"
  proof -
    have "decode_plain n bytes \<noteq> Hang" using plain fuel by simp
    moreover have "decode_list n rest vs' \<noteq> Hang" if "decode_plain n bytes = Ok (rest, v)" for rest v vs'
      using shorter [OF that] fuel by (intro loops) linarith
    ultimately show ?thesis
      by (auto simp: decode_list.simps and_then_Hang_iff Let_def split: list.splits if_splits)
  qed
  moreover have "decode_dict (Suc n) bytes m \<noteq> Hang" if fuel: "2 * length bytes + 1 < Suc n"
  proof -
    have "decode_plain n bytes \<noteq> Hang" using plain fuel by simp
    moreover have "decode_plain n rest \<noteq> Hang" if "decode_plain n bytes = Ok (rest, v)" for rest v
      using shorter [OF that] fuel by (intro plain) linarith
    moreover have "decode_dict n rest' m' \<noteq> Hang"
      if "decode_plain n bytes = Ok (rest, v)" "decode_plain n rest = Ok (rest', v')" for rest v rest' v' m'
      using shorter [OF that(1)] shorter [OF that(2)] fuel by (intro loops) linarith
    ultimately show ?thesis
      by (auto simp: decode_dict.simps and_then_Hang_iff Let_def split: list.splits if_splits bvalue.splits)
  qed
  ultimately show ?case by blast
qed simp

section \<open>Encoding\<close>

text \<open>
  The reference encoding of a value, as the format prescribes it: strings with their length,
  entries of a map in the order of their keys.
\<close>

definition dec_int :: "int \<Rightarrow> u8 list" where
  "dec_int n = (if n < 0 then 45 # dec (nat (- n)) else dec (nat n))"

definition bencode_string :: "u8 list \<Rightarrow> u8 list" where
  "bencode_string s = dec (length s) @ 58 # s"

fun bencode :: "bvalue \<Rightarrow> u8 list" where
  "bencode (VInt n) = 105 # dec_int n @ [101]"
| "bencode (VString s) = bencode_string s"
| "bencode (VList vs) = 108 # concat (map bencode vs) @ [101]"
| "bencode (VMap m) = 100 # concat (map (\<lambda>kv. bencode_string (fst kv) @ bencode (snd kv)) m) @ [101]"

lemma decode_string_run:
  assumes "utf8_valid s" and "length s < 2 ^ 64"
  shows "decode_string (bencode_string s @ rest) = Ok (rest, VString s)"
proof -
  let ?ds = "dec (length s)"
  have "position 58 (?ds @ 58 # s @ rest) = Some (length ?ds)" by (rule position_append [OF dec_not_in(1)])
  moreover have "parse_utf8 parse_usize ?ds = Ok (length s)"
    using assms(2) by (simp add: parse_utf8_def utf8_dec parse_usize_def strip_plus_dec parse_digits_dec)
  ultimately show ?thesis
    using lossy_id [OF assms(1)] by (simp add: decode_string_def bencode_string_def)
qed

lemma parse_i64_dec: "- (2 ^ 63) \<le> n \<Longrightarrow> n < 2 ^ 63 \<Longrightarrow> parse_i64 (dec_int n) = Ok n"
proof (cases "n < 0")
  case True
  assume "- (2 ^ 63) \<le> n"
  then have "int (nat (- n)) \<le> int (2 ^ 63)" using True by simp
  then have "nat (- n) \<le> 2 ^ 63" by linarith
  then show ?thesis using True by (simp add: dec_int_def parse_i64_def parse_digits_dec)
next
  case False
  assume "n < 2 ^ 63"
  then have "int (nat n) < int (2 ^ 63)" using False by simp
  then have fits: "nat n < 2 ^ 63" by linarith
  obtain d ds where d: "dec (nat n) = d # ds" "is_digit d" by (rule dec_Cons)
  then have "parse_i64 (dec (nat n)) = Ok (int (nat n))"
    using digit_not [OF d(2)] fits strip_plus_dec [of "nat n"] parse_digits_dec [of "nat n"]
    by (simp add: parse_i64_def)
  then show ?thesis using False by (simp add: dec_int_def)
qed

lemma decode_int_run:
  assumes "- (2 ^ 63) \<le> n" and "n < 2 ^ 63"
  shows "decode_int (bencode (VInt n) @ rest) = Ok (rest, VInt n)"
proof -
  have "101 \<notin> set (105 # dec_int n)" using dec_not_in(2) by (simp add: dec_int_def)
  then have "position 101 ((105 # dec_int n) @ 101 # rest) = Some (length (105 # dec_int n))"
    by (rule position_append)
  moreover have "parse_utf8 parse_i64 (dec_int n) = Ok n"
    using parse_i64_dec [OF assms] utf8_dec by (simp add: parse_utf8_def dec_int_def)
  ultimately show ?thesis by (simp add: decode_int_def)
qed

text \<open>No value starts with the \<open>e\<close> that ends a list.\<close>

lemma bencode_Cons:
  obtains b bs where "bencode v = b # bs" "b \<noteq> 101"
proof (cases v)
  case (VString s)
  obtain d ds where "dec (length s) = d # ds" "is_digit d" by (rule dec_Cons)
  then show ?thesis using that [of d "ds @ 58 # s"] digit_not [of d] VString by (simp add: bencode_string_def)
qed (use that in simp_all)

lemma bencode_string_Cons:
  obtains d ds where "bencode_string s = d # ds" "is_digit d"
proof -
  obtain d ds where "dec (length s) = d # ds" "is_digit d" by (rule dec_Cons)
  then show ?thesis using that [of d "ds @ 58 # s"] by (simp add: bencode_string_def)
qed

lemma decode_plain_string:
  assumes "utf8_valid s" and "length s < 2 ^ 64"
  shows "decode_plain (Suc n) (bencode_string s @ rest) = Ok (rest, VString s)"
proof -
  obtain d ds where "bencode_string s = d # ds" "is_digit d" by (rule bencode_string_Cons)
  then show ?thesis using decode_string_run [OF assms, of rest] by (simp add: decode_plain.simps)
qed

definition decodes :: "bvalue \<Rightarrow> bool" where
  "decodes v \<longleftrightarrow> (\<forall>n rest. 2 * length (bencode v @ rest) < n \<longrightarrow> decode_plain n (bencode v @ rest) = Ok (rest, v))"

lemma decode_list_run:
  assumes "\<forall>v \<in> set vs. decodes v" and "vs \<noteq> []"
  shows "2 * length (concat (map bencode vs) @ 101 # rest) + 1 < n \<Longrightarrow>
    decode_list n (concat (map bencode vs) @ 101 # rest) acc = Ok (rest, VList (acc @ vs))"
  using assms
proof (induction vs arbitrary: acc n)
  case (Cons v vs)
  let ?tail = "concat (map bencode vs) @ 101 # rest"
  obtain m where n: "n = Suc m" using Cons.prems(1) by (cases n) auto
  have head: "decode_plain m (bencode v @ ?tail) = Ok (?tail, v)"
    using Cons.prems n unfolding decodes_def by simp
  show ?case
  proof (cases vs)
    case Nil
    then show ?thesis using head n by (simp add: decode_list.simps)
  next
    case (Cons v' vs')
    obtain b bs where b: "bencode v = b # bs" "b \<noteq> 101" by (rule bencode_Cons)
    obtain b' bs' where b': "bencode v' = b' # bs'" "b' \<noteq> 101" by (rule bencode_Cons)
    have "decode_list m ?tail (acc @ [v]) = Ok (rest, VList ((acc @ [v]) @ vs))"
      using Cons.prems Cons n b by (intro Cons.IH) simp_all
    then show ?thesis using head n b' Cons by (simp add: decode_list.simps Let_def)
  qed
qed simp

abbreviation encode_entry :: "u8 list \<times> bvalue \<Rightarrow> u8 list" where
  "encode_entry kv \<equiv> bencode_string (fst kv) @ bencode (snd kv)"

lemma decode_dict_run:
  assumes "\<forall>kv \<in> set m. utf8_valid (fst kv) \<and> length (fst kv) < 2 ^ 64 \<and> decodes (snd kv)"
    and "sorted_wrt (<) (map fst m)" and "\<forall>kv \<in> set acc. \<forall>kv' \<in> set m. fst kv < fst kv'" and "m \<noteq> []"
  shows "2 * length (concat (map encode_entry m) @ 101 # rest) + 1 < n \<Longrightarrow>
    decode_dict n (concat (map encode_entry m) @ 101 # rest) acc = Ok (rest, VMap (acc @ m))"
  using assms
proof (induction m arbitrary: acc n)
  case (Cons kv m)
  obtain k v where kv: "kv = (k, v)" by (cases kv)
  let ?tail = "concat (map encode_entry m) @ 101 # rest"
  obtain n' where n: "n = Suc n'" using Cons.prems(1) by (cases n) auto
  obtain p q where pos: "length (bencode_string k) = Suc p" "length (bencode v) = Suc q"
    by (metis bencode_Cons bencode_string_Cons length_Cons)
  then obtain n'' where n': "n' = Suc n''" using Cons.prems(1) n kv by (cases n') auto
  have fuel: "2 * length ?tail + 1 < n'" using Cons.prems(1) n kv pos by simp
  have key: "decode_plain n' (bencode_string k @ bencode v @ ?tail) = Ok (bencode v @ ?tail, VString k)"
    using Cons.prems(2) n' by (simp add: kv decode_plain_string)
  have val: "decode_plain n' (bencode v @ ?tail) = Ok (?tail, v)"
    using Cons.prems(1,2) n kv unfolding decodes_def by simp
  have ins: "btree_insert k v acc = acc @ [(k, v)]"
    using Cons.prems(4) kv by (intro btree_insert_max) auto
  show ?case
  proof (cases m)
    case Nil
    then show ?thesis using key val ins n kv by (simp add: decode_dict.simps)
  next
    case (Cons kv' m')
    obtain b bs where b: "bencode_string (fst kv') = b # bs" "is_digit b" by (rule bencode_string_Cons)
    have "decode_dict n' ?tail (acc @ [(k, v)]) = Ok (rest, VMap ((acc @ [(k, v)]) @ m))"
      using Cons.prems(2-4) Cons kv fuel by (intro Cons.IH) auto
    then show ?thesis using key val ins n b digit_not [OF b(2)] Cons kv by (simp add: decode_dict.simps Let_def)
  qed
qed simp

text \<open>Parts of an encoding are not longer than the whole.\<close>

lemma length_concat_mem: "x \<in> set xs \<Longrightarrow> length (f x) \<le> length (concat (map f xs))"
  by (induction xs) auto

lemma decodes_all: "value_ok v \<Longrightarrow> length (bencode v) < 2 ^ 64 \<Longrightarrow> decodes v"
proof (induction v rule: value_ok.induct)
  case (1 n)
  show ?case unfolding decodes_def
  proof (intro allI impI)
    fix m rest assume fuel: "2 * length (bencode (VInt n) @ rest) < m"
    then obtain m' where m: "m = Suc m'" by (cases m) auto
    show "decode_plain m (bencode (VInt n) @ rest) = Ok (rest, VInt n)"
      using decode_int_run [of n rest] 1 m by (simp add: decode_plain.simps is_digit_def word_le_nat_alt)
  qed
next
  case (2 s)
  then have "utf8_valid s" "length s < 2 ^ 64" by (simp_all add: bencode_string_def)
  then show ?case
    using decode_plain_string unfolding decodes_def by (metis bencode.simps(2) gr0_conv_Suc not_less_zero zero_less_iff_neq_zero)
next
  case (3 vs)
  have sub: "\<forall>v \<in> set vs. decodes v"
  proof
    fix v assume v: "v \<in> set vs"
    have "length (bencode v) < 2 ^ 64"
      using length_concat_mem [OF v, of bencode] 3(3) by simp
    with 3 v show "decodes v" by simp
  qed
  show ?case unfolding decodes_def
  proof (intro allI impI)
    fix m rest assume fuel: "2 * length (bencode (VList vs) @ rest) < m"
    then obtain m' where m: "m = Suc m'" by (cases m) auto
    show "decode_plain m (bencode (VList vs) @ rest) = Ok (rest, VList vs)"
      using decode_list_run [OF sub, of rest m' "[]"] 3(2) fuel m
      by (simp add: decode_plain.simps is_digit_def word_le_nat_alt)
  qed
next
  case (4 m)
  have sub: "\<forall>kv \<in> set m. utf8_valid (fst kv) \<and> length (fst kv) < 2 ^ 64 \<and> decodes (snd kv)"
  proof
    fix kv assume kv: "kv \<in> set m"
    have le: "length (encode_entry kv) < 2 ^ 64"
      using length_concat_mem [OF kv, of encode_entry] 4(3) by simp
    then have "length (fst kv) < 2 ^ 64" "length (bencode (snd kv)) < 2 ^ 64"
      by (simp_all add: bencode_string_def)
    with 4 kv show "utf8_valid (fst kv) \<and> length (fst kv) < 2 ^ 64 \<and> decodes (snd kv)" by simp
  qed
  show ?case unfolding decodes_def
  proof (intro allI impI)
    fix n rest assume fuel: "2 * length (bencode (VMap m) @ rest) < n"
    then obtain n' where n: "n = Suc n'" by (cases n) auto
    show "decode_plain n (bencode (VMap m) @ rest) = Ok (rest, VMap m)"
      using decode_dict_run [OF sub, of "[]" rest n'] 4(2) fuel n
      by (simp add: decode_plain.simps is_digit_def word_le_nat_alt)
  qed
qed

section \<open>Properties\<close>

text \<open>
  C33. The decoder accepts the encoding of every value that fits the machine and has no empty list
  or map inside, gives the value back and leaves the rest of the input.
\<close>

theorem plain_decode_encode:
  assumes "value_ok v" and "length (bencode v) < 2 ^ 64"
  shows "plain_decode (bencode v @ rest) = Ok (rest, v)"
  using decodes_all [OF assms] unfolding decodes_def plain_decode_def by simp

theorem plain_decode_encode_witness:
  "plain_decode ([100, 49, 58, 97, 105, 45, 53, 101, 49, 58, 98, 108, 48, 58, 101, 101] @ [7]) =
     Ok ([7], VMap [([97], VInt (- 5)), ([98], VList [VString []])])"
proof -
  let ?v = "VMap [([97], VInt (- 5)), ([98], VList [VString []])]"
  have ok: "value_ok ?v" by (simp add: utf8_valid.simps utf8_step_ascii)
  have enc: "bencode ?v = [100, 49, 58, 97, 105, 45, 53, 101, 49, 58, 98, 108, 48, 58, 101, 101]"
    by (simp add: bencode_string_def dec_int_def dec.simps)
  show ?thesis using plain_decode_encode [OF ok, of "[7]"] unfolding enc by simp
qed

text \<open>
  C34. The decoder ends on every input, its recursion being bounded by the length of the input;
  what it accepts is a nonempty part at the front, and the value is well formed: integers of 64
  bits, strings of UTF-8, maps with increasing keys, no empty list or map.
\<close>

theorem plain_decode_returns:
  "plain_decode bytes \<noteq> Hang \<and>
   (\<forall>rest v. plain_decode bytes = Ok (rest, v) \<longrightarrow> value_ok v \<and> (\<exists>used. used \<noteq> [] \<and> bytes = used @ rest))"
  using decode_good [of bytes "2 * length bytes + 2" "[]" "[]"] decode_returns [of bytes "2 * length bytes + 2" "[]" "[]"]
  by (simp add: plain_decode_def good_result_def)

theorem plain_decode_returns_witness: "value_ok (VMap [([97], VInt (- 5)), ([98], VList [VString []])])"
proof -
  let ?v = "VMap [([97], VInt (- 5)), ([98], VList [VString []])]"
  have ok: "value_ok ?v" by (simp add: utf8_valid.simps utf8_step_ascii)
  have "length (bencode ?v) < 2 ^ 64" by (simp add: bencode_string_def dec_int_def dec.simps)
  then have "plain_decode (bencode ?v @ []) = Ok ([], ?v)"
    using decodes_all [OF ok] unfolding decodes_def plain_decode_def by simp
  then show ?thesis using plain_decode_returns [of "bencode ?v @ []"] by blast
qed

text \<open>
  C35. Inputs that end the program: an empty list or map (in particular valid ones), a string that
  is cut short, and a map with a key that is not a string all panic instead of giving an error.
\<close>

theorem plain_decode_panics:
  "plain_decode (108 # 101 # rest) = Panic TodoReached \<and> plain_decode (100 # 101 # rest) = Panic TodoReached \<and>
   (length s < n \<and> n < 2 ^ 64 \<longrightarrow> plain_decode (dec n @ 58 # s) = Panic OutOfBounds) \<and>
   (value_ok v \<and> length (bencode v) < 2 ^ 64 \<and> (\<forall>k. v \<noteq> VString k) \<longrightarrow>
      plain_decode (100 # bencode v @ rest) = Panic AssertFailed)"
proof (intro conjI impI)
  have "decode_plain (Suc (Suc (Suc n))) (108 # 101 # rest) = Panic TodoReached"
    "decode_plain (Suc (Suc (Suc n))) (100 # 101 # rest) = Panic TodoReached" for n
    by (simp_all add: decode_plain.simps decode_list.simps decode_dict.simps is_digit_def word_le_nat_alt)
  moreover have "2 * length (b # c # rest) + 2 = Suc (Suc (Suc (2 * length rest + 3)))" for b c :: u8 by simp
  ultimately show "plain_decode (108 # 101 # rest) = Panic TodoReached" "plain_decode (100 # 101 # rest) = Panic TodoReached"
    unfolding plain_decode_def by metis+
next
  assume n: "length s < n \<and> n < 2 ^ 64"
  obtain d ds where d: "dec n = d # ds" "is_digit d" by (rule dec_Cons)
  have "position 58 (dec n @ 58 # s) = Some (length (dec n))" by (rule position_append [OF dec_not_in(1)])
  moreover have "parse_utf8 parse_usize (dec n) = Ok n"
    using n by (simp add: parse_utf8_def utf8_dec parse_usize_def strip_plus_dec parse_digits_dec)
  ultimately have "decode_string (dec n @ 58 # s) = Panic OutOfBounds" using n by (simp add: decode_string_def)
  then show "plain_decode (dec n @ 58 # s) = Panic OutOfBounds"
    using d by (simp add: plain_decode_def decode_plain.simps)
next
  assume v: "value_ok v \<and> length (bencode v) < 2 ^ 64 \<and> (\<forall>k. v \<noteq> VString k)"
  let ?n = "2 * length (bencode v @ rest) + 2"
  have "decode_plain ?n (bencode v @ rest) = Ok (rest, v)"
    using decodes_all v unfolding decodes_def by simp
  then have "decode_dict (Suc ?n) (bencode v @ rest) [] = Panic AssertFailed"
    using v by (cases v) (simp_all add: decode_dict.simps)
  then show "plain_decode (100 # bencode v @ rest) = Panic AssertFailed"
    by (simp add: plain_decode_def decode_plain.simps is_digit_def word_le_nat_alt)
qed

theorem plain_decode_panics_witness: "plain_decode [100, 105, 49, 101, 105, 50, 101, 101] = Panic AssertFailed"
proof -
  have "value_ok (VInt 1) \<and> length (bencode (VInt 1)) < 2 ^ 64 \<and> (\<forall>k. VInt 1 \<noteq> VString k)"
    by (simp add: dec_int_def dec.simps)
  moreover have "100 # bencode (VInt 1) @ [105, 50, 101, 101] = [100, 105, 49, 101, 105, 50, 101, 101]"
    by (simp add: dec_int_def dec.simps)
  ultimately show ?thesis using plain_decode_panics [where v = "VInt 1" and rest = "[105, 50, 101, 101]"] by metis
qed

end
