(* ===== verification/Nom.thy ===== *)
theory Nom
  imports Bencode
begin

text \<open>
  The decoder of bencoded values built from the combinators of the crate \<open>nom\<close>,
  \<open>src/bencode/nom.rs\<close>, and the choice between the two decoders in \<open>src/bencode/mod.rs\<close>. The
  combinators are third-party code: a parameter with one field per combinator and type at which
  the code uses it, and a locale with what their documentation says. \<open>Err\<close> stands for the
  recoverable error, the only one that arises, as nothing is wrapped in \<open>cut\<close>. The recursion
  through the combinators runs on fuel, more than the length of the input.
\<close>

section \<open>The combinators\<close>

type_synonym 'a parser = "u8 list \<Rightarrow> (u8 list \<times> 'a) res"

type_synonym entries = "(u8 list \<times> bvalue) list"

record nom_api =
  nom_char :: "u8 \<Rightarrow> u8 parser"
  nom_digit1 :: "u8 list parser"
  nom_i64 :: "int parser"
  nom_take :: "nat \<Rightarrow> u8 list parser"
  nom_alt :: "bvalue parser \<Rightarrow> bvalue parser \<Rightarrow> bvalue parser \<Rightarrow> bvalue parser \<Rightarrow> bvalue parser"
  nom_map_int :: "int parser \<Rightarrow> (int \<Rightarrow> bvalue) \<Rightarrow> bvalue parser"
  nom_map_string :: "u8 list parser \<Rightarrow> (u8 list \<Rightarrow> bvalue) \<Rightarrow> bvalue parser"
  nom_map_list :: "bvalue list parser \<Rightarrow> (bvalue list \<Rightarrow> bvalue) \<Rightarrow> bvalue parser"
  nom_map_dict :: "entries parser \<Rightarrow> (entries \<Rightarrow> bvalue) \<Rightarrow> bvalue parser"
  nom_map_bytes :: "u8 list parser \<Rightarrow> (u8 list \<Rightarrow> u8 list) \<Rightarrow> u8 list parser"
  nom_map_res_str :: "u8 list parser \<Rightarrow> (u8 list \<Rightarrow> u8 list res) \<Rightarrow> u8 list parser"
  nom_map_res_u64 :: "u8 list parser \<Rightarrow> (u8 list \<Rightarrow> nat res) \<Rightarrow> nat parser"
  nom_terminated :: "u8 list parser \<Rightarrow> u8 parser \<Rightarrow> u8 list parser"
  nom_delimited_int :: "u8 parser \<Rightarrow> int parser \<Rightarrow> u8 parser \<Rightarrow> int parser"
  nom_delimited_list :: "u8 parser \<Rightarrow> bvalue list parser \<Rightarrow> u8 parser \<Rightarrow> bvalue list parser"
  nom_delimited_dict :: "u8 parser \<Rightarrow> entries parser \<Rightarrow> u8 parser \<Rightarrow> entries parser"
  nom_pair :: "u8 list parser \<Rightarrow> bvalue parser \<Rightarrow> (u8 list \<times> bvalue) parser"
  nom_many0 :: "bvalue parser \<Rightarrow> bvalue list parser"
  nom_fold_many0 :: "(u8 list \<times> bvalue) parser \<Rightarrow> entries \<Rightarrow> (entries \<Rightarrow> u8 list \<times> bvalue \<Rightarrow> entries) \<Rightarrow> entries parser"

section \<open>The code\<close>

definition str_from_utf8 :: "u8 list \<Rightarrow> u8 list res" where
  "str_from_utf8 v = (if utf8_valid v then Ok v else Err Utf8Invalid)"

definition nom_parse_len_str :: "nom_api \<Rightarrow> u8 list parser" where
  "nom_parse_len_str N = nom_terminated N (nom_map_res_str N (nom_digit1 N) str_from_utf8) (nom_char N 58)"

definition nom_parse_len_u64 :: "nom_api \<Rightarrow> nat parser" where
  "nom_parse_len_u64 N = nom_map_res_u64 N (nom_parse_len_str N) parse_usize"

definition nom_string :: "nom_api \<Rightarrow> u8 list parser" where
  "nom_string N input =
     and_then (nom_parse_len_u64 N input) (\<lambda>(input, len). nom_map_bytes N (nom_take N len) from_utf8_lossy input)"

definition nom_integer :: "nom_api \<Rightarrow> int parser" where
  "nom_integer N = nom_delimited_int N (nom_char N 105) (nom_i64 N) (nom_char N 101)"

definition nom_list :: "nom_api \<Rightarrow> bvalue parser \<Rightarrow> bvalue list parser" where
  "nom_list N decode = nom_delimited_list N (nom_char N 108) (nom_many0 N decode) (nom_char N 101)"

definition nom_dict :: "nom_api \<Rightarrow> bvalue parser \<Rightarrow> entries parser" where
  "nom_dict N decode =
     nom_delimited_dict N (nom_char N 100)
       (nom_fold_many0 N (nom_pair N (nom_string N) decode) [] (\<lambda>acc kv. btree_insert (fst kv) (snd kv) acc))
       (nom_char N 101)"

primrec nom_decode_fuel :: "nom_api \<Rightarrow> nat \<Rightarrow> bvalue parser" where
  "nom_decode_fuel N 0 = (\<lambda>input. Hang)"
| "nom_decode_fuel N (Suc n) =
     nom_alt N (nom_map_int N (nom_integer N) VInt) (nom_map_string N (nom_string N) VString)
       (nom_map_list N (nom_list N (nom_decode_fuel N n)) VList)
       (nom_map_dict N (nom_dict N (nom_decode_fuel N n)) VMap)"

declare nom_decode_fuel.simps(2) [simp del]

definition nom_decode :: "nom_api \<Rightarrow> bvalue parser" where
  "nom_decode N input = nom_decode_fuel N (length input + 1) input"

datatype decoder =
    Nom
  | Plain

definition decoder_decode :: "nom_api \<Rightarrow> decoder \<Rightarrow> u8 list \<Rightarrow> (u8 list \<times> bvalue) res" where
  "decoder_decode N d input =
     (case d of
        Nom \<Rightarrow>
          (case nom_decode N input of
             Ok out \<Rightarrow> Ok out
           | Err e \<Rightarrow> Err (Anyhow ''decode error using nom'')
           | Panic p \<Rightarrow> Panic p
           | Hang \<Rightarrow> Hang)
      | Plain \<Rightarrow> plain_decode input)"

text \<open>
  \<open>Display\<close> for \<open>Decoder\<close>: the name \<open>clap\<close> gives to the value; the derived \<open>to_possible_value\<close> is a
  parameter, \<open>None\<close> for a value that is skipped.
\<close>

definition decoder_display :: "(decoder \<Rightarrow> string option) \<Rightarrow> decoder \<Rightarrow> string res" where
  "decoder_display to_possible_value d =
     (case to_possible_value d of None \<Rightarrow> Panic UnwrapFailed | Some name \<Rightarrow> Ok name)"

section \<open>What the combinators do\<close>

text \<open>
  The documented behaviour: a parser is run and its result mapped, parsers are run one after the
  other, or an alternative is tried after a recoverable error. \<open>many0\<close> and \<open>fold_many0\<close> repeat a
  parser until it fails, and fail themselves when it succeeds without consuming anything.
\<close>

definition p_char :: "u8 \<Rightarrow> u8 parser" where
  "p_char c input = (case input of [] \<Rightarrow> Err ParseFailed | b # rest \<Rightarrow> if b = c then Ok (rest, b) else Err ParseFailed)"

definition p_digit1 :: "u8 list parser" where
  "p_digit1 input =
     (if takeWhile is_digit input = [] then Err ParseFailed
      else Ok (dropWhile is_digit input, takeWhile is_digit input))"

definition p_sign :: "u8 list \<Rightarrow> bool \<times> u8 list" where
  "p_sign input = (case input of [] \<Rightarrow> (False, []) | b # rest \<Rightarrow>
     if b = 45 then (True, rest) else if b = 43 then (False, rest) else (False, input))"

definition p_i64 :: "int parser" where
  "p_i64 input =
     (case p_sign input of (neg, rest) \<Rightarrow>
        and_then (p_digit1 rest) (\<lambda>(rest', ds).
          let n = (if neg then - int (digits_value ds) else int (digits_value ds))
          in if - (2 ^ 63) \<le> n \<and> n < 2 ^ 63 then Ok (rest', n) else Err ParseFailed))"

definition p_take :: "nat \<Rightarrow> u8 list parser" where
  "p_take n input = (if n \<le> length input then Ok (drop n input, take n input) else Err ParseFailed)"

definition p_map :: "'a parser \<Rightarrow> ('a \<Rightarrow> 'b) \<Rightarrow> 'b parser" where
  "p_map p f input = and_then (p input) (\<lambda>(rest, a). Ok (rest, f a))"

definition p_map_res :: "'a parser \<Rightarrow> ('a \<Rightarrow> 'b res) \<Rightarrow> 'b parser" where
  "p_map_res p f input =
     and_then (p input) (\<lambda>(rest, a). case f a of Ok b \<Rightarrow> Ok (rest, b) | _ \<Rightarrow> Err ParseFailed)"

definition p_terminated :: "'a parser \<Rightarrow> 'b parser \<Rightarrow> 'a parser" where
  "p_terminated p q input =
     and_then (p input) (\<lambda>(rest, a). and_then (q rest) (\<lambda>(rest', b). Ok (rest', a)))"

definition p_pair :: "'a parser \<Rightarrow> 'b parser \<Rightarrow> ('a \<times> 'b) parser" where
  "p_pair p q input =
     and_then (p input) (\<lambda>(rest, a). and_then (q rest) (\<lambda>(rest', b). Ok (rest', (a, b))))"

definition p_delimited :: "'a parser \<Rightarrow> 'b parser \<Rightarrow> 'c parser \<Rightarrow> 'b parser" where
  "p_delimited p q r input =
     and_then (p input) (\<lambda>(rest, a). p_terminated q r rest)"

definition p_or :: "'a parser \<Rightarrow> 'a parser \<Rightarrow> 'a parser" where
  "p_or p q input = (case p input of Err e \<Rightarrow> q input | r \<Rightarrow> r)"

function p_fold_many0 :: "'a parser \<Rightarrow> ('acc \<Rightarrow> 'a \<Rightarrow> 'acc) \<Rightarrow> 'acc \<Rightarrow> u8 list \<Rightarrow> (u8 list \<times> 'acc) res" where
  "p_fold_many0 p f acc input =
     (case p input of
        Ok (rest, a) \<Rightarrow>
          if length rest < length input then p_fold_many0 p f (f acc a) rest else Err ParseFailed
      | Err e \<Rightarrow> Ok (input, acc)
      | Panic x \<Rightarrow> Panic x
      | Hang \<Rightarrow> Hang)"
  by pat_completeness auto
termination
  by (relation "measure (\<lambda>(p, f, acc, input). length input)") auto

declare p_fold_many0.simps [simp del]

locale nom_combinators =
  fixes N :: nom_api
  assumes char_law: "nom_char N = p_char"
    and digit1_law: "nom_digit1 N = p_digit1"
    and i64_law: "nom_i64 N = p_i64"
    and take_law: "nom_take N = p_take"
    and alt_law: "nom_alt N = (\<lambda>p q r s. p_or p (p_or q (p_or r s)))"
    and map_int_law: "nom_map_int N = p_map"
    and map_string_law: "nom_map_string N = p_map"
    and map_list_law: "nom_map_list N = p_map"
    and map_dict_law: "nom_map_dict N = p_map"
    and map_bytes_law: "nom_map_bytes N = p_map"
    and map_res_str_law: "nom_map_res_str N = p_map_res"
    and map_res_u64_law: "nom_map_res_u64 N = p_map_res"
    and terminated_law: "nom_terminated N = p_terminated"
    and delimited_int_law: "nom_delimited_int N = p_delimited"
    and delimited_list_law: "nom_delimited_list N = p_delimited"
    and delimited_dict_law: "nom_delimited_dict N = p_delimited"
    and pair_law: "nom_pair N = p_pair"
    and many0_law: "nom_many0 N p = p_fold_many0 p (\<lambda>acc a. acc @ [a]) []"
    and fold_many0_law: "nom_fold_many0 N q acc f = p_fold_many0 q f acc"
begin

lemmas laws = char_law digit1_law i64_law take_law alt_law map_int_law map_string_law map_list_law map_dict_law
  map_bytes_law map_res_str_law map_res_u64_law terminated_law delimited_int_law delimited_list_law
  delimited_dict_law pair_law many0_law fold_many0_law

end

definition ref_nom :: nom_api where
  "ref_nom = \<lparr>nom_char = p_char, nom_digit1 = p_digit1, nom_i64 = p_i64, nom_take = p_take,
     nom_alt = (\<lambda>p q r s. p_or p (p_or q (p_or r s))), nom_map_int = p_map, nom_map_string = p_map,
     nom_map_list = p_map, nom_map_dict = p_map, nom_map_bytes = p_map, nom_map_res_str = p_map_res,
     nom_map_res_u64 = p_map_res, nom_terminated = p_terminated, nom_delimited_int = p_delimited,
     nom_delimited_list = p_delimited, nom_delimited_dict = p_delimited, nom_pair = p_pair,
     nom_many0 = (\<lambda>p. p_fold_many0 p (\<lambda>acc a. acc @ [a]) []), nom_fold_many0 = (\<lambda>q acc f. p_fold_many0 q f acc)\<rparr>"

interpretation ref: nom_combinators ref_nom
  by unfold_locales (simp_all add: ref_nom_def)

section \<open>The combinator decoder never panics\<close>

definition fine :: "'a res \<Rightarrow> bool" where
  "fine r \<longleftrightarrow> (case r of Ok x \<Rightarrow> True | Err e \<Rightarrow> True | Panic p \<Rightarrow> False | Hang \<Rightarrow> False)"

lemma fine_simps [simp]: "fine (Ok x)" "fine (Err e)" "\<not> fine (Panic p)" "\<not> fine Hang"
  by (simp_all add: fine_def)

lemma fine_bind: "fine r \<Longrightarrow> (\<And>x. r = Ok x \<Longrightarrow> fine (f x)) \<Longrightarrow> fine (and_then r f)"
  by (cases r) simp_all

lemma fine_leaf [simp]: "fine (p_char c input)" "fine (p_digit1 input)" "fine (p_take n input)"
  by (simp_all add: p_char_def p_digit1_def p_take_def split: list.split)

lemma fine_p_map: "fine (p input) \<Longrightarrow> fine (p_map p f input)"
  unfolding p_map_def by (rule fine_bind) auto

lemma fine_p_map_res: "fine (p input) \<Longrightarrow> fine (p_map_res p f input)"
  unfolding p_map_res_def by (rule fine_bind) (auto split: res.split)

lemma fine_p_terminated:
  "fine (p input) \<Longrightarrow> (\<And>rest. fine (q rest)) \<Longrightarrow> fine (p_terminated p q input)"
  unfolding p_terminated_def by (intro fine_bind) (auto intro!: fine_bind)

lemma fine_p_pair:
  "fine (p input) \<Longrightarrow> (\<And>rest a. p input = Ok (rest, a) \<Longrightarrow> fine (q rest)) \<Longrightarrow> fine (p_pair p q input)"
  unfolding p_pair_def by (intro fine_bind) (auto intro!: fine_bind)

lemma fine_p_or: "fine (p input) \<Longrightarrow> fine (q input) \<Longrightarrow> fine (p_or p q input)"
  by (cases "p input") (simp_all add: p_or_def)

lemma fine_p_i64: "fine (p_i64 input)"
  unfolding p_i64_def by (auto simp: Let_def split: prod.split intro!: fine_bind)

lemma fine_p_fold_many0:
  "(\<And>input'. length input' \<le> length input \<Longrightarrow> fine (p input')) \<Longrightarrow> fine (p_fold_many0 p f acc input)"
proof (induction p f acc input rule: p_fold_many0.induct)
  case (1 p f acc input)
  have "fine (p input)" using "1.prems" by simp
  then show ?case
    using "1.IH" "1.prems" by (subst p_fold_many0.simps) (cases "p input"; auto)
qed

text \<open>A delimited parser hands a shorter input to the parser in the middle.\<close>

lemma fine_delimited:
  assumes "\<And>rest. length rest < length input \<Longrightarrow> fine (q rest)"
  shows "fine (p_delimited (p_char b) q (p_char c) input)"
proof -
  have "fine (p_terminated q (p_char c) rest)" if "p_char b input = Ok (rest, a)" for rest a
    using that by (intro fine_p_terminated assms) (auto simp: p_char_def split: list.splits if_splits)
  then show ?thesis unfolding p_delimited_def by (intro fine_bind) auto
qed

text \<open>No parser gives back more input than it was given.\<close>

definition shortens :: "'a parser \<Rightarrow> bool" where
  "shortens p \<longleftrightarrow> (\<forall>input rest a. p input = Ok (rest, a) \<longrightarrow> length rest \<le> length input)"

lemma shortens_leaf: "shortens (p_char c)" "shortens p_digit1" "shortens (p_take n)"
  using length_dropWhile_le [of is_digit]
  by (auto simp: shortens_def p_char_def p_digit1_def p_take_def split: list.splits if_splits)

lemma shortens_map: "shortens p \<Longrightarrow> shortens (p_map p f)"
  by (auto simp: shortens_def p_map_def and_then_Ok_iff)

lemma shortens_map_res: "shortens p \<Longrightarrow> shortens (p_map_res p f)"
  unfolding shortens_def
proof (intro allI impI)
  fix input rest a
  assume p: "\<forall>input rest a. p input = Ok (rest, a) \<longrightarrow> length rest \<le> length input"
    and "p_map_res p f input = Ok (rest, a)"
  then obtain mid b where "p input = Ok (mid, b)" "(case f b of Ok c \<Rightarrow> Ok (mid, c) | _ \<Rightarrow> Err ParseFailed) = Ok (rest, a)"
    by (auto simp: p_map_res_def and_then_Ok_iff)
  with p show "length rest \<le> length input" by (cases "f b") auto
qed

lemma shortens_terminated: "shortens p \<Longrightarrow> shortens q \<Longrightarrow> shortens (p_terminated p q)"
  by (fastforce simp: shortens_def p_terminated_def and_then_Ok_iff intro: le_trans)

context nom_combinators
begin

lemma parse_len_u64: "nom_parse_len_u64 N = p_map_res (p_terminated (p_map_res p_digit1 str_from_utf8) (p_char 58)) parse_usize"
  by (simp add: nom_parse_len_u64_def nom_parse_len_str_def laws)

lemma fine_string: "fine (nom_string N input)"
proof -
  have "fine (p_terminated (p_map_res p_digit1 str_from_utf8) (p_char 58) input)"
    by (intro fine_p_terminated fine_p_map_res) simp_all
  then have "fine (nom_parse_len_u64 N input)" unfolding parse_len_u64 by (rule fine_p_map_res)
  then show ?thesis
    unfolding nom_string_def by (rule fine_bind) (auto simp: laws intro: fine_p_map)
qed

lemma string_shorter: "shortens (nom_string N)"
proof -
  have "shortens (nom_parse_len_u64 N)"
    unfolding parse_len_u64 by (intro shortens_leaf shortens_map_res shortens_terminated)
  moreover have "shortens (p_map (p_take len) from_utf8_lossy)" for len
    by (intro shortens_map shortens_leaf)
  ultimately show ?thesis
    unfolding shortens_def nom_string_def laws
    by (fastforce simp: and_then_Ok_iff intro: le_trans)
qed

lemma decode_Suc:
  "nom_decode_fuel N (Suc n) = p_or (p_map (nom_integer N) VInt) (p_or (p_map (nom_string N) VString)
     (p_or (p_map (nom_list N (nom_decode_fuel N n)) VList) (p_map (nom_dict N (nom_decode_fuel N n)) VMap)))"
  by (simp add: nom_decode_fuel.simps laws)

lemma fine_decode: "length input < n \<Longrightarrow> fine (nom_decode_fuel N n input)"
proof (induction n arbitrary: input)
  case (Suc n)
  have dec: "fine (nom_decode_fuel N n input')" if "length input' < length input" for input'
    using Suc that by simp
  have "fine (nom_integer N input)"
    unfolding nom_integer_def laws by (rule fine_delimited) (rule fine_p_i64)
  moreover have "fine (nom_list N (nom_decode_fuel N n) input)"
    unfolding nom_list_def laws by (intro fine_delimited fine_p_fold_many0 dec) simp
  moreover have "fine (nom_dict N (nom_decode_fuel N n) input)"
    unfolding nom_dict_def laws
  proof (intro fine_delimited fine_p_fold_many0 fine_p_pair fine_string dec)
    fix rest input' rest' a
    assume "length rest < length input" "length input' \<le> length rest" "nom_string N input' = Ok (rest', a)"
    then show "length rest' < length input" using string_shorter unfolding shortens_def by fastforce
  qed
  ultimately show ?case
    unfolding decode_Suc by (intro fine_p_or fine_p_map fine_string)
qed simp

end

section \<open>What the hand-written decoder accepts\<close>

lemma takeWhile_digits:
  assumes "list_all is_digit ds" and "\<not> is_digit c"
  shows "takeWhile is_digit (ds @ c # rest) = ds" and "dropWhile is_digit (ds @ c # rest) = c # rest"
  using assms by (induction ds) auto

lemma digit1_run: "parse_digits ds = Some n \<Longrightarrow> \<not> is_digit c \<Longrightarrow> p_digit1 (ds @ c # rest) = Ok (c # rest, ds)"
  using takeWhile_digits [of ds c rest] by (auto simp: p_digit1_def parse_digits_def split: if_splits)

lemma ends_not_digit: "\<not> is_digit 58" "\<not> is_digit 101" "\<not> is_digit 105" "\<not> is_digit 108" "\<not> is_digit 100"
  "\<not> is_digit 45" "\<not> is_digit 43"
  by (simp_all add: is_digit_def word_le_nat_alt)

lemma position_split:
  assumes "position x bs = Some n"
  shows "bs = take n bs @ x # drop (n + 1) bs"
  using position_Some [OF assms] id_take_nth_drop [of n bs] by simp

context nom_combinators
begin

lemma string_agrees:
  assumes "decode_string (ch # bytes) = Ok (rest, v)" and "is_digit ch"
  shows "\<exists>s. v = VString s \<and> nom_string N (ch # bytes) = Ok (rest, s)"
proof -
  let ?b = "ch # bytes"
  obtain pos len where pos: "position 58 ?b = Some pos"
    and len: "utf8_valid (take pos ?b)" "parse_usize (take pos ?b) = Ok len" "len \<le> length (drop (pos + 1) ?b)"
    and out: "rest = drop len (drop (pos + 1) ?b)" "v = VString (from_utf8_lossy (take len (drop (pos + 1) ?b)))"
    using assms(1) by (auto simp: decode_string_def parse_utf8_def Let_def and_then_Ok_iff split: option.splits if_splits)
  have "ch \<noteq> 58" using assms(2) ends_not_digit by auto
  then obtain p where p: "pos = Suc p" using pos by (auto split: if_splits)
  have "strip_plus (take pos ?b) = take pos ?b" using assms(2) ends_not_digit(7) by (auto simp: p strip_plus_def)
  then obtain n where ds: "parse_digits (take pos ?b) = Some n"
    using len(2) by (auto simp: parse_usize_def split: option.splits)
  have "p_digit1 ?b = Ok (58 # drop (pos + 1) ?b, take pos ?b)"
    using digit1_run [OF ds ends_not_digit(1), of "drop (pos + 1) ?b"] position_split [OF pos] by simp
  then have "nom_parse_len_u64 N ?b = Ok (drop (pos + 1) ?b, len)"
    using len(1,2) by (simp add: parse_len_u64 p_map_res_def p_terminated_def str_from_utf8_def p_char_def)
  then show ?thesis
    using len(3) out by (simp add: nom_string_def laws p_map_def p_take_def)
qed

lemma integer_agrees:
  assumes "decode_int (105 # bytes) = Ok (rest, v)"
  shows "\<exists>n. v = VInt n \<and> nom_integer N (105 # bytes) = Ok (rest, n)"
proof -
  obtain e n where e: "position 101 (105 # bytes) = Some e" and v: "v = VInt n" "rest = drop (e + 1) (105 # bytes)"
    and num: "parse_i64 (take (e - 1) bytes) = Ok n"
    using assms by (auto simp: decode_int_def parse_utf8_def and_then_Ok_iff split: option.splits if_splits)
  obtain k where k: "e = Suc k" using e by (auto split: if_splits)
  define ds where "ds = take k bytes"
  have num: "parse_i64 ds = Ok n" using num k by (simp add: ds_def)
  have bytes: "bytes = ds @ 101 # rest" using position_split [OF e] k v by (simp add: ds_def)
  have "p_i64 bytes = Ok (101 # rest, n)"
  proof (cases ds)
    case Nil
    then show ?thesis using num by (simp add: parse_i64_def)
  next
    case (Cons d ds')
    show ?thesis
    proof (cases "d = 45")
      case True
      then obtain m where m: "parse_digits ds' = Some m" "m \<le> 2 ^ 63" "n = - int m"
        using num Cons by (auto simp: parse_i64_def split: option.splits if_splits)
      then have "digits_value ds' = m" by (auto simp: parse_digits_def split: if_splits)
      moreover have "int m \<le> 2 ^ 63" using m(2) by (metis of_nat_le_iff of_nat_numeral of_nat_power)
      ultimately show ?thesis
        using digit1_run [OF m(1) ends_not_digit(2), of rest] True Cons m(3)
        by (simp add: bytes p_i64_def p_sign_def Let_def)
    next
      case False
      then obtain m where m: "parse_digits (strip_plus ds) = Some m" "m < 2 ^ 63" "n = int m"
        using num Cons by (auto simp: parse_i64_def split: option.splits if_splits)
      then have "digits_value (strip_plus ds) = m" by (auto simp: parse_digits_def split: if_splits)
      moreover have "int m < 2 ^ 63" using m(2) by (metis of_nat_less_iff of_nat_numeral of_nat_power)
      moreover have "p_sign bytes = (False, strip_plus ds @ 101 # rest)"
        using False Cons by (auto simp: bytes p_sign_def strip_plus_def)
      ultimately show ?thesis
        using digit1_run [OF m(1) ends_not_digit(2), of rest] m(3) by (simp add: p_i64_def Let_def)
    qed
  qed
  then show ?thesis
    using v(1) by (simp add: nom_integer_def laws p_delimited_def p_terminated_def p_char_def)
qed

end

context nom_combinators
begin

text \<open>The byte \<open>e\<close> is not the start of a value, and every kind of value is told apart by its first byte.\<close>

lemma string_first: "\<not> is_digit ch \<Longrightarrow> nom_string N (ch # bytes) = Err ParseFailed"
  by (simp add: nom_string_def parse_len_u64 p_map_res_def p_terminated_def p_digit1_def)

lemma delimited_first: "b \<noteq> ch \<Longrightarrow> p_delimited (p_char b) q r (ch # bytes) = Err ParseFailed"
  by (simp add: p_delimited_def p_char_def)

lemmas first_simps = decode_Suc nom_integer_def nom_list_def nom_dict_def laws p_or_def p_map_def delimited_first string_first

lemma decode_at_e: "nom_decode_fuel N (Suc n) (101 # bytes) = Err ParseFailed"
  by (simp add: first_simps ends_not_digit)

lemma decode_string_case:
  assumes "is_digit ch" and "nom_string N (ch # bytes) = Ok (rest, s)"
  shows "nom_decode_fuel N (Suc n) (ch # bytes) = Ok (rest, VString s)"
proof -
  have "ch \<noteq> 105" using assms(1) ends_not_digit by auto
  then show ?thesis using assms(2) by (simp add: decode_Suc nom_integer_def laws p_or_def p_map_def delimited_first)
qed

lemma decode_int_case:
  assumes "nom_integer N (105 # bytes) = Ok (rest, n)"
  shows "nom_decode_fuel N (Suc m) (105 # bytes) = Ok (rest, VInt n)"
  using assms by (simp add: decode_Suc p_or_def p_map_def)

lemma decode_list_case:
  assumes "p_fold_many0 (nom_decode_fuel N n) (\<lambda>acc a. acc @ [a]) [] bytes = Ok (101 # rest, vs)"
  shows "nom_decode_fuel N (Suc n) (108 # bytes) = Ok (rest, VList vs)"
proof -
  have "p_delimited (p_char 108) (p_fold_many0 (nom_decode_fuel N n) (\<lambda>acc a. acc @ [a]) []) (p_char 101) (108 # bytes) =
      Ok (rest, vs)"
    using assms by (simp add: p_delimited_def p_terminated_def p_char_def)
  then show ?thesis by (simp add: first_simps ends_not_digit)
qed

abbreviation dict_loop :: "nat \<Rightarrow> entries \<Rightarrow> u8 list \<Rightarrow> (u8 list \<times> entries) res" where
  "dict_loop n \<equiv> p_fold_many0 (p_pair (nom_string N) (nom_decode_fuel N n)) (\<lambda>acc kv. btree_insert (fst kv) (snd kv) acc)"

lemma decode_dict_case:
  assumes "dict_loop n [] bytes = Ok (101 # rest, m)"
  shows "nom_decode_fuel N (Suc n) (100 # bytes) = Ok (rest, VMap m)"
proof -
  have "p_delimited (p_char 100) (dict_loop n []) (p_char 101) (100 # bytes) = Ok (rest, m)"
    using assms by (simp add: p_delimited_def p_terminated_def p_char_def)
  then show ?thesis by (simp add: first_simps ends_not_digit)
qed

text \<open>One more element, and the end, of a repetition.\<close>

lemma fold_step:
  "p input = Ok (rest, a) \<Longrightarrow> length rest < length input \<Longrightarrow>
   p_fold_many0 p f acc input = p_fold_many0 p f (f acc a) rest"
  by (subst p_fold_many0.simps) simp

lemma fold_stop: "p input = Err e \<Longrightarrow> p_fold_many0 p f acc input = Ok (input, acc)"
  by (subst p_fold_many0.simps) simp

lemma plain_shorter: "decode_plain n bytes = Ok (rest, v) \<Longrightarrow> length rest < length bytes"
  using decode_good [of bytes n "[]" "[]"] by (auto simp: good_result_def)

lemma plain_key:
  assumes "decode_plain n bytes = Ok (rest, VString k)"
  shows "nom_string N bytes = Ok (rest, k)"
proof (cases n)
  case (Suc n')
  obtain ch bs where bytes: "bytes = ch # bs" using plain_shorter [OF assms] by (cases bytes) auto
  have lists: "decode_list m x acc \<noteq> Ok (r, VString k)" "decode_dict m x acc' \<noteq> Ok (r, VString k)" for m x acc acc' r
    by (induction m arbitrary: x acc acc')
      (auto simp: decode_list.simps decode_dict.simps and_then_Ok_iff Let_def split: list.splits if_splits bvalue.splits)
  have "is_digit ch"
    using assms lists by (auto simp: Suc bytes decode_plain.simps decode_int_def and_then_Ok_iff split: if_splits option.splits)
  then show ?thesis
    using string_agrees [of ch bs rest "VString k"] assms by (simp add: Suc bytes decode_plain.simps)
qed (use assms in \<open>simp add: decode_plain.simps\<close>)

lemma decode_list_step:
  assumes "decode_list (Suc n) bytes vs = Ok (rest, v)"
  obtains mid elem where "decode_plain n bytes = Ok (mid, elem)"
    "(mid = 101 # rest \<and> v = VList (vs @ [elem])) \<or> decode_list n mid (vs @ [elem]) = Ok (rest, v)"
proof -
  obtain mid elem where el: "decode_plain n bytes = Ok (mid, elem)"
    using assms by (auto simp: decode_list.simps and_then_Ok_iff)
  then show ?thesis
    using assms that [OF el] by (cases mid) (auto simp: decode_list.simps Let_def split: if_splits)
qed

lemma decode_dict_step:
  assumes "decode_dict (Suc n) bytes kvs = Ok (rest, v)"
  obtains mid1 k mid val where "decode_plain n bytes = Ok (mid1, VString k)" "decode_plain n mid1 = Ok (mid, val)"
    "(mid = 101 # rest \<and> v = VMap (btree_insert k val kvs)) \<or> decode_dict n mid (btree_insert k val kvs) = Ok (rest, v)"
proof -
  obtain mid1 key where el: "decode_plain n bytes = Ok (mid1, key)"
    using assms by (auto simp: decode_dict.simps and_then_Ok_iff)
  then obtain k where k: "key = VString k"
    using assms by (cases key) (simp_all add: decode_dict.simps)
  then obtain mid val where val: "decode_plain n mid1 = Ok (mid, val)"
    using assms el by (auto simp: decode_dict.simps and_then_Ok_iff)
  then show ?thesis
    using assms that [OF el [unfolded k] val] el k by (cases mid) (auto simp: decode_dict.simps Let_def split: if_splits)
qed

text \<open>Whatever the hand-written decoder accepts, the other one accepts with the same result.\<close>

lemma plain_accepted:
  "(\<forall>r m. decode_plain n bytes = Ok r \<longrightarrow> length bytes < m \<longrightarrow> nom_decode_fuel N m bytes = Ok r) \<and>
   (\<forall>rest v m. decode_list n bytes vs = Ok (rest, v) \<longrightarrow> length bytes < m \<longrightarrow>
      (\<exists>vs'. v = VList vs' \<and> p_fold_many0 (nom_decode_fuel N m) (\<lambda>acc a. acc @ [a]) vs bytes = Ok (101 # rest, vs'))) \<and>
   (\<forall>rest v m. decode_dict n bytes kvs = Ok (rest, v) \<longrightarrow> length bytes < m \<longrightarrow>
      (\<exists>kvs'. v = VMap kvs' \<and> dict_loop m kvs bytes = Ok (101 # rest, kvs')))"
proof (induction n arbitrary: bytes vs kvs)
  case 0
  show ?case by (simp add: decode_plain.simps decode_list.simps decode_dict.simps)
next
  case (Suc n)
  have plain: "decode_plain n bytes = Ok r \<Longrightarrow> length bytes < m \<Longrightarrow> nom_decode_fuel N m bytes = Ok r"
    and list: "decode_list n bytes vs = Ok (rest, v) \<Longrightarrow> length bytes < m \<Longrightarrow>
      \<exists>vs'. v = VList vs' \<and> p_fold_many0 (nom_decode_fuel N m) (\<lambda>acc a. acc @ [a]) vs bytes = Ok (101 # rest, vs')"
    and dict: "decode_dict n bytes kvs = Ok (rest, v) \<Longrightarrow> length bytes < m \<Longrightarrow>
      \<exists>kvs'. v = VMap kvs' \<and> dict_loop m kvs bytes = Ok (101 # rest, kvs')"
    for bytes vs kvs r rest v m
    using Suc by blast+
  have "nom_decode_fuel N m bytes = Ok r" if run: "decode_plain (Suc n) bytes = Ok r" and m: "length bytes < m" for r m
  proof -
    obtain rest v where r: "r = (rest, v)" by (cases r)
    obtain m' where m': "m = Suc m'" using m by (cases m) auto
    obtain ch bs where bytes: "bytes = ch # bs" using run by (cases bytes) (auto simp: decode_plain.simps)
    consider "is_digit ch" "decode_string bytes = Ok r" | "ch = 105" "decode_int bytes = Ok r"
      | "ch = 108" "decode_list n bs [] = Ok r" | "ch = 100" "decode_dict n bs [] = Ok r"
      using run by (auto simp: decode_plain.simps bytes split: if_splits)
    then show ?thesis
    proof cases
      case 1
      then show ?thesis using string_agrees [of ch bs rest v] decode_string_case [OF 1(1)] by (auto simp: bytes r m')
    next
      case 2
      then show ?thesis using integer_agrees [of bs rest v] decode_int_case by (auto simp: bytes r m')
    next
      case 3
      then obtain vs' where "v = VList vs'" "p_fold_many0 (nom_decode_fuel N m') (\<lambda>acc a. acc @ [a]) [] bs = Ok (101 # rest, vs')"
        using list [of bs "[]" rest v m'] m by (auto simp: bytes r m')
      then show ?thesis using decode_list_case 3(1) by (auto simp: bytes r m')
    next
      case 4
      then obtain kvs' where "v = VMap kvs'" "dict_loop m' [] bs = Ok (101 # rest, kvs')"
        using dict [of bs "[]" rest v m'] m by (auto simp: bytes r m')
      then show ?thesis using decode_dict_case 4(1) by (auto simp: bytes r m')
    qed
  qed
  moreover have "\<exists>vs'. v = VList vs' \<and> p_fold_many0 (nom_decode_fuel N m) (\<lambda>acc a. acc @ [a]) vs bytes = Ok (101 # rest, vs')"
    if run: "decode_list (Suc n) bytes vs = Ok (rest, v)" and m: "length bytes < m" for rest v m
  proof -
    obtain mid elem where el: "decode_plain n bytes = Ok (mid, elem)"
      and more: "(mid = 101 # rest \<and> v = VList (vs @ [elem])) \<or> decode_list n mid (vs @ [elem]) = Ok (rest, v)"
      using run by (rule decode_list_step)
    note short = plain_shorter [OF el]
    have step: "p_fold_many0 (nom_decode_fuel N m) (\<lambda>acc a. acc @ [a]) vs bytes =
        p_fold_many0 (nom_decode_fuel N m) (\<lambda>acc a. acc @ [a]) (vs @ [elem]) mid"
      using fold_step [where p = "nom_decode_fuel N m" and input = bytes, OF plain [OF el m] short] .
    from more show ?thesis
    proof
      assume stop: "mid = 101 # rest \<and> v = VList (vs @ [elem])"
      obtain m' where "m = Suc m'" using m by (cases m) auto
      then have "nom_decode_fuel N m mid = Err ParseFailed" using decode_at_e stop by simp
      then show ?thesis using step stop by (simp add: fold_stop)
    next
      assume "decode_list n mid (vs @ [elem]) = Ok (rest, v)"
      from list [OF this, of m] short m step show ?thesis by simp
    qed
  qed
  moreover have "\<exists>kvs'. v = VMap kvs' \<and> dict_loop m kvs bytes = Ok (101 # rest, kvs')"
    if run: "decode_dict (Suc n) bytes kvs = Ok (rest, v)" and m: "length bytes < m" for rest v m
  proof -
    obtain mid1 k mid val where el: "decode_plain n bytes = Ok (mid1, VString k)" "decode_plain n mid1 = Ok (mid, val)"
      and more: "(mid = 101 # rest \<and> v = VMap (btree_insert k val kvs)) \<or> decode_dict n mid (btree_insert k val kvs) = Ok (rest, v)"
      using run by (rule decode_dict_step)
    note short = plain_shorter [OF el(1)] plain_shorter [OF el(2)]
    have pair: "p_pair (nom_string N) (nom_decode_fuel N m) bytes = Ok (mid, (k, val))"
      using plain_key [OF el(1)] plain [OF el(2), of m] short m by (simp add: p_pair_def)
    have "length mid < length bytes" using short by simp
    from fold_step [where p = "p_pair (nom_string N) (nom_decode_fuel N m)" and input = bytes and acc = kvs
        and f = "\<lambda>acc kv. btree_insert (fst kv) (snd kv) acc", OF pair this]
    have step: "dict_loop m kvs bytes = dict_loop m (btree_insert k val kvs) mid" by simp
    from more show ?thesis
    proof
      assume stop: "mid = 101 # rest \<and> v = VMap (btree_insert k val kvs)"
      then have "p_pair (nom_string N) (nom_decode_fuel N m) mid = Err ParseFailed"
        by (simp add: p_pair_def string_first ends_not_digit)
      then show ?thesis using step stop by (simp add: fold_stop)
    next
      assume "decode_dict n mid (btree_insert k val kvs) = Ok (rest, v)"
      from dict [OF this, of m] short m step show ?thesis by simp
    qed
  qed
  ultimately show ?case by blast
qed

lemma nom_accepts: "plain_decode bytes = Ok r \<Longrightarrow> nom_decode N bytes = Ok r"
  using plain_accepted [of "2 * length bytes + 2" bytes "[]" "[]"] by (simp add: plain_decode_def nom_decode_def del: nom_decode_fuel.simps)

lemma nom_fine: "fine (nom_decode N bytes)"
  unfolding nom_decode_def by (rule fine_decode) simp

lemma nom_empty:
  "nom_decode N (108 # 101 # rest) = Ok (rest, VList [])" "nom_decode N (100 # 101 # rest) = Ok (rest, VMap [])"
proof -
  have "nom_decode_fuel N (Suc (Suc (length rest))) (101 # rest) = Err ParseFailed"
    "p_pair (nom_string N) (nom_decode_fuel N (Suc (Suc (length rest)))) (101 # rest) = Err ParseFailed"
    using decode_at_e by (simp_all add: p_pair_def string_first ends_not_digit)
  note stop = fold_stop [where p = "nom_decode_fuel N (Suc (Suc (length rest)))" and input = "101 # rest", OF this(1)]
    fold_stop [where p = "p_pair (nom_string N) (nom_decode_fuel N (Suc (Suc (length rest))))" and input = "101 # rest", OF this(2)]
  show "nom_decode N (108 # 101 # rest) = Ok (rest, VList [])" "nom_decode N (100 # 101 # rest) = Ok (rest, VMap [])"
    unfolding nom_decode_def using decode_list_case [OF stop(1)] decode_dict_case [OF stop(2)] by simp_all
qed

end

section \<open>Properties\<close>

text \<open>
  C40. The two decoders compared: what the hand-written one accepts, the combinator one accepts with
  the same value and the same rest; the combinator one also accepts empty lists and maps, on
  which the other one panics, and on no input does it panic or run forever.
\<close>

theorem nom_refines_plain:
  assumes "nom_combinators N"
  shows "(plain_decode bytes = Ok out \<longrightarrow> nom_decode N bytes = Ok out) \<and>
    nom_decode N (108 # 101 # bytes) = Ok (bytes, VList []) \<and> nom_decode N (100 # 101 # bytes) = Ok (bytes, VMap []) \<and>
    ((\<exists>r. decoder_decode N Nom bytes = Ok r) \<or> (\<exists>e. decoder_decode N Nom bytes = Err e))"
proof (intro conjI impI)
  show "(\<exists>r. decoder_decode N Nom bytes = Ok r) \<or> (\<exists>e. decoder_decode N Nom bytes = Err e)"
    using nom_combinators.nom_fine [OF assms, of bytes] by (cases "nom_decode N bytes") (simp_all add: decoder_decode_def)
qed (simp_all add: nom_combinators.nom_accepts [OF assms] nom_combinators.nom_empty [OF assms])

theorem nom_refines_plain_witness: "nom_decode ref_nom [108, 105, 52, 50, 101, 101] = Ok ([], VList [VInt 42])"
proof -
  have v: "value_ok (VList [VInt 42])" by simp
  have "bencode (VList [VInt 42]) = [108, 105, 52, 50, 101, 101]"
    by (simp add: dec_int_def dec.simps)
  then have "plain_decode [108, 105, 52, 50, 101, 101] = Ok ([], VList [VInt 42])"
    using decodes_all [OF v] unfolding decodes_def plain_decode_def
    by (auto dest!: spec [of _ "14"] spec [of _ "[]"])
  then show ?thesis using nom_refines_plain [OF ref.nom_combinators_axioms] by blast
qed

end
