(* ===== verification/Peers.thy ===== *)
theory Peers
  imports ByteBuf
begin

text \<open>
  The compact list of peers, six bytes each: the visitor of \<open>src/tracker/peers.rs\<close> for the HTTP
  tracker, and the loop of \<open>send_announce\<close> in \<open>src/tracker/udp.rs\<close> that reads the same format
  from the buffer. An \<open>Ipv4Addr\<close> is its 32 bits, \<open>Ipv4Addr::new\<close> puts four bytes together.
\<close>

section \<open>The code\<close>

record peer =
  peer_id :: "string option"
  peer_ip :: u32
  peer_port :: u16

definition ipv4_new :: "u8 \<Rightarrow> u8 \<Rightarrow> u8 \<Rightarrow> u8 \<Rightarrow> u32" where
  "ipv4_new a b c d = from_be [a, b, c, d]"

definition peers_visit_bytes :: "u8 list \<Rightarrow> peer list res" where
  "peers_visit_bytes v =
     (if length v mod 6 \<noteq> 0 then Err (Anyhow ''invalid length'')
      else Ok (map (\<lambda>c. \<lparr>peer_id = None, peer_ip = ipv4_new (c ! 0) (c ! 1) (c ! 2) (c ! 3),
                   peer_port = from_be [c ! 4, c ! 5]\<rparr>) (chunks_exact 6 v)))"

text \<open>The deserializer of the data format calls back the visitor it is given.\<close>

definition peers_visitor :: "peer list visitor" where
  "peers_visitor = \<lparr>expecting = ''byte array with a length that is a multiple of 6'', visit_bytes = peers_visit_bytes\<rparr>"

definition peers_deserialize :: "(peer list visitor \<Rightarrow> peer list res) \<Rightarrow> peer list res" where
  "peers_deserialize deserialize_bytes = deserialize_bytes peers_visitor"

text \<open>The loop \<open>for _ in 0..num_peers\<close> over the buffer.\<close>

primrec read_peers :: "'b buf_api \<Rightarrow> nat \<Rightarrow> ('b, socket_addr list) prog" where
  "read_peers B 0 = ret []"
| "read_peers B (Suc n) =
     bnd (buf_get_u32 B) (\<lambda>ip.
     bnd (buf_get_u16 B) (\<lambda>port.
     bnd (read_peers B n) (\<lambda>peers. ret ((ip, port) # peers))))"

lemma peers_deserialize_bytes [simp]: "peers_deserialize (\<lambda>v. visit_bytes v bytes) = peers_visit_bytes bytes"
  by (simp add: peers_deserialize_def peers_visitor_def)

section \<open>Both read the same peers\<close>

definition peer_of_bytes :: "u8 list \<Rightarrow> socket_addr" where
  "peer_of_bytes c = (from_be (take 4 c), from_be (drop 4 c))"

definition peer_bytes :: "socket_addr \<Rightarrow> u8 list" where
  "peer_bytes a = to_be 4 (fst a) @ to_be 2 (snd a)"

definition compact_peers :: "u8 list \<Rightarrow> socket_addr list" where
  "compact_peers v = map peer_of_bytes (chunks_exact 6 v)"

lemma length_peer_bytes [simp]: "length (peer_bytes a) = 6"
  by (simp add: peer_bytes_def)

lemma peer_of_peer_bytes [simp]: "peer_of_bytes (peer_bytes a) = a"
  by (simp add: peer_of_bytes_def peer_bytes_def from_be_to_be)

lemma compact_peers_append: "length c = 6 \<Longrightarrow> compact_peers (c @ v) = peer_of_bytes c # compact_peers v"
  by (simp add: compact_peers_def chunks_exact_append)

lemma compact_peers_Nil [simp]: "compact_peers [] = []"
  by (simp add: compact_peers_def chunks_exact.simps)

lemma compact_peers_encode [simp]: "compact_peers (concat (map peer_bytes ps)) = ps"
  by (induction ps) (simp_all add: compact_peers_append)

lemma six_bytes: "length c = 6 \<Longrightarrow> c = [c ! 0, c ! 1, c ! 2, c ! 3, c ! 4, c ! 5]"
  by (rule nth_equalityI) (auto simp: less_Suc_eq numeral_eq_Suc)

lemma visit_bytes_compact:
  assumes "length v mod 6 = 0"
  shows "\<exists>ps. peers_visit_bytes v = Ok ps \<and> map (\<lambda>p. (peer_ip p, peer_port p)) ps = compact_peers v \<and>
    (\<forall>p \<in> set ps. peer_id p = None)"
proof -
  have "(ipv4_new (c ! 0) (c ! 1) (c ! 2) (c ! 3), from_be [c ! 4, c ! 5]) = peer_of_bytes c"
    if "c \<in> set (chunks_exact 6 v)" for c
  proof -
    have "length c = 6" using that by (rule length_chunks_exact)
    then obtain a0 a1 a2 a3 a4 a5 where "c = [a0, a1, a2, a3, a4, a5]" using six_bytes by blast
    then show ?thesis by (simp add: peer_of_bytes_def ipv4_new_def)
  qed
  then show ?thesis using assms by (simp add: peers_visit_bytes_def compact_peers_def)
qed

context bytes_mut
begin

lemma read_peers_run:
  "length (buf_bytes B b) = 6 * n \<Longrightarrow> \<exists>b'. read_peers B n b = (Ok (compact_peers (buf_bytes B b)), b') \<and> buf_bytes B b' = []"
proof (induction n arbitrary: b)
  case (Suc n)
  let ?v = "buf_bytes B b" and ?b1 = "skip B 4 b" and ?b2 = "skip B 2 (skip B 4 b)"
  have view: "buf_bytes B ?b2 = drop 6 ?v" using Suc.prems by (simp add: read_simps)
  have "length (buf_bytes B ?b2) = 6 * n" using Suc.prems view by simp
  from Suc.IH [OF this] obtain b' where
    b': "read_peers B n ?b2 = (Ok (compact_peers (drop 6 ?v)), b')" "buf_bytes B b' = []"
    using view by auto
  have six: "length (take 6 ?v) = 6" using Suc.prems by simp
  have "compact_peers ?v = compact_peers (take 6 ?v @ drop 6 ?v)" by simp
  also have "\<dots> = peer_of_bytes (take 6 ?v) # compact_peers (drop 6 ?v)"
    by (rule compact_peers_append [OF six])
  finally have all: "compact_peers ?v = (from_be (take 4 ?v), from_be (take 2 (drop 4 ?v))) # compact_peers (drop 6 ?v)"
    by (simp add: peer_of_bytes_def take_drop)
  show ?case using Suc.prems b' by (simp add: read_simps all)
qed simp

end

section \<open>Properties\<close>

text \<open>
  C39. The compact peer list of an HTTP tracker and the one of a UDP tracker are read alike: on
  bytes whose number is a multiple of six, the visitor and the loop over the buffer give the
  same addresses, those whose six-byte forms make up the input.
\<close>

theorem compact_peers_agree:
  assumes "bytes_mut B" and "length (buf_bytes B b) = 6 * n"
  shows "\<exists>ps addrs b'. peers_visit_bytes (buf_bytes B b) = Ok ps \<and> read_peers B n b = (Ok addrs, b') \<and>
    map (\<lambda>p. (peer_ip p, peer_port p)) ps = addrs \<and> concat (map peer_bytes addrs) = buf_bytes B b \<and>
    buf_bytes B b' = []"
proof -
  let ?v = "buf_bytes B b"
  have mod: "length ?v mod 6 = 0" using assms(2) by simp
  obtain ps where ps: "peers_visit_bytes ?v = Ok ps" "map (\<lambda>p. (peer_ip p, peer_port p)) ps = compact_peers ?v"
    using visit_bytes_compact [OF mod] by blast
  have "peer_bytes (peer_of_bytes c) = c" if "c \<in> set (chunks_exact 6 ?v)" for c
  proof -
    have n: "length c = 6" using that by (rule length_chunks_exact)
    then have "to_be 4 (from_be (take 4 c) :: u32) = take 4 c" "to_be 2 (from_be (drop 4 c) :: u16) = drop 4 c"
      using to_be_from_be [of "take 4 c", where 'a = 32] to_be_from_be [of "drop 4 c", where 'a = 16] by simp_all
    then show ?thesis by (simp add: peer_bytes_def peer_of_bytes_def)
  qed
  then have "map (peer_bytes \<circ> peer_of_bytes) (chunks_exact 6 ?v) = map id (chunks_exact 6 ?v)"
    by (intro map_cong) simp_all
  then have "concat (map peer_bytes (compact_peers ?v)) = ?v"
    using concat_chunks_exact [of 6 ?v] mod by (simp add: compact_peers_def)
  moreover obtain b' where "read_peers B n b = (Ok (compact_peers ?v), b')" "buf_bytes B b' = []"
    using bytes_mut.read_peers_run [OF assms] by blast
  ultimately show ?thesis using ps by blast
qed

theorem compact_peers_agree_witness:
  "\<exists>b'. read_peers vec_buf 1 [127, 0, 0, 1, 26, 225] = (Ok [(0x7F000001, 6881)], b')"
proof -
  have "\<exists>ps addrs b'. peers_visit_bytes [127, 0, 0, 1, 26, 225] = Ok ps \<and>
      read_peers vec_buf 1 [127, 0, 0, 1, 26, 225] = (Ok addrs, b') \<and>
      map (\<lambda>p. (peer_ip p, peer_port p)) ps = addrs"
    using compact_peers_agree [OF vec.bytes_mut_axioms, of "[127, 0, 0, 1, 26, 225]" 1] by auto
  moreover have "peers_visit_bytes [127, 0, 0, 1, 26, 225] =
      Ok [\<lparr>peer_id = None, peer_ip = 0x7F000001, peer_port = 6881\<rparr>]"
    by (simp add: peers_visit_bytes_def ipv4_new_def chunks_exact.simps from_be_def)
  ultimately show ?thesis by auto
qed

end
