(* ===== verification/Udp.thy ===== *)
theory Udp
  imports Peers Utf8
begin

text \<open>
  The client of a UDP tracker, \<open>src/tracker/udp.rs\<close>. The socket, the random numbers and the
  buffer are parameters. Time passes only while the code waits for the socket: an operation of
  the socket takes some nanoseconds or never ends, and a timeout around it cuts it off.
\<close>

section \<open>State and parameters\<close>

text \<open>
  \<open>ut_tick\<close> numbers the questions put to the environment, \<open>ut_now\<close> is the clock, \<open>ut_sent\<close> the
  datagrams sent so far; the other fields are those of \<open>UdpTracker\<close>.
\<close>

record 'b udp_tracker =
  ut_buf :: 'b
  ut_key :: u32
  ut_conn_id :: u64
  ut_conn_id_ts :: nat
  ut_next_announce :: nat
  ut_now :: nat
  ut_tick :: nat
  ut_sent :: "u8 list list"

record udp_env =
  ue_random :: "nat \<Rightarrow> u32"
  ue_send :: "nat \<Rightarrow> u8 list \<Rightarrow> nat option \<times> usize option"
  ue_recv :: "nat \<Rightarrow> nat option \<times> u8 list option"
  ue_peer_addr :: "socket_addr option"

definition protocol_id :: u64 where "protocol_id = 0x41727101980"
definition action_connect :: u32 where "action_connect = 0"
definition action_announce :: u32 where "action_announce = 1"
definition action_error :: u32 where "action_error = 3"

definition retry_timeout :: "nat list" where
  "retry_timeout = [15, 45, 105]"

text \<open>\<open>Duration::from_secs\<close>, in nanoseconds.\<close>

definition from_secs :: "nat \<Rightarrow> nat" where
  "from_secs s = s * 1000000000"

section \<open>Waiting and timeouts\<close>

text \<open>
  Waiting for an operation, which ends after some delay or never, with a result or an error
  (\<open>None\<close>), under a deadline: it is abandoned (\<open>Hang\<close>) when it would end after the deadline. \<open>with_timeout\<close> is \<open>tokio::time::timeout\<close>: what is abandoned at its own deadline
  becomes \<open>None\<close>, what is abandoned at an earlier or equal deadline around it stays abandoned.
\<close>

definition random_u32 :: "udp_env \<Rightarrow> ('b udp_tracker, u32) prog" where
  "random_u32 env = (\<lambda>s. (Ok (ue_random env (ut_tick s)), s\<lparr>ut_tick := ut_tick s + 1\<rparr>))"

definition await_op :: "nat option \<Rightarrow> (nat \<Rightarrow> nat option \<times> 'a option) \<Rightarrow> ('b udp_tracker, 'a) prog" where
  "await_op deadline op = (\<lambda>s.
     let s1 = s\<lparr>ut_tick := ut_tick s + 1\<rparr>;
         abandoned = (case deadline of None \<Rightarrow> s1 | Some d \<Rightarrow> s1\<lparr>ut_now := max (ut_now s) d\<rparr>)
     in case op (ut_tick s) of
       (None, r) \<Rightarrow> (Hang, abandoned)
     | (Some delay, r) \<Rightarrow>
         if (case deadline of None \<Rightarrow> True | Some d \<Rightarrow> ut_now s + delay \<le> d)
         then ((case r of Some a \<Rightarrow> Ok a | None \<Rightarrow> Err IoFailed), s1\<lparr>ut_now := ut_now s + delay\<rparr>)
         else (Hang, abandoned))"

definition with_timeout ::
  "nat option \<Rightarrow> nat \<Rightarrow> (nat option \<Rightarrow> ('b udp_tracker, 'a) prog) \<Rightarrow> ('b udp_tracker, 'a res option) prog"
where
  "with_timeout deadline secs m = (\<lambda>s.
     let own = ut_now s + from_secs secs;
         cut = (case deadline of None \<Rightarrow> False | Some d \<Rightarrow> d \<le> own) in
     case m (if cut then deadline else Some own) s of
       (Ok a, s') \<Rightarrow> (Ok (Some (Ok a)), s')
     | (Err e, s') \<Rightarrow> (Ok (Some (Err e)), s')
     | (Panic p, s') \<Rightarrow> (Panic p, s')
     | (Hang, s') \<Rightarrow> (if cut then (Hang, s') else (Ok None, s')))"

text \<open>
  Work on the buffer; sending it; receiving a datagram into it. \<open>ue_recv\<close> gives the bytes that
  \<open>recv_buf\<close> appends: the datagram, cut to the room the buffer has left.
\<close>

definition on_buf :: "('b, 'a) prog \<Rightarrow> ('b udp_tracker, 'a) prog" where
  "on_buf m = (\<lambda>s. case m (ut_buf s) of (r, b) \<Rightarrow> (r, s\<lparr>ut_buf := b\<rparr>))"

definition put_all :: "('b \<Rightarrow> 'b) list \<Rightarrow> ('b udp_tracker, unit) prog" where
  "put_all ws = modify (\<lambda>s. s\<lparr>ut_buf := fold (\<lambda>w. w) ws (ut_buf s)\<rparr>)"

definition socket_send :: "udp_env \<Rightarrow> nat option \<Rightarrow> u8 list \<Rightarrow> ('b udp_tracker, usize) prog" where
  "socket_send env deadline v =
     bnd (await_op deadline (\<lambda>t. ue_send env t v)) (\<lambda>n.
     bnd (modify (\<lambda>s. s\<lparr>ut_sent := ut_sent s @ [v]\<rparr>)) (\<lambda>_. ret n))"

definition socket_recv_buf :: "'b buf_api \<Rightarrow> udp_env \<Rightarrow> nat option \<Rightarrow> ('b udp_tracker, unit) prog" where
  "socket_recv_buf B env deadline =
     bnd (await_op deadline (ue_recv env)) (\<lambda>v. put_all [buf_put B v])"

section \<open>The code\<close>

definition validate_action :: "'b buf_api \<Rightarrow> u32 \<Rightarrow> u32 \<Rightarrow> ('b udp_tracker, unit) prog" where
  "validate_action B expected action =
     (if action = expected then ret ()
      else if action = action_error then
        bnd (gets (\<lambda>s. length (buf_bytes B (ut_buf s)))) (\<lambda>n.
        bnd (on_buf (buf_copy_to_slice B n)) (\<lambda>msg.
        lift (if utf8_valid msg then Err (Anyhow ''tracker returned error'') else Panic UnwrapFailed)))
      else lift (Err (Anyhow ''unexpected action'')))"

definition get_conn_id :: "'b buf_api \<Rightarrow> udp_env \<Rightarrow> nat option \<Rightarrow> ('b udp_tracker, unit) prog" where
  "get_conn_id B env deadline =
     bnd (put_all [buf_clear B, buf_put_u64 B protocol_id, buf_put_u32 B action_connect]) (\<lambda>_.
     bnd (random_u32 env) (\<lambda>tx_id.
     bnd (put_all [buf_put_u32 B tx_id]) (\<lambda>_.
     bnd (gets (\<lambda>s. buf_bytes B (ut_buf s))) (\<lambda>v.
     bnd (socket_send env deadline v) (\<lambda>n.
     bnd (gets (\<lambda>s. length (buf_bytes B (ut_buf s)))) (\<lambda>len.
     bnd (ensure (len = n) (Anyhow ''ensure'')) (\<lambda>_.
     bnd (put_all [buf_clear B]) (\<lambda>_.
     bnd (socket_recv_buf B env deadline) (\<lambda>_.
     bnd (gets (\<lambda>s. length (buf_bytes B (ut_buf s)))) (\<lambda>len.
     bnd (ensure (16 = len) (Anyhow ''ensure'')) (\<lambda>_.
     bnd (on_buf (buf_get_u32 B)) (\<lambda>action.
     bnd (on_buf (buf_get_u32 B)) (\<lambda>id.
     bnd (ensure (tx_id = id) (Anyhow ''ensure'')) (\<lambda>_.
     bnd (validate_action B action_connect action) (\<lambda>_.
     bnd (on_buf (buf_get_u64 B)) (\<lambda>conn_id.
     modify (\<lambda>s. s\<lparr>ut_conn_id := conn_id, ut_conn_id_ts := ut_now s\<rparr>)))))))))))))))))"

primrec retry_conn_loop :: "'b buf_api \<Rightarrow> udp_env \<Rightarrow> nat option \<Rightarrow> nat list \<Rightarrow> ('b udp_tracker, unit) prog" where
  "retry_conn_loop B env deadline [] = lift (Err (Anyhow ''failed to get connection id''))"
| "retry_conn_loop B env deadline (t # ts) =
     bnd (with_timeout deadline t (get_conn_id B env)) (\<lambda>r.
     case r of Some (Ok _) \<Rightarrow> ret () | _ \<Rightarrow> retry_conn_loop B env deadline ts)"

definition retry_get_conn_id :: "'b buf_api \<Rightarrow> udp_env \<Rightarrow> nat option \<Rightarrow> ('b udp_tracker, unit) prog" where
  "retry_get_conn_id B env deadline = retry_conn_loop B env deadline retry_timeout"

text \<open>What \<open>announce\<close> is called with.\<close>

record announce_args =
  aa_info_hash :: "u8 list"
  aa_peer_id :: "u8 list"
  aa_downloaded :: u64
  aa_left :: u64
  aa_uploaded :: u64

definition send_announce ::
  "'b buf_api \<Rightarrow> udp_env \<Rightarrow> announce_args \<Rightarrow> nat option \<Rightarrow> ('b udp_tracker, socket_addr list \<times> u32) prog"
where
  "send_announce B env args deadline =
     bnd (gets (\<lambda>s. ut_now s < ut_next_announce s)) (\<lambda>early.
     bnd (ensure (\<not> early) (Anyhow ''announce interval has not passed yet'')) (\<lambda>_.
     bnd (gets (\<lambda>s. ut_now s - ut_conn_id_ts s > from_secs 60)) (\<lambda>stale.
     bnd (if stale then retry_get_conn_id B env deadline else ret ()) (\<lambda>_.
     bnd (random_u32 env) (\<lambda>tx_id.
     bnd (lift (case ue_peer_addr env of None \<Rightarrow> Panic UnwrapFailed | Some a \<Rightarrow> Ok (snd a))) (\<lambda>port.
     bnd (gets ut_conn_id) (\<lambda>conn_id.
     bnd (gets ut_key) (\<lambda>key.
     bnd (put_all [buf_clear B, buf_put_u64 B conn_id, buf_put_u32 B action_announce, buf_put_u32 B tx_id,
            buf_put B (aa_info_hash args), buf_put B (aa_peer_id args), buf_put_u64 B (aa_downloaded args),
            buf_put_u64 B (aa_left args), buf_put_u64 B (aa_uploaded args), buf_put_u32 B 0, buf_put_u32 B 0,
            buf_put_u32 B key, buf_put_u32 B (- 1), buf_put_u16 B port]) (\<lambda>_.
     bnd (gets (\<lambda>s. buf_bytes B (ut_buf s))) (\<lambda>v.
     bnd (socket_send env deadline v) (\<lambda>n.
     bnd (ensure (98 = n) (Anyhow ''ensure'')) (\<lambda>_.
     bnd (put_all [buf_clear B]) (\<lambda>_.
     bnd (socket_recv_buf B env deadline) (\<lambda>_.
     bnd (gets (\<lambda>s. length (buf_bytes B (ut_buf s)))) (\<lambda>len.
     bnd (ensure (len \<ge> 20) (Anyhow ''ensure'')) (\<lambda>_.
     bnd (on_buf (buf_get_u32 B)) (\<lambda>action.
     bnd (on_buf (buf_get_u32 B)) (\<lambda>id.
     bnd (ensure (tx_id = id) (Anyhow ''ensure'')) (\<lambda>_.
     bnd (validate_action B action_announce action) (\<lambda>_.
     bnd (on_buf (buf_get_u32 B)) (\<lambda>interval.
     bnd (modify (\<lambda>s. s\<lparr>ut_next_announce := ut_now s + from_secs (unat interval)\<rparr>)) (\<lambda>_.
     bnd (on_buf (buf_get_u32 B)) (\<lambda>leechers.
     bnd (on_buf (buf_get_u32 B)) (\<lambda>seeders.
     bnd (gets (\<lambda>s. length (buf_bytes B (ut_buf s)))) (\<lambda>len.
     bnd (ensure (len mod 6 = 0) (Anyhow ''ip/port bytes should be divisible by 6'')) (\<lambda>_.
     bnd (on_buf (read_peers B (len div 6))) (\<lambda>peers.
     ret (peers, seeders))))))))))))))))))))))))))))"

primrec announce_loop ::
  "'b buf_api \<Rightarrow> udp_env \<Rightarrow> announce_args \<Rightarrow> nat list \<Rightarrow> ('b udp_tracker, socket_addr list \<times> u32) prog"
where
  "announce_loop B env args [] = lift (Err (Anyhow ''failed to get connection id''))"
| "announce_loop B env args (t # ts) =
     bnd (with_timeout None t (send_announce B env args)) (\<lambda>r.
     case r of Some (Ok resp) \<Rightarrow> ret resp | _ \<Rightarrow> announce_loop B env args ts)"

definition udp_announce ::
  "'b buf_api \<Rightarrow> udp_env \<Rightarrow> announce_args \<Rightarrow> ('b udp_tracker, socket_addr list \<times> u32) prog"
where
  "udp_announce B env args = announce_loop B env args retry_timeout"

text \<open>
  \<open>connect\<close>: the host and port that the \<open>url\<close> crate finds in the string, and whether binding and
  connecting the socket succeed, are parameters; \<open>now\<close> is the time when the socket is connected.
\<close>

record connect_env =
  ce_bind :: bool
  ce_parse :: "string \<Rightarrow> (string option \<times> u16 option) res"
  ce_connect :: "string \<Rightarrow> u16 \<Rightarrow> bool"
  ce_key :: u32
  ce_now :: nat

definition new_tracker :: "'b \<Rightarrow> u32 \<Rightarrow> nat \<Rightarrow> 'b udp_tracker" where
  "new_tracker buf key now = \<lparr>ut_buf = buf, ut_key = key, ut_conn_id = 0, ut_conn_id_ts = now,
     ut_next_announce = now, ut_now = now, ut_tick = 0, ut_sent = []\<rparr>"

definition udp_connect :: "'b buf_api \<Rightarrow> 'b \<Rightarrow> connect_env \<Rightarrow> udp_env \<Rightarrow> string \<Rightarrow> 'b udp_tracker res" where
  "udp_connect B buf ce env url =
     and_then (if ce_bind ce then Ok () else Err IoFailed) (\<lambda>_.
     and_then (ce_parse ce url) (\<lambda>(host_opt, port_opt).
     and_then (case host_opt of None \<Rightarrow> Err (Anyhow ''url missing host'') | Some host \<Rightarrow> Ok host) (\<lambda>host.
     and_then (case port_opt of None \<Rightarrow> Err (Anyhow ''url missing port'') | Some port \<Rightarrow> Ok port) (\<lambda>port.
     and_then (if ce_connect ce host port then Ok () else Err IoFailed) (\<lambda>_.
     case with_timeout None 5 (get_conn_id B env) (new_tracker buf (ce_key ce) (ce_now ce)) of
       (Ok None, s) \<Rightarrow> Err (Anyhow ''deadline has elapsed'')
     | (Ok (Some r), s) \<Rightarrow> and_then r (\<lambda>_. Ok s)
     | (Err e, s) \<Rightarrow> Err e
     | (Panic p, s) \<Rightarrow> Panic p
     | (Hang, s) \<Rightarrow> Hang)))))"

section \<open>An announcement takes bounded time\<close>

text \<open>
  \<open>in_time d m\<close>: started before \<open>d\<close>, the program ends before \<open>d\<close>, and it is abandoned at \<open>d\<close>
  only.
\<close>

definition in_time :: "nat \<Rightarrow> ('b udp_tracker, 'a) prog \<Rightarrow> bool" where
  "in_time d m \<longleftrightarrow> (\<forall>s r s'. m s = (r, s') \<longrightarrow> ut_now s \<le> d \<longrightarrow>
     ut_now s' \<le> d \<and> (r = Hang \<longrightarrow> ut_now s' = d))"

named_theorems in_time \<open>programs that respect a deadline\<close>

lemma in_time_ret [in_time]: "in_time d (ret a)"
  and in_time_gets [in_time]: "in_time d (gets f)"
  and in_time_random [in_time]: "in_time d (random_u32 env)"
  and in_time_ensure [in_time]: "in_time d (ensure c e)"
  and in_time_put_all [in_time]: "in_time d (put_all ws)"
  and in_time_lift [in_time]: "x \<noteq> Hang \<Longrightarrow> in_time d (lift x)"
  and in_time_modify [in_time]: "(\<And>s. ut_now (g s) = ut_now s) \<Longrightarrow> in_time d (modify g)"
  by (auto simp: in_time_def random_u32_def put_all_def)

lemma in_time_bnd [in_time]:
  assumes "in_time d m" and "\<And>a. in_time d (f a)"
  shows "in_time d (bnd m f)"
  unfolding in_time_def
proof (intro allI impI)
  fix s r s' assume run: "bnd m f s = (r, s')" and le: "ut_now s \<le> d"
  obtain r1 s1 where m: "m s = (r1, s1)" by (metis surj_pair)
  then have s1: "ut_now s1 \<le> d" "r1 = Hang \<longrightarrow> ut_now s1 = d"
    using assms(1) le unfolding in_time_def by blast+
  show "ut_now s' \<le> d \<and> (r = Hang \<longrightarrow> ut_now s' = d)"
  proof (cases r1)
    case (Ok a)
    then have "f a s1 = (r, s')" using run m by simp
    then show ?thesis using assms(2) [of a] s1(1) unfolding in_time_def by blast
  qed (use run m s1 in auto)
qed

lemma in_time_if [in_time]: "(c \<Longrightarrow> in_time d m) \<Longrightarrow> (\<not> c \<Longrightarrow> in_time d m') \<Longrightarrow> in_time d (if c then m else m')"
  by simp

lemma in_time_await [in_time]: "in_time d (await_op (Some d) op)"
  by (auto simp: in_time_def await_op_def Let_def split: option.splits prod.splits if_splits)

lemma in_time_send [in_time]: "in_time d (socket_send env (Some d) v)"
  and in_time_recv [in_time]: "in_time d (socket_recv_buf B env (Some d))"
  unfolding socket_send_def socket_recv_buf_def by (intro in_time; simp)+

text \<open>A timeout around a program that respects every deadline.\<close>

lemma with_timeout_None:
  assumes "\<And>d. in_time d (m (Some d))" and "with_timeout None t m s = (r, s')"
  shows "r \<noteq> Hang \<and> ut_now s' \<le> ut_now s + from_secs t \<and> (\<forall>e. r \<noteq> Err e)"
proof -
  obtain r1 s1 where m: "m (Some (ut_now s + from_secs t)) s = (r1, s1)" by (metis surj_pair)
  then have "ut_now s1 \<le> ut_now s + from_secs t"
    using assms(1) [of "ut_now s + from_secs t"] unfolding in_time_def by simp
  then show ?thesis
    using assms(2) m by (cases r1) (auto simp: with_timeout_def Let_def)
qed

lemma in_time_with_timeout [in_time]:
  assumes "\<And>d. in_time d (m (Some d))"
  shows "in_time d (with_timeout (Some d) t m)"
  unfolding in_time_def
proof (intro allI impI)
  fix s r s' assume run: "with_timeout (Some d) t m s = (r, s')" and le: "ut_now s \<le> d"
  define e where "e = (if d \<le> ut_now s + from_secs t then d else ut_now s + from_secs t)"
  obtain r1 s1 where m: "m (Some e) s = (r1, s1)" by (metis surj_pair)
  have e: "e \<le> d" "ut_now s \<le> e" using le by (auto simp: e_def)
  then have s1: "ut_now s1 \<le> e" "r1 = Hang \<longrightarrow> ut_now s1 = e"
    using assms [of e] m unfolding in_time_def by blast+
  show "ut_now s' \<le> d \<and> (r = Hang \<longrightarrow> ut_now s' = d)"
    using run m s1 e by (cases r1) (auto simp: with_timeout_def Let_def e_def split: if_splits)
qed

context bytes_mut
begin

lemma reads_end: "fst (buf_get_u32 B b) \<noteq> Hang" "fst (buf_get_u16 B b) \<noteq> Hang" "fst (buf_get_u64 B b) \<noteq> Hang"
  "fst (buf_copy_to_slice B n b) \<noteq> Hang"
proof -
  show "fst (buf_get_u32 B b) \<noteq> Hang" using get_u32_ok [of b] get_u32_short [of b] by (cases "4 \<le> length (buf_bytes B b)") auto
  show "fst (buf_get_u16 B b) \<noteq> Hang" using get_u16_ok [of b] get_u16_short [of b] by (cases "2 \<le> length (buf_bytes B b)") auto
  show "fst (buf_get_u64 B b) \<noteq> Hang" using get_u64_ok [of b] get_u64_short [of b] by (cases "8 \<le> length (buf_bytes B b)") auto
  show "fst (buf_copy_to_slice B n b) \<noteq> Hang" using copy_ok [of n b] copy_short [of b n] by (cases "n \<le> length (buf_bytes B b)") auto
qed

lemma in_time_on_buf:
  assumes "\<And>b. fst (m b) \<noteq> Hang"
  shows "in_time d (on_buf m)"
proof -
  have "m b = (r, b') \<Longrightarrow> r \<noteq> Hang" for b r b' using assms [of b] by auto
  then show ?thesis by (auto simp: in_time_def on_buf_def split: prod.splits)
qed

lemma read_peers_ends: "fst (read_peers B n b) \<noteq> Hang"
proof (induction n arbitrary: b)
  case (Suc n)
  have *: "fst (bnd m f b) \<noteq> Hang" if "\<And>b. fst (m b) \<noteq> Hang" "\<And>a b. fst (f a b) \<noteq> Hang" for m :: "('b, 'x) prog" and f :: "'x \<Rightarrow> ('b, 'y) prog" and b
  proof -
    obtain r b1 where "m b = (r, b1)" by (metis surj_pair)
    then show ?thesis using that(1) [of b] that(2) by (cases r) auto
  qed
  show ?case unfolding read_peers.simps by (intro * reads_end Suc.IH) simp
qed simp

lemmas in_time_reads = in_time_on_buf [OF reads_end(1)] in_time_on_buf [OF reads_end(2)]
  in_time_on_buf [OF reads_end(3)] in_time_on_buf [OF reads_end(4)] in_time_on_buf [OF read_peers_ends]

lemma in_time_validate: "in_time d (validate_action B expected action)"
  unfolding validate_action_def by (intro in_time in_time_reads) simp_all

lemma in_time_get_conn_id: "in_time d (get_conn_id B env (Some d))"
  unfolding get_conn_id_def by (intro in_time in_time_reads in_time_validate) simp_all

lemma in_time_retry: "in_time d (retry_conn_loop B env (Some d) ts)"
proof (induction ts)
  case (Cons t ts)
  have "in_time d (case r of Some (Ok a) \<Rightarrow> ret () | _ \<Rightarrow> retry_conn_loop B env (Some d) ts)" for r :: "unit res option"
    using Cons by (auto intro: in_time split: option.splits res.splits)
  then show ?case unfolding retry_conn_loop.simps
    by (intro in_time in_time_get_conn_id)
qed (auto simp: in_time_def)

lemma in_time_send_announce: "in_time d (send_announce B env args (Some d))"
  unfolding send_announce_def retry_get_conn_id_def
  by (intro in_time in_time_reads in_time_validate in_time_retry) (simp_all split: option.splits)

lemma announce_loop_time:
  "announce_loop B env args ts s = (r, s') \<Longrightarrow> r \<noteq> Hang \<and> ut_now s' \<le> ut_now s + from_secs (sum_list ts)"
proof (induction ts arbitrary: s)
  case (Cons t ts)
  obtain r1 s1 where one: "with_timeout None t (send_announce B env args) s = (r1, s1)" by (metis surj_pair)
  note t = with_timeout_None [OF in_time_send_announce one]
  have sum: "from_secs (sum_list (t # ts)) = from_secs t + from_secs (sum_list ts)" by (simp add: from_secs_def add_mult_distrib)
  show ?case
  proof (cases "\<exists>resp. r1 = Ok (Some (Ok resp))")
    case True
    then show ?thesis using Cons.prems one t sum by auto
  next
    case False
    then have "r1 = Ok x \<Longrightarrow> announce_loop B env args ts s1 = (r, s')" for x
      using Cons.prems one by (auto split: option.splits res.splits)
    then show ?thesis
      using Cons.IH [of s1] Cons.prems one t sum by (cases r1) fastforce+
  qed
qed auto

end

section \<open>One exchange\<close>

text \<open>The datagram of an announcement, field by field, and what the client makes of a reply.\<close>

definition announce_packet :: "u64 \<Rightarrow> u32 \<Rightarrow> announce_args \<Rightarrow> u32 \<Rightarrow> u16 \<Rightarrow> u8 list" where
  "announce_packet conn_id tx_id args key port =
     to_be 8 conn_id @ to_be 4 action_announce @ to_be 4 tx_id @ aa_info_hash args @ aa_peer_id args @
     to_be 8 (aa_downloaded args) @ to_be 8 (aa_left args) @ to_be 8 (aa_uploaded args) @
     to_be 4 (0 :: u32) @ to_be 4 (0 :: u32) @ to_be 4 key @ to_be 4 (- 1 :: u32) @ to_be 2 port"

definition announce_reply :: "u32 \<Rightarrow> u8 list \<Rightarrow> (socket_addr list \<times> u32) res" where
  "announce_reply tx_id v =
     (if length v < 20 \<or> from_be (take 4 (drop 4 v)) \<noteq> tx_id then Err (Anyhow ''ensure'')
      else if from_be (take 4 v) = action_announce then
        (if length v mod 6 = 2 then Ok (compact_peers (drop 20 v), from_be (take 4 (drop 16 v)))
         else Err (Anyhow ''ip/port bytes should be divisible by 6''))
      else if from_be (take 4 v) = action_error then
        (if utf8_valid (drop 8 v) then Err (Anyhow ''tracker returned error'') else Panic UnwrapFailed)
      else Err (Anyhow ''unexpected action''))"

text \<open>Before the time for the next announcement nothing is done.\<close>

lemma send_announce_early:
  "ut_now s < ut_next_announce s \<Longrightarrow>
   send_announce B env args deadline s = (Err (Anyhow ''announce interval has not passed yet''), s)"
  by (simp add: send_announce_def)

text \<open>Whether the send and the receive that come next end within the deadline.\<close>

definition exchange_ends :: "udp_env \<Rightarrow> nat option \<Rightarrow> nat \<Rightarrow> nat \<Rightarrow> u8 list \<Rightarrow> usize \<Rightarrow> u8 list \<Rightarrow> nat \<Rightarrow> bool" where
  "exchange_ends env deadline now tick packet n v later \<longleftrightarrow>
     (\<exists>k1 k2. ue_send env tick packet = (Some k1, Some n) \<and> ue_recv env (tick + 1) = (Some k2, Some v) \<and>
        later = now + k1 + k2 \<and> (case deadline of None \<Rightarrow> True | Some d \<Rightarrow> later \<le> d))"

lemma await_run:
  assumes "op (ut_tick s) = (Some k, Some a)" and "case deadline of None \<Rightarrow> True | Some d \<Rightarrow> ut_now s + k \<le> d"
  shows "await_op deadline op s = (Ok a, s\<lparr>ut_tick := ut_tick s + 1, ut_now := ut_now s + k\<rparr>)"
  using assms by (simp add: await_op_def Let_def split: option.splits)

lemma put_all_run [simp]: "put_all ws s = (Ok (), s\<lparr>ut_buf := fold (\<lambda>w. w) ws (ut_buf s)\<rparr>)"
  by (simp add: put_all_def)

lemma random_run [simp]: "random_u32 env s = (Ok (ue_random env (ut_tick s)), s\<lparr>ut_tick := ut_tick s + 1\<rparr>)"
  by (simp add: random_u32_def)

lemma on_buf_run: "m (ut_buf s) = (r, b) \<Longrightarrow> on_buf m s = (r, s\<lparr>ut_buf := b\<rparr>)"
  by (simp add: on_buf_def)

lemma bnd_gets: "bnd (gets f) g s = g (f s) s"
  by simp

text \<open>Reading the reply, from the check of its length on.\<close>

definition read_reply :: "'b buf_api \<Rightarrow> u32 \<Rightarrow> ('b udp_tracker, socket_addr list \<times> u32) prog" where
  "read_reply B tx_id =
     bnd (gets (\<lambda>s. length (buf_bytes B (ut_buf s)))) (\<lambda>len.
     bnd (ensure (len \<ge> 20) (Anyhow ''ensure'')) (\<lambda>_.
     bnd (on_buf (buf_get_u32 B)) (\<lambda>action.
     bnd (on_buf (buf_get_u32 B)) (\<lambda>id.
     bnd (ensure (tx_id = id) (Anyhow ''ensure'')) (\<lambda>_.
     bnd (validate_action B action_announce action) (\<lambda>_.
     bnd (on_buf (buf_get_u32 B)) (\<lambda>interval.
     bnd (modify (\<lambda>s. s\<lparr>ut_next_announce := ut_now s + from_secs (unat interval)\<rparr>)) (\<lambda>_.
     bnd (on_buf (buf_get_u32 B)) (\<lambda>leechers.
     bnd (on_buf (buf_get_u32 B)) (\<lambda>seeders.
     bnd (gets (\<lambda>s. length (buf_bytes B (ut_buf s)))) (\<lambda>len.
     bnd (ensure (len mod 6 = 0) (Anyhow ''ip/port bytes should be divisible by 6'')) (\<lambda>_.
     bnd (on_buf (read_peers B (len div 6))) (\<lambda>peers.
     ret (peers, seeders))))))))))))))"

context bytes_mut
begin

lemma on_buf_reads:
  "4 \<le> length (buf_bytes B (ut_buf s)) \<Longrightarrow>
     on_buf (buf_get_u32 B) s = (Ok (from_be (take 4 (buf_bytes B (ut_buf s)))), s\<lparr>ut_buf := skip B 4 (ut_buf s)\<rparr>)"
  "8 \<le> length (buf_bytes B (ut_buf s)) \<Longrightarrow>
     on_buf (buf_get_u64 B) s = (Ok (from_be (take 8 (buf_bytes B (ut_buf s)))), s\<lparr>ut_buf := skip B 8 (ut_buf s)\<rparr>)"
  "n \<le> length (buf_bytes B (ut_buf s)) \<Longrightarrow>
     on_buf (buf_copy_to_slice B n) s = (Ok (take n (buf_bytes B (ut_buf s))), s\<lparr>ut_buf := skip B n (ut_buf s)\<rparr>)"
  by (simp_all add: on_buf_run read_simps)

lemma validate_other:
  assumes "action \<noteq> action_announce"
  obtains b where "bnd (validate_action B action_announce action) f s =
    (if action = action_error then
       (if utf8_valid (buf_bytes B (ut_buf s)) then Err (Anyhow ''tracker returned error'') else Panic UnwrapFailed)
     else Err (Anyhow ''unexpected action''), s\<lparr>ut_buf := b\<rparr>)"
proof (cases "action = action_error")
  case True
  then show ?thesis
    using assms that [of "skip B (length (buf_bytes B (ut_buf s))) (ut_buf s)"]
    by (simp add: validate_action_def bnd_assoc on_buf_reads)
next
  case False
  then show ?thesis using assms that [of "ut_buf s"] by (simp add: validate_action_def)
qed

lemma read_reply_run:
  assumes v: "buf_bytes B (ut_buf s) = v" and run: "read_reply B tx_id s = (r, s')"
  shows "r = announce_reply tx_id v \<and> ut_sent s' = ut_sent s \<and> ut_now s' = ut_now s \<and>
    (\<forall>resp. r = Ok resp \<longrightarrow> ut_next_announce s' = ut_now s + from_secs (unat (from_be (take 4 (drop 8 v)) :: u32)))"
proof (cases "length v < 20 \<or> from_be (take 4 (drop 4 v)) \<noteq> tx_id")
  case True
  then show ?thesis
  proof (cases "length v < 20")
    case False
    with True have "from_be (take 4 (drop 4 v)) \<noteq> tx_id" by simp
    with False v run show ?thesis
      by (auto simp: read_reply_def announce_reply_def on_buf_reads read_simps)
  qed (use v run in \<open>auto simp: read_reply_def announce_reply_def\<close>)
next
  case False
  let ?a = "from_be (take 4 v) :: u32"
  let ?s = "s\<lparr>ut_buf := skip B 4 (skip B 4 (ut_buf s))\<rparr>"
  have len: "20 \<le> length v" and tx: "from_be (take 4 (drop 4 v)) = tx_id" using False by auto
  have view: "buf_bytes B (ut_buf ?s) = drop 8 v" using len v by (simp add: read_simps)
  define rest where "rest = bnd (on_buf (buf_get_u32 B)) (\<lambda>interval.
     bnd (modify (\<lambda>s. s\<lparr>ut_next_announce := ut_now s + from_secs (unat interval)\<rparr>)) (\<lambda>_.
     bnd (on_buf (buf_get_u32 B)) (\<lambda>leechers.
     bnd (on_buf (buf_get_u32 B)) (\<lambda>seeders.
     bnd (gets (\<lambda>s. length (buf_bytes B (ut_buf s)))) (\<lambda>len.
     bnd (ensure (len mod 6 = 0) (Anyhow ''ip/port bytes should be divisible by 6'')) (\<lambda>_.
     bnd (on_buf (read_peers B (len div 6))) (\<lambda>peers.
     ret (peers, seeders))))))))"
  have head: "read_reply B tx_id s = bnd (validate_action B action_announce ?a) (\<lambda>_. rest) ?s"
    using len tx v by (simp add: read_reply_def rest_def on_buf_reads read_simps)
  show ?thesis
  proof (cases "?a = action_announce")
    case other: False
    obtain b where "bnd (validate_action B action_announce ?a) (\<lambda>_. rest) ?s =
        (if ?a = action_error then
           (if utf8_valid (buf_bytes B (ut_buf ?s)) then Err (Anyhow ''tracker returned error'') else Panic UnwrapFailed)
         else Err (Anyhow ''unexpected action''), ?s\<lparr>ut_buf := b\<rparr>)"
      using validate_other [OF other] by blast
    then show ?thesis
      using run head view False other by (auto simp: announce_reply_def split: if_splits)
  next
    case True
    let ?t = "s\<lparr>ut_next_announce := ut_now s + from_secs (unat (from_be (take 4 (drop 8 v)) :: u32)),
        ut_buf := skip B 4 (skip B 4 (skip B 4 (ut_buf ?s)))\<rparr>"
    have tail: "buf_bytes B (ut_buf ?t) = drop 20 v" using len view by (simp add: read_simps)
    have mod: "(length v - 20) mod 6 = 0 \<longleftrightarrow> length v mod 6 = 2" using len by presburger
    have "bnd (validate_action B action_announce ?a) (\<lambda>_. rest) ?s = rest ?s"
      using True by (simp add: validate_action_def)
    also have "\<dots> = bnd (ensure ((length v - 20) mod 6 = 0) (Anyhow ''ip/port bytes should be divisible by 6'')) (\<lambda>_.
        bnd (on_buf (read_peers B ((length v - 20) div 6))) (\<lambda>peers. ret (peers, from_be (take 4 (drop 16 v))))) ?t"
      using len view by (simp add: rest_def on_buf_reads read_simps)
    finally have go: "read_reply B tx_id s = \<dots>" using head by simp
    show ?thesis
    proof (cases "length v mod 6 = 2")
      case no: False
      then show ?thesis using go run mod False True by (auto simp: announce_reply_def)
    next
      case yes: True
      then have "6 * ((length v - 20) div 6) = length v - 20" using mod by (simp add: dvd_mult_div_cancel dvd_eq_mod_eq_0)
      then obtain b' where "read_peers B ((length v - 20) div 6) (ut_buf ?t) = (Ok (compact_peers (drop 20 v)), b')"
        using read_peers_run [of "ut_buf ?t" "(length v - 20) div 6"] tail by auto
      then show ?thesis
        using go run mod False True yes by (auto simp: announce_reply_def on_buf_run)
    qed
  qed
qed

text \<open>A whole announcement whose connection id is fresh and whose exchange ends in time.\<close>

lemma send_announce_run:
  assumes tx_id_def: "tx_id = ue_random env (ut_tick s)" and ready: "ut_next_announce s \<le> ut_now s" "ut_now s - ut_conn_id_ts s \<le> from_secs 60"
    and addr: "ue_peer_addr env = Some a"
    and ends: "exchange_ends env deadline (ut_now s) (ut_tick s + 1)
        (announce_packet (ut_conn_id s) tx_id args (ut_key s) (snd a)) 98 v later"
    and run: "send_announce B env args deadline s = (r, s')"
  shows "r = announce_reply tx_id v \<and> ut_now s' = later \<and>
    ut_sent s' = ut_sent s @ [announce_packet (ut_conn_id s) tx_id args (ut_key s) (snd a)] \<and>
    (\<forall>resp. r = Ok resp \<longrightarrow> ut_next_announce s' = later + from_secs (unat (from_be (take 4 (drop 8 v)) :: u32)))"
proof -
  let ?p = "announce_packet (ut_conn_id s) tx_id args (ut_key s) (snd a)"
  obtain k1 k2 where k: "ue_send env (ut_tick s + 1) ?p = (Some k1, Some 98)" "ue_recv env (ut_tick s + 2) = (Some k2, Some v)"
    "later = ut_now s + k1 + k2" "case deadline of None \<Rightarrow> True | Some d \<Rightarrow> later \<le> d"
    using ends unfolding exchange_ends_def by auto
  define b1 where "b1 = fold (\<lambda>w. w) [buf_clear B, buf_put_u64 B (ut_conn_id s), buf_put_u32 B action_announce, buf_put_u32 B tx_id,
            buf_put B (aa_info_hash args), buf_put B (aa_peer_id args), buf_put_u64 B (aa_downloaded args),
            buf_put_u64 B (aa_left args), buf_put_u64 B (aa_uploaded args), buf_put_u32 B 0, buf_put_u32 B 0,
            buf_put_u32 B (ut_key s), buf_put_u32 B (- 1), buf_put_u16 B (snd a)] (ut_buf s)"
  have b1: "buf_bytes B b1 = ?p" by (simp add: b1_def announce_packet_def put_simps)
  define s1 where "s1 = s\<lparr>ut_tick := ut_tick s + 1, ut_buf := b1\<rparr>"
  define s2 where "s2 = s1\<lparr>ut_tick := ut_tick s + 2, ut_now := ut_now s + k1, ut_sent := ut_sent s @ [?p]\<rparr>"
  define s3 where "s3 = s2\<lparr>ut_buf := buf_put B v (buf_clear B b1), ut_tick := ut_tick s + 3, ut_now := later\<rparr>"
  have send: "socket_send env deadline ?p s1 = (Ok 98, s2)"
    unfolding socket_send_def
    by (subst bnd_Ok [OF await_run [where k = k1 and a = 98]])
      (use k in \<open>simp_all add: s1_def s2_def split: option.splits\<close>)
  have recv: "socket_recv_buf B env deadline (s2\<lparr>ut_buf := buf_clear B b1\<rparr>) = (Ok (), s3)"
    unfolding socket_recv_buf_def
    by (subst bnd_Ok [OF await_run [where k = k2 and a = v]])
      (use k in \<open>simp_all add: s1_def s2_def s3_def split: option.splits\<close>)
  have "send_announce B env args deadline s = read_reply B tx_id s3"
  proof -
    have put: "put_all [buf_clear B, buf_put_u64 B (ut_conn_id s), buf_put_u32 B action_announce, buf_put_u32 B tx_id,
            buf_put B (aa_info_hash args), buf_put B (aa_peer_id args), buf_put_u64 B (aa_downloaded args),
            buf_put_u64 B (aa_left args), buf_put_u64 B (aa_uploaded args), buf_put_u32 B 0, buf_put_u32 B 0,
            buf_put_u32 B (ut_key s), buf_put_u32 B (- 1), buf_put_u16 B (snd a)] (s\<lparr>ut_tick := Suc (ut_tick s)\<rparr>) = (Ok (), s1)"
      "put_all [buf_clear B] s2 = (Ok (), s2\<lparr>ut_buf := buf_clear B b1\<rparr>)" "buf_bytes B (ut_buf s1) = ?p"
      using b1 by (simp_all add: s1_def s2_def b1_def)
    show ?thesis
      using ready addr send recv
      by (simp add: send_announce_def read_reply_def bnd_gets tx_id_def [symmetric] put del: put_all_run)
  qed
  moreover have "buf_bytes B (ut_buf s3) = v" by (simp add: s3_def put_simps)
  ultimately have "r = announce_reply tx_id v \<and> ut_sent s' = ut_sent s3 \<and> ut_now s' = ut_now s3 \<and>
    (\<forall>resp. r = Ok resp \<longrightarrow> ut_next_announce s' = ut_now s3 + from_secs (unat (from_be (take 4 (drop 8 v)) :: u32)))"
    using read_reply_run [of s3 v tx_id r s'] run by simp
  moreover have "ut_sent s3 = ut_sent s @ [?p]" "ut_now s3 = later" by (simp_all add: s2_def s3_def)
  ultimately show ?thesis by simp
qed

end

context bytes_mut
begin

text \<open>A connection request that is answered properly and in time.\<close>

lemma get_conn_id_run:
  assumes tx_id: "tx_id = ue_random env (ut_tick s)"
    and p: "p = to_be 8 protocol_id @ to_be 4 action_connect @ to_be 4 tx_id"
    and ends: "exchange_ends env deadline (ut_now s) (ut_tick s + 1) p 16 v later"
    and v: "length v = 16" "from_be (take 4 v) = action_connect" "from_be (take 4 (drop 4 v)) = tx_id"
  shows "\<exists>b. get_conn_id B env deadline s = (Ok (), s\<lparr>ut_sent := ut_sent s @ [p],
    ut_tick := Suc (Suc (Suc (ut_tick s))), ut_now := later, ut_buf := b, ut_conn_id := from_be (drop 8 v), ut_conn_id_ts := later\<rparr>)"
proof -
  obtain k1 k2 where k: "ue_send env (Suc (ut_tick s)) p = (Some k1, Some 16)"
    "ue_recv env (Suc (Suc (ut_tick s))) = (Some k2, Some v)"
    "later = ut_now s + k1 + k2" "case deadline of None \<Rightarrow> True | Some d \<Rightarrow> later \<le> d"
    using ends unfolding exchange_ends_def by auto
  define b0 where "b0 = buf_put_u32 B action_connect (buf_put_u64 B protocol_id (buf_clear B (ut_buf s)))"
  define b1 where "b1 = buf_put_u32 B tx_id b0"
  have b1: "buf_bytes B b1 = p" by (simp add: b0_def b1_def p put_simps)
  have len: "length p = 16" by (simp add: p)
  define s1 where "s1 = s\<lparr>ut_tick := Suc (ut_tick s), ut_buf := b1\<rparr>"
  define s2 where "s2 = s1\<lparr>ut_tick := Suc (Suc (ut_tick s)), ut_now := ut_now s + k1, ut_sent := ut_sent s @ [p]\<rparr>"
  define b2 where "b2 = buf_put B v (buf_clear B b1)"
  define s3 where "s3 = s2\<lparr>ut_buf := b2, ut_tick := Suc (Suc (Suc (ut_tick s))), ut_now := later\<rparr>"
  have send: "socket_send env deadline p s1 = (Ok 16, s2)"
    unfolding socket_send_def
    by (subst bnd_Ok [OF await_run [where k = k1 and a = 16]])
      (use k in \<open>simp_all add: s1_def s2_def split: option.splits\<close>)
  have recv: "socket_recv_buf B env deadline (s2\<lparr>ut_buf := buf_clear B b1\<rparr>) = (Ok (), s3)"
    unfolding socket_recv_buf_def
    by (subst bnd_Ok [OF await_run [where k = k2 and a = v]])
      (use k in \<open>simp_all add: s1_def s2_def s3_def b2_def split: option.splits\<close>)
  have put: "put_all [buf_clear B, buf_put_u64 B protocol_id, buf_put_u32 B action_connect] s = (Ok (), s\<lparr>ut_buf := b0\<rparr>)"
    "put_all [buf_put_u32 B tx_id] (s\<lparr>ut_buf := b0, ut_tick := Suc (ut_tick s)\<rparr>) = (Ok (), s1)"
    "put_all [buf_clear B] s2 = (Ok (), s2\<lparr>ut_buf := buf_clear B b1\<rparr>)"
    "buf_bytes B (ut_buf s1) = p" "buf_bytes B (ut_buf s2) = p" "ut_tick (s\<lparr>ut_buf := b0\<rparr>) = ut_tick s"
    using b1 by (simp_all add: s1_def s2_def b0_def b1_def)
  have view: "ut_buf s3 = b2" "buf_bytes B b2 = v" by (simp_all add: s3_def b2_def put_simps)
  have "get_conn_id B env deadline s = bnd (on_buf (buf_get_u32 B)) (\<lambda>action.
     bnd (on_buf (buf_get_u32 B)) (\<lambda>id.
     bnd (ensure (tx_id = id) (Anyhow ''ensure'')) (\<lambda>_.
     bnd (validate_action B action_connect action) (\<lambda>_.
     bnd (on_buf (buf_get_u64 B)) (\<lambda>conn_id.
     modify (\<lambda>s. s\<lparr>ut_conn_id := conn_id, ut_conn_id_ts := ut_now s\<rparr>)))))) s3"
    using send recv v(1) view
    by (simp add: get_conn_id_def bnd_gets tx_id [symmetric] put len del: put_all_run)
  then show ?thesis
    using v view
    by (auto simp: on_buf_reads read_simps validate_action_def s3_def s2_def s1_def)
qed

end

section \<open>Properties\<close>

text \<open>
  C31. One announcement. With a connection id that is not stale and an exchange that ends before the
  deadline, \<open>send_announce\<close> sends the one datagram of the protocol, with the port of the tracker's
  own address in the field for the port of the client, and its outcome is a function of the
  reply: the peers and the number of seeders, or an error for a short reply, a wrong transaction,
  another action or a broken list, or a panic for an error message that is not UTF-8. After a
  success the interval the tracker named has to pass: until then every further announcement
  fails at once, and sends nothing.
\<close>

theorem announce_exchange:
  assumes "bytes_mut B" and "tx_id = ue_random env (ut_tick s)"
    and "ut_next_announce s \<le> ut_now s" and "ut_now s - ut_conn_id_ts s \<le> from_secs 60"
    and "ue_peer_addr env = Some a"
    and "packet = announce_packet (ut_conn_id s) tx_id args (ut_key s) (snd a)"
    and "exchange_ends env deadline (ut_now s) (ut_tick s + 1) packet 98 v later"
    and "send_announce B env args deadline s = (r, s')"
  shows "r = announce_reply tx_id v \<and> ut_now s' = later \<and> ut_sent s' = ut_sent s @ [packet] \<and>
    (\<forall>resp. r = Ok resp \<longrightarrow>
      ut_next_announce s' = later + from_secs (unat (from_be (take 4 (drop 8 v)) :: u32)) \<and>
      (\<forall>now < ut_next_announce s'. send_announce B env' args' deadline' (s'\<lparr>ut_now := now\<rparr>) =
         (Err (Anyhow ''announce interval has not passed yet''), s'\<lparr>ut_now := now\<rparr>)))"
proof -
  have early: "send_announce B env' args' deadline' (s'\<lparr>ut_now := now\<rparr>) =
      (Err (Anyhow ''announce interval has not passed yet''), s'\<lparr>ut_now := now\<rparr>)" if "now < ut_next_announce s'" for now
    using that by (intro send_announce_early) simp
  show ?thesis
    using bytes_mut.send_announce_run [OF assms(1-5) assms(7) [unfolded assms(6)] assms(8)] assms(6) early by simp
qed

definition demo_udp_env :: "u8 list \<Rightarrow> udp_env" where
  "demo_udp_env v = \<lparr>ue_random = (\<lambda>t. 5), ue_send = (\<lambda>t p. (Some 1, Some (length p))),
     ue_recv = (\<lambda>t. (Some 1, Some v)), ue_peer_addr = Some (0x01020304, 6969)\<rparr>"

definition demo_reply :: "u8 list" where
  "demo_reply = [0, 0, 0, 1, 0, 0, 0, 5, 0, 0, 0, 60, 0, 0, 0, 2, 0, 0, 0, 7, 127, 0, 0, 1, 26, 225]"

definition demo_args :: announce_args where
  "demo_args = \<lparr>aa_info_hash = replicate 20 1, aa_peer_id = replicate 20 2, aa_downloaded = 0, aa_left = 3, aa_uploaded = 0\<rparr>"

lemma demo_packet: "length (announce_packet conn tx demo_args key port) = 98"
  by (simp add: announce_packet_def demo_args_def)

lemma demo_reply_read: "announce_reply 5 demo_reply = Ok ([(0x7F000001, 6881)], 7)"
proof -
  have "compact_peers [127, 0, 0, 1, 26, 225] = [(0x7F000001, 6881)]"
    by (simp add: compact_peers_def chunks_exact.simps peer_of_bytes_def from_be_def)
  then show ?thesis
    by (simp add: announce_reply_def demo_reply_def from_be_def action_announce_def)
qed

lemma demo_exchange:
  assumes "case deadline of None \<Rightarrow> True | Some d \<Rightarrow> now + 2 \<le> d"
  shows "exchange_ends (demo_udp_env v) deadline now tick (announce_packet conn tx demo_args key port) 98 v (now + 2)"
  using assms by (simp add: exchange_ends_def demo_udp_env_def demo_packet split: option.splits)

theorem announce_exchange_witness:
  "\<exists>s'. send_announce vec_buf (demo_udp_env demo_reply) demo_args None (new_tracker [] 9 0) =
      (Ok ([(0x7F000001, 6881)], 7), s') \<and>
    fst (send_announce vec_buf (demo_udp_env demo_reply) demo_args None (s'\<lparr>ut_now := from_secs 60\<rparr>)) =
      Err (Anyhow ''announce interval has not passed yet'')"
proof -
  obtain r s' where run: "send_announce vec_buf (demo_udp_env demo_reply) demo_args None (new_tracker [] 9 0) = (r, s')"
    by (metis surj_pair)
  let ?s = "new_tracker [] 9 0 :: u8 list udp_tracker"
  have ends: "exchange_ends (demo_udp_env demo_reply) None (ut_now ?s) (ut_tick ?s + 1)
      (announce_packet (ut_conn_id ?s) 5 demo_args (ut_key ?s) 6969) 98 demo_reply 2"
    using demo_exchange [of 0 None demo_reply 1 0 5 9 6969] by (simp add: new_tracker_def eval_nat_numeral)
  have "r = announce_reply 5 demo_reply \<and> (\<forall>resp. r = Ok resp \<longrightarrow>
      ut_next_announce s' = 2 + from_secs (unat (from_be (take 4 (drop 8 demo_reply)) :: u32)) \<and>
      (\<forall>now < ut_next_announce s'. send_announce vec_buf (demo_udp_env demo_reply) demo_args None (s'\<lparr>ut_now := now\<rparr>) =
         (Err (Anyhow ''announce interval has not passed yet''), s'\<lparr>ut_now := now\<rparr>)))"
    using announce_exchange [where env' = "demo_udp_env demo_reply" and args' = demo_args and deadline' = None
        and a = "(0x01020304, 6969)" and tx_id = 5, OF vec.bytes_mut_axioms _ _ _ _ _ ends run]
    by (simp add: new_tracker_def demo_udp_env_def)
  moreover have "unat (from_be (take 4 (drop 8 demo_reply)) :: u32) = 60" by (simp add: demo_reply_def from_be_def)
  ultimately show ?thesis using run by (simp add: demo_reply_read)
qed

text \<open>
  C32. Announcing takes bounded time: whatever the tracker, the network and the random numbers do,
  \<open>announce\<close> ends after at most 165 seconds with a response, an error or a panic.
\<close>

theorem udp_announce_bounded:
  assumes "bytes_mut B" and "udp_announce B env args s = (r, s')"
  shows "r \<noteq> Hang \<and> ut_now s' \<le> ut_now s + from_secs 165"
  using bytes_mut.announce_loop_time [OF assms(1), of env args retry_timeout s r s'] assms(2)
  by (simp add: udp_announce_def retry_timeout_def)

theorem udp_announce_bounded_witness:
  "ut_now (snd (udp_announce vec_buf ((demo_udp_env [])\<lparr>ue_recv := (\<lambda>t. (None, None))\<rparr>) demo_args (new_tracker [] 9 0)))
     \<le> from_secs 165"
  using udp_announce_bounded [OF vec.bytes_mut_axioms surjective_pairing [of "udp_announce vec_buf
      ((demo_udp_env [])\<lparr>ue_recv := (\<lambda>t. (None, None))\<rparr>) demo_args (new_tracker [] 9 0)"]]
  by (simp add: new_tracker_def)

end
