(* ===== verification/Http.thy ===== *)
theory Http
  imports Peers Decimal
begin

text \<open>
  The client of an HTTP tracker, \<open>src/tracker/http.rs\<close>. Strings are their UTF-8 bytes. The crates
  \<open>url\<close> (with its form serializer), \<open>hex\<close>, \<open>reqwest\<close> and \<open>serde_bencode\<close> are parameters, collected
  in \<open>http_env\<close>.
\<close>

section \<open>The code\<close>

datatype event =
    Started
  | Completed
  | Stopped
  | Empty

definition event_string :: "event \<Rightarrow> u8 list" where
  "event_string e =
     (case e of
        Started \<Rightarrow> ascii_bytes ''started''
      | Completed \<Rightarrow> ascii_bytes ''completed''
      | Stopped \<Rightarrow> ascii_bytes ''stopped''
      | Empty \<Rightarrow> ascii_bytes ''empty'')"

record discover_request =
  dr_info_hash :: "u8 list"
  dr_peer_id :: "u8 list"
  dr_ip :: "u8 list option"
  dr_port :: u16
  dr_uploaded :: u64
  dr_downloaded :: u64
  dr_left :: u64
  dr_event :: "event option"
  dr_compact :: "bool option"

datatype tracker_response =
    Failure "u8 list"
  | Success usize "peer list"

record http_tracker =
  ht_url :: "u8 list"

definition new_http_tracker :: "u8 list \<Rightarrow> http_tracker" where
  "new_http_tracker url = \<lparr>ht_url = url\<rparr>"

record 'u http_env =
  he_append_pair :: "u8 list \<Rightarrow> u8 list \<Rightarrow> u8 list \<Rightarrow> u8 list"
  he_hex :: "u8 list \<Rightarrow> usize \<Rightarrow> u8 list res"
  he_parse_url :: "u8 list \<Rightarrow> 'u res"
  he_set_query :: "u8 list \<Rightarrow> 'u \<Rightarrow> 'u"
  he_get :: "'u \<Rightarrow> u8 list res"
  he_from_bytes :: "u8 list \<Rightarrow> tracker_response res"

definition new_request :: "u8 list \<Rightarrow> u8 list \<Rightarrow> u64 \<Rightarrow> discover_request" where
  "new_request info_hash ident left =
     \<lparr>dr_info_hash = info_hash, dr_peer_id = ident, dr_ip = None, dr_port = 6881, dr_uploaded = 0,
      dr_downloaded = 0, dr_left = left, dr_event = Some Started, dr_compact = Some True\<rparr>"

definition url_encode :: "'u http_env \<Rightarrow> discover_request \<Rightarrow> u8 list" where
  "url_encode env req =
     (let pairs = [(ascii_bytes ''peer_id'', dr_peer_id req), (ascii_bytes ''port'', dec (unat (dr_port req))),
            (ascii_bytes ''uploaded'', dec (unat (dr_uploaded req))),
            (ascii_bytes ''downloaded'', dec (unat (dr_downloaded req))),
            (ascii_bytes ''left'', dec (unat (dr_left req)))];
          ser1 = foldl (\<lambda>ser (name, value). he_append_pair env ser name value) [] pairs;
          ser2 = (case dr_ip req of None \<Rightarrow> ser1 | Some ip \<Rightarrow> he_append_pair env ser1 (ascii_bytes ''ip'') ip);
          ser3 = (case dr_event req of None \<Rightarrow> ser2
                  | Some e \<Rightarrow> he_append_pair env ser2 (ascii_bytes ''event'') (event_string e))
      in if (case dr_compact req of None \<Rightarrow> False | Some c \<Rightarrow> c)
         then he_append_pair env ser3 (ascii_bytes ''compact'') (ascii_bytes ''1'') else ser3)"

text \<open>
  \<open>url_encode_bytes\<close>: byte \<open>i\<close> fills positions \<open>3 * i\<close> to \<open>3 * i + 2\<close> of a vector of zeros; a
  position outside of it would panic.
\<close>

primrec url_bytes_loop :: "(u8 list \<Rightarrow> usize \<Rightarrow> u8 list res) \<Rightarrow> usize \<Rightarrow> u8 list \<Rightarrow> u8 list \<Rightarrow> u8 list res" where
  "url_bytes_loop hex i [] v = Ok v"
| "url_bytes_loop hex i (b # bs) v =
     (let idx = i * 3 in
      if idx < length v \<and> idx + 1 + 2 \<le> length v then
        and_then (hex [b] 2) (\<lambda>digits.
        url_bytes_loop hex (i + 1) bs (take idx v @ [37] @ digits @ drop (idx + 1 + 2) v))
      else Panic OutOfBounds)"

definition url_encode_bytes :: "(u8 list \<Rightarrow> usize \<Rightarrow> u8 list res) \<Rightarrow> u8 list \<Rightarrow> u8 list res" where
  "url_encode_bytes hex bytes =
     and_then (usize_mul 3 (length bytes)) (\<lambda>n.
     and_then (url_bytes_loop hex 0 bytes (replicate n 0)) (\<lambda>v.
     if utf8_valid v then Ok v else Err Utf8Invalid))"

definition build_url :: "'u http_env \<Rightarrow> http_tracker \<Rightarrow> discover_request \<Rightarrow> 'u res" where
  "build_url env self req =
     and_then (he_parse_url env (ht_url self)) (\<lambda>url.
     and_then (url_encode_bytes (he_hex env) (dr_info_hash req)) (\<lambda>encoded.
     let query_params = ascii_bytes ''info_hash='' @ encoded @ ascii_bytes ''&'' @ url_encode env req in
     Ok (he_set_query env query_params url)))"

definition discover :: "'u http_env \<Rightarrow> http_tracker \<Rightarrow> discover_request \<Rightarrow> peer list res" where
  "discover env self req =
     and_then (build_url env self req) (\<lambda>url.
     and_then (he_get env url) (\<lambda>resp.
     and_then (he_from_bytes env resp) (\<lambda>r.
     case r of
       Failure reason \<Rightarrow> Err (Anyhow ''tracker returned failure response'')
     | Success interval peers \<Rightarrow> Ok peers)))"

section \<open>Percent encoding\<close>

text \<open>
  What the documentation of the \<open>hex\<close> crate promises: a byte becomes two lower-case digits. And
  the decoding that a tracker performs.
\<close>

definition hex_digit :: "u8 \<Rightarrow> u8" where
  "hex_digit d = (if d < 10 then 48 + d else 87 + d)"

definition hex_spec :: "(u8 list \<Rightarrow> usize \<Rightarrow> u8 list res) \<Rightarrow> bool" where
  "hex_spec hex \<longleftrightarrow> (\<forall>b. hex [b] 2 = Ok [hex_digit (drop_bit 4 b), hex_digit (b AND 15)])"

definition hex_value :: "u8 \<Rightarrow> u8 option" where
  "hex_value c =
     (if 48 \<le> c \<and> c \<le> 57 then Some (c - 48)
      else if 97 \<le> c \<and> c \<le> 102 then Some (c - 87)
      else if 65 \<le> c \<and> c \<le> 70 then Some (c - 55)
      else None)"

fun percent_decode :: "u8 list \<Rightarrow> u8 list option" where
  "percent_decode [] = Some []"
| "percent_decode (c # h # l # rest) =
     (if c = 37 then
        (case (hex_value h, hex_value l) of
           (Some x, Some y) \<Rightarrow> map_option (\<lambda>bs. (push_bit 4 x OR y) # bs) (percent_decode rest)
         | _ \<Rightarrow> None)
      else None)"
| "percent_decode (c # rest) = None"

definition percent_bytes :: "u8 \<Rightarrow> u8 list" where
  "percent_bytes b = [37, hex_digit (drop_bit 4 b), hex_digit (b AND 15)]"

lemma url_bytes_loop_run:
  assumes "hex_spec hex"
  shows "length done_bytes = 3 * i \<Longrightarrow>
    url_bytes_loop hex i bs (done_bytes @ replicate (3 * length bs) 0) = Ok (done_bytes @ concat (map percent_bytes bs))"
proof (induction bs arbitrary: i done_bytes)
  case (Cons b bs)
  have rep: "replicate (3 * length (b # bs)) (0 :: u8) = [0, 0, 0] @ replicate (3 * length bs) 0"
    by (simp add: numeral_eq_Suc)
  have "url_bytes_loop hex (i + 1) bs ((done_bytes @ percent_bytes b) @ replicate (3 * length bs) 0) =
      Ok ((done_bytes @ percent_bytes b) @ concat (map percent_bytes bs))"
    by (rule Cons.IH) (simp add: Cons.prems percent_bytes_def)
  then show ?case
    using assms Cons.prems unfolding rep hex_spec_def
    by (simp add: Let_def percent_bytes_def [of b] mult.commute)
qed simp

lemma nibble: "drop_bit 4 b < (16 :: u8)" "b AND 15 < (16 :: u8)"
proof -
  have "unat b < 256" using unat_u8_lt [of b] by simp
  then show "drop_bit 4 b < (16 :: u8)"
    unfolding word_less_nat_alt unat_drop_bit_eq by (simp add: drop_bit_eq_div less_mult_imp_div_less)
  have "b AND 15 = take_bit 4 b" by (simp add: take_bit_eq_mask mask_eq_exp_minus_1)
  then show "b AND 15 < (16 :: u8)" by (simp add: word_less_nat_alt take_bit_eq_mod unat_mod)
qed

lemma hex_digits_table:
  "list_all (\<lambda>n. hex_value (hex_digit (of_nat n)) = Some (of_nat n) \<and> hex_digit (of_nat n) < 0x80) [0..<16]"
  by code_simp

lemma hex_digit_props:
  assumes "d < 16"
  shows hex_value_digit: "hex_value (hex_digit d) = Some d" and hex_digit_ascii: "hex_digit d < 0x80"
proof -
  have "unat d < 16" using assms by (simp add: word_less_nat_alt)
  then show "hex_value (hex_digit d) = Some d" "hex_digit d < 0x80"
    using hex_digits_table unfolding list_all_iff by (auto dest!: bspec [of _ _ "unat d"])
qed

lemma nibbles: "push_bit 4 (drop_bit 4 b) OR (b AND 15) = (b :: u8)"
proof -
  have "b AND 15 = take_bit 4 b" by (simp add: take_bit_eq_mask mask_eq_exp_minus_1)
  then show ?thesis by (auto intro!: bit_word_eqI simp: bit_simps)
qed

lemma percent_decode_bytes: "percent_decode (concat (map percent_bytes bs)) = Some bs"
  by (induction bs) (simp_all add: percent_bytes_def hex_value_digit nibble nibbles)

lemma percent_valid: "utf8_valid (concat (map percent_bytes bs))"
proof (rule utf8_valid_ascii)
  show "\<forall>c \<in> set (concat (map percent_bytes bs)). c < 0x80"
    using hex_digit_ascii nibble by (auto simp: percent_bytes_def)
qed

section \<open>Properties\<close>

text \<open>
  Encoding the info hash for a URL never fails and loses nothing: three characters per byte, a
  percent sign and two hexadecimal digits, which a tracker decodes to the bytes.
\<close>

theorem url_encode_bytes_roundtrip:
  assumes "hex_spec hex" and "3 * length bytes < 2 ^ 64"
  shows "\<exists>s. url_encode_bytes hex bytes = Ok s \<and> length s = 3 * length bytes \<and> percent_decode s = Some bytes"
proof -
  let ?s = "concat (map percent_bytes bytes)"
  have "url_bytes_loop hex 0 bytes (replicate (3 * length bytes) 0) = Ok ?s"
    using url_bytes_loop_run [OF assms(1), of "[]" 0 bytes] by simp
  then have "url_encode_bytes hex bytes = Ok ?s"
    using assms(2) percent_valid [of bytes] by (simp add: url_encode_bytes_def usize_mul_def)
  moreover have "length ?s = 3 * length bytes" by (induction bytes) (simp_all add: percent_bytes_def)
  ultimately show ?thesis using percent_decode_bytes [of bytes] by blast
qed

definition demo_hex :: "u8 list \<Rightarrow> usize \<Rightarrow> u8 list res" where
  "demo_hex v n = (if n = 2 * length v then Ok (concat (map (\<lambda>b. [hex_digit (drop_bit 4 b), hex_digit (b AND 15)]) v))
     else Err InvalidData)"

theorem url_encode_bytes_roundtrip_witness: "\<exists>s. url_encode_bytes demo_hex [0, 255] = Ok s \<and> percent_decode s = Some [0, 255]"
proof -
  have "hex_spec demo_hex" by (simp add: hex_spec_def demo_hex_def)
  from url_encode_bytes_roundtrip [OF this, of "[0, 255]"] show ?thesis by auto
qed

end
