(* ===== verification/FileWrite.thy ===== *)
theory FileWrite
  imports MetaInfo "HOL-Library.Sublist"
begin

text \<open>
  Writing the content to disk, \<open>src/file/mod.rs\<close>. The state is the log of operations performed on
  the file system; whether the next operation succeeds is a parameter. A path is a string as on
  Unix; \<open>push_path\<close>, \<open>join_path\<close> and \<open>parent_path\<close> are those of the standard library, the parent
  spelled without repeated separators.
\<close>

section \<open>Paths\<close>

definition is_absolute :: "string \<Rightarrow> bool" where
  "is_absolute p \<longleftrightarrow> (case p of [] \<Rightarrow> False | c # cs \<Rightarrow> c = CHR ''/'')"

definition push_path :: "string \<Rightarrow> string \<Rightarrow> string" where
  "push_path buf p =
     (if is_absolute p then p
      else if buf = [] \<or> last buf = CHR ''/'' then buf @ p
      else buf @ ''/'' @ p)"

definition join_path :: "string \<Rightarrow> string \<Rightarrow> string" where
  "join_path dir p = push_path dir p"

definition make_file_path :: "string list \<Rightarrow> string" where
  "make_file_path parts = foldl push_path [] parts"

text \<open>The components of a path: separators are not repeated, \<open>.\<close> counts at the start only.\<close>

fun split_path :: "string \<Rightarrow> string \<Rightarrow> string list" where
  "split_path acc [] = [rev acc]"
| "split_path acc (c # cs) = (if c = CHR ''/'' then rev acc # split_path [] cs else split_path (c # acc) cs)"

definition path_components :: "string \<Rightarrow> string list" where
  "path_components p =
     (case split_path [] p of [] \<Rightarrow> []
      | c # cs \<Rightarrow> (if c = [] then [] else [c]) @ filter (\<lambda>c. c \<noteq> [] \<and> c \<noteq> ''.'') cs)"

fun join_components :: "string list \<Rightarrow> string" where
  "join_components [] = []"
| "join_components [c] = c"
| "join_components (c # d # cs) = c @ ''/'' @ join_components (d # cs)"

definition parent_path :: "string \<Rightarrow> string option" where
  "parent_path p =
     (let cs = path_components p in
      if cs = [] then None
      else Some ((if is_absolute p then ''/'' else []) @ join_components (butlast cs)))"

text \<open>
  Where a path leads, from a working directory, when no symbolic links are followed: component by
  component, \<open>..\<close> to the parent, which the root does not have.
\<close>

definition descend :: "string list \<Rightarrow> string \<Rightarrow> string list" where
  "descend dir c = (if c = ''.'' then dir else if c = ''..'' then butlast dir else dir @ [c])"

definition locate :: "string list \<Rightarrow> string \<Rightarrow> string list" where
  "locate cwd p = foldl descend (if is_absolute p then [] else cwd) (path_components p)"

lemma split_path_append: "split_path acc (a @ ''/'' @ b) = split_path acc a @ split_path [] b"
  by (induction acc a rule: split_path.induct) auto

lemma split_path_nonempty: "split_path acc p \<noteq> []"
  by (induction acc p rule: split_path.induct) auto

text \<open>For where a path leads only the names in it matter, not how they are separated.\<close>

definition path_names :: "string \<Rightarrow> string list" where
  "path_names p = filter (\<lambda>c. c \<noteq> [] \<and> c \<noteq> ''.'') (split_path [] p)"

lemma foldl_descend_components: "foldl descend dir (path_components p) = foldl descend dir (path_names p)"
  by (cases "split_path [] p") (auto simp: path_components_def path_names_def descend_def)

lemma path_names_append: "path_names (a @ ''/'' @ b) = path_names a @ path_names b"
  unfolding path_names_def split_path_append by simp

lemma path_names_push: "\<not> is_absolute p \<Longrightarrow> path_names (push_path buf p) = path_names buf @ path_names p"
proof (cases "buf = []")
  case False
  assume p: "\<not> is_absolute p"
  show ?thesis
  proof (cases "last buf = CHR ''/''")
    case True
    then have buf: "buf = butlast buf @ ''/'' @ []" using False append_butlast_last_id [of buf] by simp
    have "path_names (buf @ p) = path_names (butlast buf @ ''/'' @ p)"
      by (subst buf) (simp del: append_butlast_last_id)
    also have "\<dots> = path_names (butlast buf) @ path_names p" by (rule path_names_append)
    also have "path_names (butlast buf) = path_names buf"
      by (subst (2) buf, subst path_names_append) (simp add: path_names_def)
    finally show ?thesis using True p by (simp add: push_path_def)
  next
    case other: False
    with False p have "push_path buf p = buf @ ''/'' @ p" by (simp add: push_path_def)
    then show ?thesis by (simp only: path_names_append)
  qed
qed (simp add: push_path_def path_names_def)

lemma path_names_push_all:
  "\<forall>p \<in> set parts. \<not> is_absolute p \<Longrightarrow>
   path_names (foldl push_path buf parts) = path_names buf @ concat (map path_names parts)"
  by (induction parts arbitrary: buf) (simp_all add: path_names_push)

lemma foldl_descend_below:
  "''..'' \<notin> set names \<Longrightarrow> \<exists>rest. foldl descend dir names = dir @ rest"
proof (induction names arbitrary: dir)
  case (Cons c names)
  then obtain rest where "foldl descend (descend dir c) names = descend dir c @ rest" by force
  moreover have "descend dir c = dir @ (if c = ''.'' then [] else [c])" using Cons.prems by (auto simp: descend_def)
  ultimately show ?case by simp
qed simp

section \<open>Writing\<close>

datatype fs_op =
    CreateDirAll string
  | WriteFile string "u8 list"

type_synonym fs_env = "fs_op list \<Rightarrow> fs_op \<Rightarrow> bool"

definition fs_do :: "fs_env \<Rightarrow> fs_op \<Rightarrow> (fs_op list, unit) prog" where
  "fs_do fs_ok op = (\<lambda>ops. if fs_ok ops op then (Ok (), ops @ [op]) else (Err IoFailed, ops))"

text \<open>The slice \<open>&bytes[lo..hi]\<close>.\<close>

definition slice :: "usize \<Rightarrow> usize \<Rightarrow> 'a list \<Rightarrow> 'a list res" where
  "slice lo hi v = (if lo \<le> hi \<and> hi \<le> length v then Ok (take (hi - lo) (drop lo v)) else Panic OutOfBounds)"

primrec write_files :: "fs_env \<Rightarrow> string \<Rightarrow> u8 list \<Rightarrow> usize \<Rightarrow> torrent_file list \<Rightarrow> (fs_op list, unit) prog" where
  "write_files fs_ok output_dir bytes idx [] = ret ()"
| "write_files fs_ok output_dir bytes idx (f # files) =
     (let path = join_path output_dir (make_file_path (tf_path f)) in
      bnd (case parent_path path of None \<Rightarrow> ret () | Some parent \<Rightarrow> fs_do fs_ok (CreateDirAll parent)) (\<lambda>_.
      bnd (lift (usize_add idx (unat (tf_length f)))) (\<lambda>new_idx.
      bnd (lift (slice idx new_idx bytes)) (\<lambda>part.
      bnd (fs_do fs_ok (WriteFile path part)) (\<lambda>_.
      write_files fs_ok output_dir bytes new_idx files)))))"

definition write_output :: "fs_env \<Rightarrow> string \<Rightarrow> download_type \<Rightarrow> u8 list \<Rightarrow> (fs_op list, unit) prog" where
  "write_output fs_ok output dl_type bytes =
     (case dl_type of
        SingleFile len \<Rightarrow> fs_do fs_ok (WriteFile output bytes)
      | MultiFile files \<Rightarrow> write_files fs_ok output bytes 0 files)"

section \<open>What is written\<close>

text \<open>The files written by a log, in order, and the content as a list of files.\<close>

fun written :: "fs_op list \<Rightarrow> (string \<times> u8 list) list" where
  "written [] = []"
| "written (CreateDirAll d # ops) = written ops"
| "written (WriteFile p bs # ops) = (p, bs) # written ops"

primrec split_files :: "torrent_file list \<Rightarrow> u8 list \<Rightarrow> u8 list list" where
  "split_files [] bytes = []"
| "split_files (f # files) bytes = take (unat (tf_length f)) bytes # split_files files (drop (unat (tf_length f)) bytes)"

definition file_path_of :: "string \<Rightarrow> torrent_file \<Rightarrow> string" where
  "file_path_of output f = join_path output (make_file_path (tf_path f))"

definition file_sizes :: "torrent_file list \<Rightarrow> nat" where
  "file_sizes files = sum_list (map (\<lambda>f. unat (tf_length f)) files)"

lemma written_append [simp]: "written (a @ b) = written a @ written b"
  by (induction a rule: written.induct) auto

lemma length_split_files [simp]: "length (split_files files bytes) = length files"
  by (induction files arbitrary: bytes) auto

lemma concat_split_files: "file_sizes files = length bytes \<Longrightarrow> concat (split_files files bytes) = bytes"
  by (induction files arbitrary: bytes) (simp_all add: file_sizes_def)

lemma fs_do_up [simp]: "(\<And>ops op. fs_ok ops op) \<Longrightarrow> fs_do fs_ok op ops = (Ok (), ops @ [op])"
  by (simp add: fs_do_def)

lemma write_file_step:
  assumes "\<And>ops op. fs_ok ops op"
  shows "\<exists>dirs. written dirs = [] \<and>
    write_files fs_ok dir bytes idx (f # files) ops =
      (if idx + unat (tf_length f) < 2 ^ 64 \<and> idx + unat (tf_length f) \<le> length bytes
       then write_files fs_ok dir bytes (idx + unat (tf_length f)) files
          (ops @ dirs @ [WriteFile (file_path_of dir f) (take (unat (tf_length f)) (drop idx bytes))])
       else (Panic (if idx + unat (tf_length f) < 2 ^ 64 then OutOfBounds else ArithOverflow), ops @ dirs))"
proof -
  let ?p = "file_path_of dir f"
  define dirs where "dirs = (case parent_path ?p of None \<Rightarrow> [] | Some d \<Rightarrow> [CreateDirAll d])"
  have "(case parent_path ?p of None \<Rightarrow> ret () | Some parent \<Rightarrow> fs_do fs_ok (CreateDirAll parent)) ops = (Ok (), ops @ dirs)"
    using assms by (simp add: dirs_def split: option.splits)
  moreover have "written dirs = []" by (simp add: dirs_def split: option.splits)
  ultimately show ?thesis
    using assms
    by (intro exI [of _ dirs]) (simp add: file_path_of_def Let_def usize_add_def slice_def)
qed

text \<open>As long as the bytes reach, every file gets its part; then the run panics.\<close>

lemma write_files_run:
  assumes up: "\<And>ops op. fs_ok ops op" and len: "length bytes < 2 ^ 64"
  shows "idx + file_sizes files \<le> length bytes \<Longrightarrow> \<exists>ops'.
      write_files fs_ok dir bytes idx files ops = (Ok (), ops') \<and>
      written ops' = written ops @ zip (map (file_path_of dir) files) (split_files files (drop idx bytes))"
proof (induction files arbitrary: idx ops)
  case Nil
  then show ?case by (intro exI [of _ ops]) simp
next
  case (Cons f files)
  then have fits: "idx + unat (tf_length f) \<le> length bytes" "idx + unat (tf_length f) < 2 ^ 64"
    "idx + unat (tf_length f) + file_sizes files \<le> length bytes"
    using len by (simp_all add: file_sizes_def)
  obtain dirs where dirs: "written dirs = []"
    "write_files fs_ok dir bytes idx (f # files) ops = write_files fs_ok dir bytes (idx + unat (tf_length f)) files
        (ops @ dirs @ [WriteFile (file_path_of dir f) (take (unat (tf_length f)) (drop idx bytes))])"
    using write_file_step [of fs_ok dir bytes idx f files ops, OF up] fits by auto
  from Cons.IH [OF fits(3), of "ops @ dirs @ [WriteFile (file_path_of dir f) (take (unat (tf_length f)) (drop idx bytes))]"]
  show ?case using dirs by (auto simp: add.commute)
qed

lemma write_files_short:
  assumes up: "\<And>ops op. fs_ok ops op" and len: "length bytes < 2 ^ 64" and small: "\<forall>f \<in> set files. length bytes + unat (tf_length f) < 2 ^ 64"
  shows "idx \<le> length bytes \<Longrightarrow> length bytes < idx + file_sizes files \<Longrightarrow>
    fst (write_files fs_ok dir bytes idx files ops) = Panic OutOfBounds"
  using small
proof (induction files arbitrary: idx ops)
  case (Cons f files)
  obtain dirs where step: "write_files fs_ok dir bytes idx (f # files) ops =
      (if idx + unat (tf_length f) < 2 ^ 64 \<and> idx + unat (tf_length f) \<le> length bytes
       then write_files fs_ok dir bytes (idx + unat (tf_length f)) files
          (ops @ dirs @ [WriteFile (file_path_of dir f) (take (unat (tf_length f)) (drop idx bytes))])
       else (Panic (if idx + unat (tf_length f) < 2 ^ 64 then OutOfBounds else ArithOverflow), ops @ dirs))"
    using write_file_step [of fs_ok dir bytes idx f files ops, OF up] by blast
  have no: "idx + unat (tf_length f) < 2 ^ 64" using Cons.prems by force
  show ?case
  proof (cases "idx + unat (tf_length f) \<le> length bytes")
    case True
    then have "length bytes < idx + unat (tf_length f) + file_sizes files"
      using Cons.prems(2) by (simp add: file_sizes_def)
    with True no show ?thesis using Cons step by simp
  next
    case False
    with no show ?thesis using step by simp
  qed
qed (simp add: file_sizes_def)

lemma split_files_lengths:
  "file_sizes files \<le> length bytes \<Longrightarrow> map length (split_files files bytes) = map (\<lambda>f. unat (tf_length f)) files"
  by (induction files arbitrary: bytes) (simp_all add: file_sizes_def)

lemma zip_map_length:
  "map length xs = map g fs \<Longrightarrow> map (\<lambda>(p, b). (p, length b)) (zip (map h fs) xs) = map (\<lambda>f. (h f, g f)) fs"
proof (induction fs arbitrary: xs)
  case (Cons f fs)
  then show ?case by (cases xs) auto
qed simp

lemma absolute_push: "\<not> is_absolute p \<Longrightarrow> buf \<noteq> [] \<Longrightarrow> is_absolute (push_path buf p) = is_absolute buf"
  by (cases buf) (simp_all add: push_path_def is_absolute_def)

lemma absolute_foldl_push:
  "\<forall>p \<in> set parts. \<not> is_absolute p \<Longrightarrow> is_absolute (foldl push_path buf parts) = is_absolute buf"
proof (induction parts arbitrary: buf)
  case (Cons p parts)
  have "is_absolute (push_path buf p) = is_absolute buf"
  proof (cases "buf = []")
    case True
    then show ?thesis using Cons.prems by (simp add: push_path_def is_absolute_def)
  next
    case False
    then show ?thesis using Cons.prems by (simp add: absolute_push)
  qed
  with Cons show ?case by simp
qed simp

text \<open>Whatever the file system does, a run gets as far as the first operation that fails.\<close>

lemma fs_do_cases: "fs_do fs_ok op ops = (Ok (), ops @ [op]) \<or> fs_do fs_ok op ops = (Err IoFailed, ops)"
  by (simp add: fs_do_def)

lemma write_files_prefix:
  assumes len: "length bytes < 2 ^ 64"
  shows "idx + file_sizes files \<le> length bytes \<Longrightarrow> write_files fs_ok dir bytes idx files ops = (r, ops') \<Longrightarrow>
    \<exists>ws. written ops' = written ops @ ws \<and>
      (r = Ok () \<and> ws = zip (map (file_path_of dir) files) (split_files files (drop idx bytes)) \<or>
       r = Err IoFailed \<and> strict_prefix ws (zip (map (file_path_of dir) files) (split_files files (drop idx bytes))))"
proof (induction files arbitrary: idx ops)
  case (Cons f files)
  let ?p = "file_path_of dir f" and ?part = "take (unat (tf_length f)) (drop idx bytes)"
  let ?rest = "zip (map (file_path_of dir) files) (split_files files (drop (idx + unat (tf_length f)) bytes))"
  have fits: "idx + unat (tf_length f) \<le> length bytes" "idx + unat (tf_length f) < 2 ^ 64"
    "idx + unat (tf_length f) + file_sizes files \<le> length bytes"
    using Cons.prems(1) len by (simp_all add: file_sizes_def)
  have all: "zip (map (file_path_of dir) (f # files)) (split_files (f # files) (drop idx bytes)) = (?p, ?part) # ?rest"
    by (simp add: add.commute)
  define mkdir where "mkdir = (case parent_path ?p of None \<Rightarrow> ret () | Some parent \<Rightarrow> fs_do fs_ok (CreateDirAll parent))"
  have part: "bnd (lift (usize_add idx (unat (tf_length f)))) (\<lambda>new_idx. bnd (lift (slice idx new_idx bytes)) (\<lambda>part.
      bnd (fs_do fs_ok (WriteFile ?p part)) (\<lambda>_. write_files fs_ok dir bytes new_idx files))) =
      bnd (fs_do fs_ok (WriteFile ?p ?part)) (\<lambda>_. write_files fs_ok dir bytes (idx + unat (tf_length f)) files)"
    by (rule ext) (use fits in \<open>simp add: usize_add_def slice_def\<close>)
  have run: "write_files fs_ok dir bytes idx (f # files) ops =
      bnd mkdir (\<lambda>_. bnd (fs_do fs_ok (WriteFile ?p ?part)) (\<lambda>_. write_files fs_ok dir bytes (idx + unat (tf_length f)) files)) ops"
    unfolding write_files.simps Let_def mkdir_def file_path_of_def [symmetric] part ..
  consider (up) ops1 where "mkdir ops = (Ok (), ops1)" "written ops1 = written ops" | (down) "mkdir ops = (Err IoFailed, ops)"
    unfolding mkdir_def using fs_do_cases by (cases "parent_path ?p") fastforce+
  then show ?case
  proof cases
    case up
    show ?thesis
    proof (cases "fs_do fs_ok (WriteFile ?p ?part) ops1 = (Ok (), ops1 @ [WriteFile ?p ?part])")
      case True
      then have "write_files fs_ok dir bytes (idx + unat (tf_length f)) files (ops1 @ [WriteFile ?p ?part]) = (r, ops')"
        using Cons.prems(2) run up by simp
      from Cons.IH [OF fits(3) this] obtain ws where
        "written ops' = written (ops1 @ [WriteFile ?p ?part]) @ ws"
        "r = Ok () \<and> ws = ?rest \<or> r = Err IoFailed \<and> strict_prefix ws ?rest" by blast
      then show ?thesis
        using up(2) unfolding all by (intro exI [of _ "(?p, ?part) # ws"]) auto
    next
      case False
      then have "r = Err IoFailed" "ops' = ops1"
        using Cons.prems(2) run up fs_do_cases [of fs_ok "WriteFile ?p ?part" ops1] by auto
      then show ?thesis using up(2) unfolding all by (intro exI [of _ "[]"]) auto
    qed
  next
    case down
    then have "r = Err IoFailed" "ops' = ops" using Cons.prems(2) run by simp_all
    then show ?thesis unfolding all by (intro exI [of _ "[]"]) auto
  qed
qed simp

text \<open>The files of the content: their paths with the parts of the bytes.\<close>

definition content_files :: "string \<Rightarrow> download_type \<Rightarrow> u8 list \<Rightarrow> (string \<times> u8 list) list" where
  "content_files output dl_type bytes =
     (case dl_type of
        SingleFile len \<Rightarrow> [(output, bytes)]
      | MultiFile files \<Rightarrow> zip (map (file_path_of output) files) (split_files files bytes))"

lemma content_files_whole:
  assumes "length bytes = content_length dl_type"
  shows "concat (map snd (content_files output dl_type bytes)) = bytes"
    and "map (\<lambda>(p, b). (p, length b)) (content_files output dl_type bytes) = (case dl_type of
        SingleFile len \<Rightarrow> [(output, unat len)]
      | MultiFile files \<Rightarrow> map (\<lambda>f. (file_path_of output f, unat (tf_length f))) files)"
proof -
  have "file_sizes files = length bytes" if "dl_type = MultiFile files" for files
    using assms that by (simp add: file_sizes_def)
  then show "concat (map snd (content_files output dl_type bytes)) = bytes"
    by (cases dl_type) (simp_all add: content_files_def concat_split_files)
  have "map (\<lambda>(p, b). (p, length b)) (zip (map (file_path_of output) files) (split_files files bytes)) =
      map (\<lambda>f. (file_path_of output f, unat (tf_length f))) files" if "dl_type = MultiFile files" for files
    using split_files_lengths [of files bytes] assms that by (simp add: zip_map_length file_sizes_def)
  then show "map (\<lambda>(p, b). (p, length b)) (content_files output dl_type bytes) = (case dl_type of
        SingleFile len \<Rightarrow> [(output, unat len)]
      | MultiFile files \<Rightarrow> map (\<lambda>f. (file_path_of output f, unat (tf_length f))) files)"
    using assms by (cases dl_type) (simp_all add: content_files_def)
qed

lemma write_output_prefix:
  assumes len: "length bytes = content_length dl_type" "length bytes < 2 ^ 64"
    and run: "write_output fs_ok output dl_type bytes [] = (r, ops)"
  shows "r = Ok () \<and> written ops = content_files output dl_type bytes \<or>
    r = Err IoFailed \<and> strict_prefix (written ops) (content_files output dl_type bytes)"
proof (cases dl_type)
  case (SingleFile n)
  then show ?thesis
    using run fs_do_cases [of fs_ok "WriteFile output bytes" "[]"] by (auto simp: write_output_def content_files_def)
next
  case (MultiFile files)
  then have "0 + file_sizes files \<le> length bytes" using len(1) by (simp add: file_sizes_def)
  from write_files_prefix [OF len(2) this, where dir = "output" and ops = "[]" and fs_ok = fs_ok and r = r and ops' = ops] show ?thesis
    using run MultiFile by (auto simp: write_output_def content_files_def)
qed

lemma write_output_up:
  assumes up: "\<forall>ops op. fs_ok ops op" and len: "length bytes = content_length dl_type" "length bytes < 2 ^ 64"
  shows "fst (write_output fs_ok output dl_type bytes []) = Ok ()"
proof (cases dl_type)
  case (MultiFile files)
  then have "0 + file_sizes files \<le> length bytes" using len(1) by (simp add: file_sizes_def)
  from write_files_run [OF _ len(2) this, where dir = "output" and ops = "[]" and fs_ok = fs_ok] show ?thesis
    using up MultiFile by (auto simp: write_output_def)
qed (use up in \<open>simp add: write_output_def\<close>)

lemma locate_file_path:
  assumes "\<forall>p \<in> set (tf_path f). \<not> is_absolute p"
  shows "locate cwd (file_path_of output f) =
    foldl descend (locate cwd output) (concat (map path_components (tf_path f)))"
proof -
  let ?names = "concat (map path_names (tf_path f))"
  have rel: "\<not> is_absolute (make_file_path (tf_path f))"
    using absolute_foldl_push [OF assms, of "[]"] by (simp add: make_file_path_def is_absolute_def)
  have abs: "is_absolute (file_path_of output f) = is_absolute output"
    using rel absolute_foldl_push [of "[make_file_path (tf_path f)]" "output"] by (simp add: file_path_of_def join_path_def)
  have "path_names (file_path_of output f) = path_names output @ ?names"
    using rel path_names_push_all [OF assms, of "[]"]
    by (simp add: file_path_of_def join_path_def path_names_push make_file_path_def path_names_def [of "[]"])
  moreover have "foldl descend dir (concat (map path_names ps)) = foldl descend dir (concat (map path_components ps))" for dir ps
    by (induction ps arbitrary: dir) (simp_all add: foldl_descend_components)
  ultimately show ?thesis unfolding locate_def abs foldl_descend_components by simp
qed

section \<open>Properties\<close>

text \<open>
  C37. When the bytes are as many as the files take, the outcome is success or an error of the file
  system. With success there is one file per entry, in order, at its path and of its length, and
  put together they are the bytes that were given; with an error the files written before it are a proper
  front part of these. When no operation of the file system fails, writing succeeds.
\<close>

theorem written_files_are_content:
  assumes "length bytes = content_length dl_type" and "length bytes < 2 ^ 64"
    and "write_output fs_ok output dl_type bytes [] = (r, ops)"
  shows "\<exists>files. concat (map snd files) = bytes \<and>
    map (\<lambda>(p, b). (p, length b)) files = (case dl_type of
        SingleFile len \<Rightarrow> [(output, unat len)]
      | MultiFile files \<Rightarrow> map (\<lambda>f. (file_path_of output f, unat (tf_length f))) files) \<and>
    (r = Ok () \<and> written ops = files \<or> r = Err IoFailed \<and> strict_prefix (written ops) files) \<and>
    ((\<forall>ops op. fs_ok ops op) \<longrightarrow> r = Ok ())"
  using content_files_whole [OF assms(1), of "output"] write_output_prefix [OF assms]
    write_output_up [OF _ assms(1,2), of fs_ok "output"] assms(3)
  by (intro exI [of _ "content_files output dl_type bytes"]) auto

theorem written_files_are_content_witness:
  "\<exists>files. concat (map snd files) = [1, 2, 3] \<and>
    written (snd (write_output (\<lambda>ops op. True) ''out'' (MultiFile [\<lparr>tf_length = 1, tf_path = [''a'']\<rparr>,
      \<lparr>tf_length = 2, tf_path = [''b'', ''c'']\<rparr>]) [1, 2, 3] [])) = files \<and>
    map fst files = [''out/a'', ''out/b/c'']"
proof -
  let ?t = "MultiFile [\<lparr>tf_length = 1, tf_path = [''a'']\<rparr>, \<lparr>tf_length = 2, tf_path = [''b'', ''c'']\<rparr>]"
  obtain r ops where run: "write_output (\<lambda>ops op. True) ''out'' ?t [1, 2, 3] [] = (r, ops)" by (metis surj_pair)
  have paths: "file_path_of ''out'' \<lparr>tf_length = 1, tf_path = [''a'']\<rparr> = ''out/a''"
    "file_path_of ''out'' \<lparr>tf_length = 2, tf_path = [''b'', ''c'']\<rparr> = ''out/b/c''"
    by (simp_all add: file_path_of_def join_path_def push_path_def make_file_path_def is_absolute_def)
  show ?thesis
    using written_files_are_content [OF _ _ run] unfolding run by (auto simp: paths)
qed

text \<open>
  C38. Where a file of the torrent is written. With relative parts it is the place one comes to from
  the output directory along the names in the parts; so it lies below the output directory when
  none of these names is \<open>..\<close>, while after a first part \<open>..\<close> the others lead on from its parent. An absolute part makes
  the output directory, and the parts before it, disappear from the path. (Symbolic links aside.)
\<close>

theorem absolute_part_escapes_output:
  fixes f :: torrent_file
  defines "parts \<equiv> tf_path f"
  shows "((\<forall>p \<in> set parts. \<not> is_absolute p) \<longrightarrow>
      locate cwd (file_path_of output f) = foldl descend (locate cwd output) (concat (map path_components parts)) \<and>
      ((\<forall>p \<in> set parts. ''..'' \<notin> set (path_components p)) \<longrightarrow>
         (\<exists>rest. locate cwd (file_path_of output f) = locate cwd output @ rest)) \<and>
      (parts = ''..'' # rest \<longrightarrow>
         locate cwd (file_path_of output f) = foldl descend (butlast (locate cwd output)) (concat (map path_components rest)))) \<and>
    (parts = before @ p # after \<and> is_absolute p \<and> (\<forall>q \<in> set after. \<not> is_absolute q) \<longrightarrow>
      file_path_of output f = foldl push_path p after \<and> is_absolute (file_path_of output f))"
proof (intro conjI impI)
  assume rel: "\<forall>p \<in> set parts. \<not> is_absolute p"
  show along: "locate cwd (file_path_of output f) = foldl descend (locate cwd output) (concat (map path_components parts))"
    unfolding parts_def by (rule locate_file_path [OF rel [unfolded parts_def]])
  show "\<exists>rest. locate cwd (file_path_of output f) = locate cwd output @ rest"
    if "\<forall>p \<in> set parts. ''..'' \<notin> set (path_components p)"
    unfolding along by (rule foldl_descend_below) (use that in simp)
  show "locate cwd (file_path_of output f) = foldl descend (butlast (locate cwd output)) (concat (map path_components rest))"
    if "parts = ''..'' # rest"
    unfolding along using that by (simp add: descend_def path_components_def)
next
  assume parts: "parts = before @ p # after \<and> is_absolute p \<and> (\<forall>q \<in> set after. \<not> is_absolute q)"
  then have path: "make_file_path (tf_path f) = foldl push_path p after"
    by (simp add: make_file_path_def push_path_def [of _ p] parts_def)
  moreover have "is_absolute (foldl push_path p after)" using parts absolute_foldl_push by blast
  ultimately show "file_path_of output f = foldl push_path p after" "is_absolute (file_path_of output f)"
    by (simp_all add: file_path_of_def join_path_def push_path_def [of "output"])
qed

theorem absolute_part_escapes_output_witness:
  "file_path_of ''out'' \<lparr>tf_length = 1, tf_path = [''a'', ''/etc'', ''passwd'']\<rparr> = ''/etc/passwd'' \<and>
   locate [''home''] (file_path_of ''out'' \<lparr>tf_length = 1, tf_path = [''a'', ''b'']\<rparr>) = [''home'', ''out'', ''a'', ''b''] \<and>
   locate [''home''] (file_path_of ''out'' \<lparr>tf_length = 1, tf_path = [''..'', ''b'']\<rparr>) = [''home'', ''b'']"
proof -
  have "locate [''home''] ''out'' = [''home'', ''out'']"
    by (simp add: locate_def is_absolute_def path_components_def descend_def)
  then show ?thesis
    using absolute_part_escapes_output [of "\<lparr>tf_length = 1, tf_path = [''a'', ''/etc'', ''passwd'']\<rparr>" "[''home'']" "''out''"
        "[]" "[''a'']" "''/etc''" "[''passwd'']"]
      absolute_part_escapes_output [of "\<lparr>tf_length = 1, tf_path = [''a'', ''b'']\<rparr>" "[''home'']" "''out''"]
      absolute_part_escapes_output [of "\<lparr>tf_length = 1, tf_path = [''..'', ''b'']\<rparr>" "[''home'']" "''out''" "[''b'']"]
    by (simp add: is_absolute_def push_path_def descend_def path_components_def)
qed

end
