(* ===== verification/Client.thy ===== *)
theory Client
  imports SessionRun Udp FileWrite Nom
begin

text \<open>
  The program, \<open>src/main.rs\<close>: choosing a tracker, and the two commands. The random source, reading
  the torrent file and its deserializer are parameters, as is what each tracker does.
\<close>

section \<open>The code\<close>

record tracker_env =
  te_connect :: connect_env
  te_udp :: udp_env

text \<open>
  One round of the loop of \<open>pick_tracker\<close>: the peers of a tracker that is picked, or \<open>None\<close> to go
  on with the next one.
\<close>

definition try_tracker ::
  "'b buf_api \<Rightarrow> 'b \<Rightarrow> (string \<Rightarrow> tracker_env) \<Rightarrow> u8 list \<Rightarrow> u8 list \<Rightarrow> u64 \<Rightarrow> string \<Rightarrow> socket_addr list option res"
where
  "try_tracker B buf te info_hash self_id left url =
     (case udp_connect B buf (te_connect (te url)) (te_udp (te url)) url of
        Err e \<Rightarrow> Ok None
      | Panic p \<Rightarrow> Panic p
      | Hang \<Rightarrow> Hang
      | Ok tracker \<Rightarrow>
          and_then (if length self_id = 20 then Ok () else Err (Anyhow ''slice length'')) (\<lambda>_.
          let args = \<lparr>aa_info_hash = info_hash, aa_peer_id = self_id, aa_downloaded = 0,
                aa_left = left, aa_uploaded = 0\<rparr>
          in case fst (udp_announce B (te_udp (te url)) args tracker) of
               Err e \<Rightarrow> Ok None
             | Panic p \<Rightarrow> Panic p
             | Hang \<Rightarrow> Hang
             | Ok (peers, seeders) \<Rightarrow> if seeders \<ge> 5 then Ok (Some peers) else Ok None))"

primrec pick_tracker ::
  "'b buf_api \<Rightarrow> 'b \<Rightarrow> (string \<Rightarrow> tracker_env) \<Rightarrow> u8 list \<Rightarrow> u8 list \<Rightarrow> u64 \<Rightarrow> string list list \<Rightarrow> socket_addr list res"
where
  "pick_tracker B buf te info_hash self_id left [] = Err (Anyhow ''did not found a quality tracker'')"
| "pick_tracker B buf te info_hash self_id left (urls # rest) =
     (case urls of
        [] \<Rightarrow> Panic UnwrapFailed
      | url # alternatives \<Rightarrow>
          and_then (try_tracker B buf te info_hash self_id left url) (\<lambda>picked.
          case picked of
            Some peers \<Rightarrow> Ok peers
          | None \<Rightarrow> pick_tracker B buf te info_hash self_id left rest))"

text \<open>Twenty samples of an alphanumeric distribution, and reading the torrent file.\<close>

definition gen_peer_id :: "(nat \<Rightarrow> u8) \<Rightarrow> u8 list" where
  "gen_peer_id sample = map sample [0..<20]"

definition parse_meta_info :: "(string \<Rightarrow> u8 list option) \<Rightarrow> (u8 list \<Rightarrow> torrent res) \<Rightarrow> string \<Rightarrow> torrent res" where
  "parse_meta_info read_file from_bytes path =
     (case read_file path of
        None \<Rightarrow> Err (Anyhow ''expecting a valid torrent file path'')
      | Some meta_bytes \<Rightarrow> from_bytes meta_bytes)"

text \<open>The command \<open>decode\<close>: the value that is printed.\<close>

definition decode_command ::
  "nom_api \<Rightarrow> decoder \<Rightarrow> u8 list \<Rightarrow> bvalue res"
where
  "decode_command N d value =
     and_then (decoder_decode N d value) (\<lambda>(remaining, decoded_value).
       if remaining = [] then Ok decoded_value else Panic AssertFailed)"

text \<open>
  The command \<open>download\<close> up to the loop that receives pieces; what follows it, given the outcome of
  the session; and the command as a relation, since the session is one.
\<close>

definition begin_download ::
  "'b buf_api \<Rightarrow> 'b \<Rightarrow> (string \<Rightarrow> tracker_env) \<Rightarrow> (info \<Rightarrow> u8 list res) \<Rightarrow> (u8 list \<Rightarrow> u8 list) \<Rightarrow> peer_env \<Rightarrow>
   u8 list \<Rightarrow> torrent \<Rightarrow> session res"
where
  "begin_download B buf te to_bytes sha1 pe self_id t =
     and_then (info_hash_of to_bytes sha1 (torrent_info t)) (\<lambda>info_hash.
     and_then (total_length (torrent_info t)) (\<lambda>len.
     and_then (pick_tracker B buf te info_hash self_id len (announce_list t)) (\<lambda>peers.
     and_then (new_file self_id (torrent_info t) peers) (\<lambda>f.
     start_download pe (info_hash_of to_bytes sha1) f))))"

definition finish_download :: "fs_env \<Rightarrow> string \<Rightarrow> torrent \<Rightarrow> u8 list res \<Rightarrow> (fs_op list, unit) prog" where
  "finish_download fs_ok output t r =
     bnd (lift r) (\<lambda>bytes. write_output fs_ok output (info_download_type (torrent_info t)) bytes)"

definition download_command ::
  "'b buf_api \<Rightarrow> 'b \<Rightarrow> (string \<Rightarrow> tracker_env) \<Rightarrow> (info \<Rightarrow> u8 list res) \<Rightarrow> (u8 list \<Rightarrow> u8 list) \<Rightarrow> peer_env \<Rightarrow>
   (nat \<Rightarrow> env) \<Rightarrow> (seed_downloader \<Rightarrow> download_input \<Rightarrow> bool) \<Rightarrow> fs_env \<Rightarrow> u8 list \<Rightarrow> string \<Rightarrow> torrent \<Rightarrow>
   session \<Rightarrow> unit res \<times> fs_op list \<Rightarrow> bool"
where
  "download_command B buf te to_bytes sha1 pe envs ok fs_ok self_id output t s out \<longleftrightarrow>
     (\<exists>s0 r. begin_download B buf te to_bytes sha1 pe self_id t = Ok s0 \<and>
        session_reach envs ok (torrent_info t) s0 s \<and> outcome s = Some r \<and>
        out = finish_download fs_ok output t r [])"

text \<open>
  \<open>main\<close>: the arguments, as \<open>clap\<close> fills them in (a decoder that is not given is \<open>Nom\<close>), and what a
  run of the program comes to: the value printed by \<open>decode\<close>, or the outcome of \<open>download\<close> with what
  was done to the file system.
\<close>

datatype commands =
    Decode "u8 list"
  | Download string string

record args =
  arg_decoder :: decoder
  arg_commands :: commands

definition make_args :: "decoder option \<Rightarrow> commands \<Rightarrow> args" where
  "make_args d c = \<lparr>arg_decoder = (case d of None \<Rightarrow> Nom | Some e \<Rightarrow> e), arg_commands = c\<rparr>"

datatype main_result =
    Printed "bvalue res"
  | Finished "unit res \<times> fs_op list"

inductive main_run ::
  "nom_api \<Rightarrow> 'b buf_api \<Rightarrow> 'b \<Rightarrow> (string \<Rightarrow> tracker_env) \<Rightarrow> (info \<Rightarrow> u8 list res) \<Rightarrow> (u8 list \<Rightarrow> u8 list) \<Rightarrow> peer_env \<Rightarrow>
   (nat \<Rightarrow> env) \<Rightarrow> (seed_downloader \<Rightarrow> download_input \<Rightarrow> bool) \<Rightarrow> fs_env \<Rightarrow> (nat \<Rightarrow> u8) \<Rightarrow>
   (string \<Rightarrow> u8 list option) \<Rightarrow> (u8 list \<Rightarrow> torrent res) \<Rightarrow> args \<Rightarrow> main_result \<Rightarrow> bool"
  for N B buf te to_bytes sha1 pe envs ok fs_ok sample read_file from_bytes a
where
  decode: "arg_commands a = Decode value \<Longrightarrow>
    main_run N B buf te to_bytes sha1 pe envs ok fs_ok sample read_file from_bytes a
      (Printed (decode_command N (arg_decoder a) value))"
| no_torrent: "arg_commands a = Download out_path path \<Longrightarrow> parse_meta_info read_file from_bytes path = r \<Longrightarrow> \<not> is_ok r \<Longrightarrow>
    main_run N B buf te to_bytes sha1 pe envs ok fs_ok sample read_file from_bytes a
      (Finished (and_then r (\<lambda>_. Ok ()), []))"
| no_session: "arg_commands a = Download out_path path \<Longrightarrow> parse_meta_info read_file from_bytes path = Ok t \<Longrightarrow>
    begin_download B buf te to_bytes sha1 pe (gen_peer_id sample) t = r \<Longrightarrow> \<not> is_ok r \<Longrightarrow>
    main_run N B buf te to_bytes sha1 pe envs ok fs_ok sample read_file from_bytes a
      (Finished (and_then r (\<lambda>_. Ok ()), []))"
| download: "arg_commands a = Download out_path path \<Longrightarrow> parse_meta_info read_file from_bytes path = Ok t \<Longrightarrow>
    download_command B buf te to_bytes sha1 pe envs ok fs_ok (gen_peer_id sample) out_path t s out \<Longrightarrow>
    main_run N B buf te to_bytes sha1 pe envs ok fs_ok sample read_file from_bytes a (Finished out)"

inductive_cases main_runE: "main_run N B buf te to_bytes sha1 pe envs ok fs_ok sample read_file from_bytes a out"

lemma not_ok_and_then: "\<not> is_ok r \<Longrightarrow> and_then r f \<noteq> Ok x" "\<not> is_ok r \<Longrightarrow> Ok x \<noteq> and_then r f"
  by (cases r; simp)+

text \<open>A run of \<open>download\<close> that reports success has read a torrent, and is a run of the command to its end.\<close>

lemma main_run_Ok:
  assumes "main_run N B buf te to_bytes sha1 pe envs ok fs_ok sample read_file from_bytes a (Finished (Ok (), ops))"
  obtains out_path path t s where "arg_commands a = Download out_path path" "parse_meta_info read_file from_bytes path = Ok t"
    "download_command B buf te to_bytes sha1 pe envs ok fs_ok (gen_peer_id sample) out_path t s (Ok (), ops)"
  using assms
proof (cases rule: main_run.cases)
  case (download out_path path t s)
  then show thesis using that by blast
qed (simp_all add: not_ok_and_then)

section \<open>Which tracker is picked\<close>

text \<open>
  What a tracker comes to, said in terms of its two exchanges: the announcement that is made once
  the tracker is connected and its outcome, the tiers it makes the client take, and those it
  makes the client pass over.
\<close>

definition tracker_announces ::
  "'b buf_api \<Rightarrow> 'b \<Rightarrow> (string \<Rightarrow> tracker_env) \<Rightarrow> u8 list \<Rightarrow> u8 list \<Rightarrow> u64 \<Rightarrow> string \<Rightarrow> (socket_addr list \<times> u32) res \<Rightarrow> bool"
where
  "tracker_announces B buf te info_hash self_id left url r \<longleftrightarrow>
     (\<exists>tracker. udp_connect B buf (te_connect (te url)) (te_udp (te url)) url = Ok tracker \<and>
        fst (udp_announce B (te_udp (te url)) \<lparr>aa_info_hash = info_hash, aa_peer_id = self_id,
          aa_downloaded = 0, aa_left = left, aa_uploaded = 0\<rparr> tracker) = r)"

definition picks ::
  "'b buf_api \<Rightarrow> 'b \<Rightarrow> (string \<Rightarrow> tracker_env) \<Rightarrow> u8 list \<Rightarrow> u8 list \<Rightarrow> u64 \<Rightarrow> socket_addr list \<Rightarrow> string list \<Rightarrow> bool"
where
  "picks B buf te info_hash self_id left peers tier \<longleftrightarrow>
     tier \<noteq> [] \<and> length self_id = 20 \<and>
     (\<exists>seeders \<ge> 5. tracker_announces B buf te info_hash self_id left (hd tier) (Ok (peers, seeders)))"

definition passes_over ::
  "'b buf_api \<Rightarrow> 'b \<Rightarrow> (string \<Rightarrow> tracker_env) \<Rightarrow> u8 list \<Rightarrow> u8 list \<Rightarrow> u64 \<Rightarrow> string list \<Rightarrow> bool"
where
  "passes_over B buf te info_hash self_id left tier \<longleftrightarrow>
     tier \<noteq> [] \<and>
     ((\<exists>e. udp_connect B buf (te_connect (te (hd tier))) (te_udp (te (hd tier))) (hd tier) = Err e) \<or>
      length self_id = 20 \<and>
        ((\<exists>e. tracker_announces B buf te info_hash self_id left (hd tier) (Err e)) \<or>
         (\<exists>peers seeders. seeders < 5 \<and>
            tracker_announces B buf te info_hash self_id left (hd tier) (Ok (peers, seeders)))))"

lemma try_tracker_iff:
  "url # rest = tier \<Longrightarrow>
     try_tracker B buf te info_hash self_id left url = Ok (Some peers) \<longleftrightarrow> picks B buf te info_hash self_id left peers tier"
  "url # rest = tier \<Longrightarrow>
     try_tracker B buf te info_hash self_id left url = Ok None \<longleftrightarrow> passes_over B buf te info_hash self_id left tier"
  by (auto simp: try_tracker_def picks_def passes_over_def tracker_announces_def Let_def and_then_Ok_iff
      not_le split: res.splits prod.splits if_splits)

lemma first_split_Cons:
  "(\<exists>before x after. t # ts = before @ x # after \<and> P x \<and> list_all Q before) \<longleftrightarrow>
     P t \<or> Q t \<and> (\<exists>before x after. ts = before @ x # after \<and> P x \<and> list_all Q before)" (is "?all \<longleftrightarrow> _ \<or> _ \<and> ?rest")
proof
  assume ?all
  then obtain before x after where "t # ts = before @ x # after" "P x" "list_all Q before" by blast
  then show "P t \<or> Q t \<and> ?rest" by (cases before) auto
next
  assume "P t \<or> Q t \<and> ?rest"
  then show ?all
  proof
    assume "P t"
    then show ?all by (intro exI [of _ "[]"]) simp
  next
    assume r: "Q t \<and> ?rest"
    then obtain before x after where "ts = before @ x # after" "P x" "list_all Q before" by blast
    with r show ?all by (intro exI [of _ "t # before"] exI [of _ x] exI [of _ after]) simp
  qed
qed

text \<open>
  C36. \<open>pick_tracker\<close> succeeds exactly with the peers of the first tier whose first tracker connects,
  answers the announcement and names at least five seeders, when the first tracker of each tier
  before it failed to connect, failed the announcement or named fewer than five. The other trackers of a tier
  are never asked; when every tier is passed over the result is an error, and a tier
  without trackers, when it is reached, is a panic.
\<close>

theorem pick_tracker_first_quality:
  "(pick_tracker B buf te info_hash self_id left tiers = Ok peers \<longleftrightarrow>
      (\<exists>before tier after. tiers = before @ tier # after \<and> picks B buf te info_hash self_id left peers tier \<and>
         list_all (passes_over B buf te info_hash self_id left) before)) \<and>
   (list_all (passes_over B buf te info_hash self_id left) pre \<longrightarrow>
      pick_tracker B buf te info_hash self_id left pre = Err (Anyhow ''did not found a quality tracker'') \<and>
      pick_tracker B buf te info_hash self_id left (pre @ [] # rest) = Panic UnwrapFailed)"
proof (intro conjI impI)
  let ?pick = "picks B buf te info_hash self_id left peers" and ?skip = "passes_over B buf te info_hash self_id left"
  show "pick_tracker B buf te info_hash self_id left tiers = Ok peers \<longleftrightarrow>
      (\<exists>before tier after. tiers = before @ tier # after \<and> ?pick tier \<and> list_all ?skip before)"
  proof (induction tiers)
    case (Cons tier tiers)
    have "pick_tracker B buf te info_hash self_id left (tier # tiers) = Ok peers \<longleftrightarrow>
        ?pick tier \<or> ?skip tier \<and> pick_tracker B buf te info_hash self_id left tiers = Ok peers"
    proof (cases tier)
      case Nil
      then show ?thesis by (simp add: picks_def passes_over_def)
    next
      case (Cons url others)
      note iff = try_tracker_iff [OF Cons [symmetric], of B buf te info_hash self_id left]
      show ?thesis
        by (auto simp: Cons iff [unfolded Cons, symmetric] and_then_Ok_iff split: option.splits)
    qed
    then show ?case unfolding first_split_Cons Cons.IH .
  qed simp
  have step: "pick_tracker B buf te info_hash self_id left (tier # tiers) = pick_tracker B buf te info_hash self_id left tiers"
    if "?skip tier" for tier tiers
  proof (cases tier)
    case (Cons url others)
    then show ?thesis using that try_tracker_iff(2) [OF Cons [symmetric], of B buf te info_hash self_id left] by simp
  qed (use that in \<open>simp add: passes_over_def\<close>)
  assume pre: "list_all ?skip pre"
  then show "pick_tracker B buf te info_hash self_id left pre = Err (Anyhow ''did not found a quality tracker'')"
    by (induction pre) (auto simp: step simp del: pick_tracker.simps(2))
  show "pick_tracker B buf te info_hash self_id left (pre @ [] # rest) = Panic UnwrapFailed"
    using pre
  proof (induction pre)
    case Nil
    show ?case by simp
  next
    case (Cons tier pre)
    then show ?case using step [of tier "pre @ [] # rest"] by (simp del: pick_tracker.simps)
  qed
qed

section \<open>Files on disk\<close>

text \<open>
  C10. From the tracker to the disk: when the command succeeds with honest and calm seeds over
  links that work, a number of pieces that is no multiple of eight, a file system that works,
  and nothing left in the channel at the end, then the files written, in the order of the metainfo
  and at their paths, put together are the content of the torrent.
\<close>

theorem downloaded_files_hold_content:
  assumes "wf_download (torrent_info t)" and "piece_count (torrent_info t) mod 8 \<noteq> 0"
    and "length content = content_length (info_download_type (torrent_info t))"
    and "\<forall>n. ideal_env (torrent_info t) content (envs n) \<and> env_sha1 (envs n) = sha"
    and "\<forall>ops op. fs_ok ops op"
    and "download_command B buf te to_bytes sha pe envs (calm_input (honest (torrent_info t) content))
      fs_ok self_id output t s (Ok (), ops)"
    and "chan s = []"
  shows "concat (map snd (written ops)) = content \<and>
    map (\<lambda>(p, b). (p, length b)) (written ops) = (case info_download_type (torrent_info t) of
        SingleFile len \<Rightarrow> [(output, unat len)]
      | MultiFile files \<Rightarrow> map (\<lambda>f. (file_path_of output f, unat (tf_length f))) files)"
proof -
  obtain s0 r where run: "begin_download B buf te to_bytes sha pe self_id t = Ok s0"
    "session_reach envs (calm_input (honest (torrent_info t) content)) (torrent_info t) s0 s"
    "outcome s = Some r" "finish_download fs_ok output t r [] = (Ok (), ops)"
    using assms(6) unfolding download_command_def by metis
  obtain bytes where r: "r = Ok bytes"
    and w: "write_output fs_ok output (info_download_type (torrent_info t)) bytes [] = (Ok (), ops)"
    using run(4) by (cases r) (simp_all add: finish_download_def)
  obtain peers f where "new_file self_id (torrent_info t) peers = Ok f"
    "start_download pe (info_hash_of to_bytes sha) f = Ok s0"
    using run(1) by (auto simp: begin_download_def and_then_Ok_iff)
  note pieces = returned_pieces [OF assms(1-4) this run(2) run(3) [unfolded r]]
  have bytes: "bytes = content"
    using content_eqI [OF wf_download_info(1) [OF assms(1)] pieces(1) assms(3)] pieces(2) assms(7) by simp
  have len: "length content < 2 ^ 64" using assms(1,3) wf_download_info(2) by simp
  have "written ops = content_files output (info_download_type (torrent_info t)) content"
    using write_output_prefix [OF assms(3) len w [unfolded bytes]] by simp
  then show ?thesis using content_files_whole [OF assms(3)] by simp
qed

section \<open>A whole run\<close>

text \<open>A tracker that answers a connection request and an announcement with one peer.\<close>

definition duo_reply :: "u8 list" where
  "duo_reply = [0, 0, 0, 1, 0, 0, 0, 5, 0, 0, 0, 60, 0, 0, 0, 2, 0, 0, 0, 7, 0, 0, 0, 0, 0, 0]"

definition duo_tracker :: "string \<Rightarrow> tracker_env" where
  "duo_tracker url = \<lparr>te_connect = \<lparr>ce_bind = True,
       ce_parse = (\<lambda>u. Ok (if u = ''dead'' then None else Some ''host'', Some 6969)),
       ce_connect = (\<lambda>h p. True), ce_key = 9, ce_now = 0\<rparr>,
     te_udp = (demo_udp_env [])\<lparr>ue_recv := (\<lambda>t. (Some 1,
       Some (if t = 2 then [0, 0, 0, 0, 0, 0, 0, 5, 0, 0, 0, 0, 0, 0, 0, 3] else duo_reply)))\<rparr>\<rparr>"

definition duo_torrent :: torrent where
  "duo_torrent = \<lparr>announce = ''dead'', announce_list = [[''dead'', ''spare''], [''alive'']], torrent_info = unit_info 2\<rparr>"

lemma duo_connect:
  "\<exists>b. udp_connect vec_buf [] (te_connect (duo_tracker ''alive'')) (te_udp (duo_tracker ''alive'')) ''alive'' =
     Ok ((new_tracker b 9 0)\<lparr>ut_conn_id := 3, ut_conn_id_ts := 2, ut_now := 2, ut_tick := 3,
       ut_sent := [to_be 8 protocol_id @ to_be 4 action_connect @ to_be 4 (5 :: u32)]\<rparr>)"
proof -
  let ?env = "te_udp (duo_tracker ''alive'')" and ?s = "new_tracker [] 9 0 :: u8 list udp_tracker"
  let ?p = "to_be 8 protocol_id @ to_be 4 action_connect @ to_be 4 (5 :: u32)"
  let ?v = "[0, 0, 0, 0, 0, 0, 0, 5, 0, 0, 0, 0, 0, 0, 0, 3] :: u8 list"
  have ends: "exchange_ends ?env (Some (from_secs 5)) 0 1 ?p 16 ?v 2"
    by (simp add: exchange_ends_def duo_tracker_def demo_udp_env_def from_secs_def)
  have "\<exists>b. get_conn_id vec_buf ?env (Some (from_secs 5)) ?s = (Ok (), ?s\<lparr>ut_sent := ut_sent ?s @ [?p],
      ut_tick := Suc (Suc (Suc (ut_tick ?s))), ut_now := 2, ut_buf := b, ut_conn_id := from_be (drop 8 ?v), ut_conn_id_ts := 2\<rparr>)"
    by (rule vec.get_conn_id_run [OF _ HOL.refl]) 
      (use ends in \<open>simp_all add: new_tracker_def duo_tracker_def demo_udp_env_def from_be_def action_connect_def\<close>)
  then obtain b where "get_conn_id vec_buf ?env (Some (from_secs 5)) ?s =
      (Ok (), (new_tracker b 9 0)\<lparr>ut_conn_id := 3, ut_conn_id_ts := 2, ut_now := 2, ut_tick := 3, ut_sent := [?p]\<rparr>)"
    by (auto simp: new_tracker_def from_be_def)
  then show ?thesis
    by (intro exI [of _ b]) (simp add: udp_connect_def duo_tracker_def with_timeout_def new_tracker_def)
qed

lemma announce_first:
  "send_announce B env args (Some (ut_now s + from_secs 15)) s = (Ok resp, s') \<Longrightarrow> udp_announce B env args s = (Ok resp, s')"
  by (simp add: udp_announce_def retry_timeout_def with_timeout_def)

lemma duo_announced:
  assumes "length ih = 20" and "length pid = 20"
  shows "fst (udp_announce vec_buf (te_udp (duo_tracker ''alive''))
      \<lparr>aa_info_hash = ih, aa_peer_id = pid, aa_downloaded = 0, aa_left = 2, aa_uploaded = 0\<rparr>
      ((new_tracker b 9 0)\<lparr>ut_conn_id := 3, ut_conn_id_ts := 2, ut_now := 2, ut_tick := 3, ut_sent := p\<rparr>)) =
    Ok ([(0, 0)], 7)"
proof -
  let ?env = "te_udp (duo_tracker ''alive'')"
  let ?args = "\<lparr>aa_info_hash = ih, aa_peer_id = pid, aa_downloaded = 0, aa_left = 2, aa_uploaded = 0\<rparr>"
  let ?s = "(new_tracker b 9 0)\<lparr>ut_conn_id := 3, ut_conn_id_ts := 2, ut_now := 2, ut_tick := 3, ut_sent := p\<rparr>"
  let ?d = "Some (ut_now ?s + from_secs 15)"
  have fields: "ut_now ?s = 2" "ut_tick ?s = 3" "ut_conn_id ?s = 3" "ut_key ?s = 9" "ut_next_announce ?s = 0"
    "ut_conn_id_ts ?s = 2"
    by (simp_all add: new_tracker_def)
  have env: "ue_random ?env t = 5" "ue_peer_addr ?env = Some (0x01020304, 6969)" for t
    by (simp_all add: duo_tracker_def demo_udp_env_def)
  have "length (announce_packet 3 5 ?args 9 port) = 98" for port
    using assms by (simp add: announce_packet_def)
  then have ends: "exchange_ends ?env ?d (ut_now ?s) (ut_tick ?s + 1) (announce_packet 3 5 ?args 9 port) 98 duo_reply 4" for port
    unfolding fields by (simp add: exchange_ends_def duo_tracker_def demo_udp_env_def from_secs_def)
  obtain r s' where run: "send_announce vec_buf ?env ?args ?d ?s = (r, s')" by (metis surj_pair)
  have "r = announce_reply 5 duo_reply"
    using vec.send_announce_run [OF _ _ _ env(2) _ run, of 5 duo_reply 4] fields env(1) ends by simp
  also have "\<dots> = Ok ([(0, 0)], 7)"
  proof -
    have "compact_peers [0, 0, 0, 0, 0, 0] = [(0, 0)]"
      by (simp add: compact_peers_def chunks_exact.simps peer_of_bytes_def from_be_def)
    then show ?thesis by (simp add: announce_reply_def duo_reply_def from_be_def action_announce_def)
  qed
  finally show ?thesis using announce_first [of vec_buf ?env ?args ?s] run by simp
qed

lemma duo_try:
  assumes "length ih = 20" and "length pid = 20"
  shows "try_tracker vec_buf [] duo_tracker ih pid 2 ''alive'' = Ok (Some [(0, 0)])"
    and "try_tracker vec_buf [] duo_tracker ih pid 2 ''dead'' = Ok None"
proof -
  show "try_tracker vec_buf [] duo_tracker ih pid 2 ''dead'' = Ok None"
    by (simp add: try_tracker_def udp_connect_def duo_tracker_def)
  obtain b where "udp_connect vec_buf [] (te_connect (duo_tracker ''alive'')) (te_udp (duo_tracker ''alive'')) ''alive'' =
     Ok ((new_tracker b 9 0)\<lparr>ut_conn_id := 3, ut_conn_id_ts := 2, ut_now := 2, ut_tick := 3,
       ut_sent := [to_be 8 protocol_id @ to_be 4 action_connect @ to_be 4 (5 :: u32)]\<rparr>)"
    using duo_connect by blast
  then show "try_tracker vec_buf [] duo_tracker ih pid 2 ''alive'' = Ok (Some [(0, 0)])"
    using duo_announced [OF assms] assms by (simp add: try_tracker_def)
qed

theorem pick_tracker_first_quality_witness:
  "pick_tracker vec_buf [] duo_tracker (replicate 20 7) (replicate 20 1) 2 [[''dead'', ''spare''], [''alive'']] = Ok [(0, 0)] \<and>
   pick_tracker vec_buf [] duo_tracker (replicate 20 7) (replicate 20 1) 2 [[''dead'', ''spare''], []] = Panic UnwrapFailed"
proof
  have len: "length (replicate 20 7 :: u8 list) = 20" "length (replicate 20 1 :: u8 list) = 20" by simp_all
  let ?skip = "passes_over vec_buf [] duo_tracker (replicate 20 7) (replicate 20 1) 2"
  have skip: "list_all ?skip [[''dead'', ''spare'']]"
    using iffD1 [OF try_tracker_iff(2) [OF HOL.refl] duo_try(2) [OF len]] by simp
  have pick: "picks vec_buf [] duo_tracker (replicate 20 7) (replicate 20 1) 2 [(0, 0)] [''alive'']"
    using iffD1 [OF try_tracker_iff(1) [OF HOL.refl] duo_try(1) [OF len]] by simp
  have "\<exists>before tier after. [[''dead'', ''spare''], [''alive'']] = before @ tier # after \<and>
      picks vec_buf [] duo_tracker (replicate 20 7) (replicate 20 1) 2 [(0, 0)] tier \<and> list_all ?skip before"
    by (intro exI [of _ "[[''dead'', ''spare'']]"] exI [of _ "[''alive'']"] exI [of _ "[]"] conjI pick skip) simp
  then show "pick_tracker vec_buf [] duo_tracker (replicate 20 7) (replicate 20 1) 2 [[''dead'', ''spare''], [''alive'']] = Ok [(0, 0)]"
    by (rule iffD2 [OF conjunct1 [OF pick_tracker_first_quality]])
  show "pick_tracker vec_buf [] duo_tracker (replicate 20 7) (replicate 20 1) 2 [[''dead'', ''spare''], []] = Panic UnwrapFailed"
    using conjunct2 [OF mp [OF conjunct2 [OF pick_tracker_first_quality] skip, of "[]"]] by simp
qed

lemma duo_begin:
  "begin_download vec_buf [] duo_tracker (\<lambda>i. Ok []) (env_sha1 demo_env) (unit_peer 192) (replicate 20 1) duo_torrent =
     Ok (unit_start 2 duo_peers)"
proof -
  have hash: "info_hash_of (\<lambda>i. Ok []) (env_sha1 demo_env) (unit_info 2) = Ok (replicate 20 7)"
    by (simp add: info_hash_of_def demo_env_with_def)
  have len: "length (replicate 20 7 :: u8 list) = 20" "length (replicate 20 1 :: u8 list) = 20" by simp_all
  have "pick_tracker vec_buf [] duo_tracker (replicate 20 7) (replicate 20 1) 2 (announce_list duo_torrent) = Ok [(0, 0)]"
    using duo_try [OF len] by (simp add: duo_torrent_def)
  moreover have "total_length (unit_info 2) = Ok 2" by (simp add: total_length_def unit_info_def)
  moreover have "torrent_info duo_torrent = unit_info 2" by (simp add: duo_torrent_def)
  ultimately show ?thesis
    using hash duo_hyps(1) unit_begin [of 2 192 duo_peers "info_hash_of (\<lambda>i. Ok []) (env_sha1 demo_env)"] duo_seed
    by (simp add: begin_download_def)
qed

theorem downloaded_files_hold_content_witness:
  "concat (map snd (written [WriteFile ''out'' [1, 2]])) = [1, 2]"
proof -
  let ?ok = "calm_input (honest (torrent_info duo_torrent) [1, 2])"
  have i: "torrent_info duo_torrent = unit_info 2" by (simp add: duo_torrent_def)
  obtain s where s: "unit_reach 2 ?ok (unit_start 2 duo_peers) s" "outcome s = Some (Ok [1, 2])" "chan s = []"
    using duo_runs(2) [where ok = ?ok] duo_honest unfolding i by blast
  have "finish_download (\<lambda>ops op. True) ''out'' duo_torrent (Ok [1, 2]) [] = (Ok (), [WriteFile ''out'' [1, 2]])"
    by (simp add: finish_download_def i) (simp add: write_output_def unit_info_def)
  then have run: "download_command vec_buf [] duo_tracker (\<lambda>i. Ok []) (env_sha1 demo_env) (unit_peer 192) (\<lambda>n. demo_env) ?ok
      (\<lambda>ops op. True) (replicate 20 1) ''out'' duo_torrent s (Ok (), [WriteFile ''out'' [1, 2]])"
    unfolding download_command_def using duo_begin s(1,2) i
    by (intro exI [of _ "unit_start 2 duo_peers"] exI [of _ "Ok [1, 2]"]) simp
  have hyps: "wf_download (torrent_info duo_torrent)" "piece_count (torrent_info duo_torrent) mod 8 \<noteq> 0"
    "length [1, 2 :: u8] = content_length (info_download_type (torrent_info duo_torrent))"
    "\<forall>n::nat. ideal_env (torrent_info duo_torrent) [1, 2] demo_env \<and> env_sha1 demo_env = env_sha1 demo_env"
    "\<forall>ops op. (\<lambda>(ops :: fs_op list) (op :: fs_op). True) ops op"
    by (simp_all add: i duo_info_ok unit_ideal)
  from downloaded_files_hold_content [OF hyps run s(3)] show ?thesis by (rule conjunct1)
qed

end
