(* ===== verification/UnitTests.thy ===== *)
theory UnitTests
  imports Client
begin

text \<open>
  The unit tests of the repository, translated statement by statement and run on the model: each
  comes to \<open>Ok ()\<close>, that is, no assertion fails and nothing panics. A test whose code under test
  changes a value is a program over that value.
\<close>

section \<open>Assertions\<close>

definition assert_eq :: "'a \<Rightarrow> 'a \<Rightarrow> unit res" where
  "assert_eq left right = (if left = right then Ok () else Panic AssertFailed)"

definition asserts :: "bool res \<Rightarrow> unit res" where
  "asserts r = and_then r (assert_eq True)"

definition asserts_not :: "bool res \<Rightarrow> unit res" where
  "asserts_not r = and_then r (assert_eq False)"

fun all_of :: "unit res list \<Rightarrow> unit res" where
  "all_of [] = Ok ()"
| "all_of (r # rs) = and_then r (\<lambda>_. all_of rs)"

definition expects :: "('s, 'a) prog \<Rightarrow> 'a \<Rightarrow> ('s, unit) prog" where
  "expects m a = bnd m (\<lambda>b. lift (assert_eq a b))"

fun seq_of :: "('s, unit) prog list \<Rightarrow> ('s, unit) prog" where
  "seq_of [] = ret ()"
| "seq_of (m # ms) = bnd m (\<lambda>_. seq_of ms)"

lemma assert_eq_same [simp]: "assert_eq a a = Ok ()"
  by (simp add: assert_eq_def)

lemma expects_run: "m s = (Ok a, s') \<Longrightarrow> expects m a s = (Ok (), s')"
  by (simp add: expects_def)

section \<open>The bitfield\<close>

definition test_is_seed :: "unit res" where
  "test_is_seed = all_of
     [asserts (is_seed 8 [0xFF]),
      asserts (is_seed 6 [0xFC]),
      asserts_not (is_seed 11 [0xFF, 0xC0]),
      asserts (is_seed 11 [0xFF, 0xE0]),
      asserts_not (is_seed 16 [0xFF, 0xFE]),
      asserts (is_seed 16 [0xFF, 0xFF])]"

definition test_has :: "unit res" where
  "test_has =
     (let bitfield = from_vec 12 [0xAD, 0xC0] in
      all_of [asserts (has_piece bitfield 0), asserts_not (has_piece bitfield 1), asserts (has_piece bitfield 7),
        asserts (has_piece bitfield 9), asserts_not (has_piece bitfield 10)])"

definition test_set :: "unit res" where
  "test_set = fst (seq_of
     [set_piece 1, set_piece 2, set_piece 4, set_piece 0, expects (gets confirmed) 3]
     ((from_vec 8 [0x00])\<lparr>confirmed := 0\<rparr>))"

text \<open>The loop of a hundred picks, and the six parts of the test that each start with a new bitfield.\<close>

primrec pick_many :: "nat \<Rightarrow> u32 \<Rightarrow> (bitfield, unit) prog" where
  "pick_many 0 next = ret ()"
| "pick_many (Suc n) next =
     (let next = (next + 1) mod 8 in bnd (expects pick_piece (Some next)) (\<lambda>_. pick_many n next))"

definition picks_in_order :: "u32 option list \<Rightarrow> bitfield \<Rightarrow> unit res" where
  "picks_in_order ps b = fst (seq_of (map (expects pick_piece) ps) b)"

definition test_pick_piece :: "unit res" where
  "test_pick_piece = all_of
     [fst (pick_many 100 5 ((from_vec 8 [0x00])\<lparr>cur := 6, confirmed := 0\<rparr>)),
      picks_in_order [None, None, None] ((from_vec 8 [0x00])\<lparr>cur := 7, confirmed := 8\<rparr>),
      picks_in_order [Some 6, Some 7, Some 9] ((from_vec 12 [0x00, 0x80])\<lparr>cur := 6, confirmed := 0\<rparr>),
      picks_in_order [Some 5, Some 6, Some 7, Some 2, Some 3, Some 5] ((from_vec 8 [0xC8])\<lparr>cur := 5, confirmed := 2\<rparr>),
      picks_in_order [Some 4, Some 4, Some 4] ((from_vec 8 [0xF7])\<lparr>cur := 7, confirmed := 4\<rparr>),
      picks_in_order [Some 0, Some 1, Some 2] (from_vec 8 [0x00])]"

definition test_remaining :: "unit res" where
  "test_remaining = all_of
     [and_then (remaining (from_vec 8 [0xFF])) (assert_eq 0),
      and_then (remaining (from_vec 8 [0xFC])) (assert_eq 2),
      and_then (remaining (from_vec 12 [0xDB, 0xC0])) (assert_eq 4),
      and_then (remaining (zero_pieces 1931)) (assert_eq 1931)]"

lemma is_seed_tested: "test_is_seed = Ok ()"
  by (simp add: test_is_seed_def asserts_def asserts_not_def is_seed_def usize_sub_def usize_mul_def upt_rec
      piece_bucket_offset_def assert_eq_def)

lemma has_tested: "test_has = Ok ()"
  by (simp add: test_has_def asserts_def asserts_not_def has_piece_def piece_bucket_offset_def from_vec_def assert_eq_def)

lemma from_vec_bits: "from_vec n [x] = bits n x 0 0" "(bits n x c d)\<lparr>cur := c', confirmed := d'\<rparr> = bits n x c' d'"
  by (simp_all add: from_vec_def bits_def)

lemma set_tested: "test_set = Ok ()"
  by (simp add: test_set_def from_vec_bits bits_set bits_advance expects_def assert_eq_def)

text \<open>One turn of the search: a piece that is owned is passed over.\<close>

definition at_next :: "bitfield \<Rightarrow> bitfield" where
  "at_next b = b\<lparr>cur := next_cur b\<rparr>"

lemma pick_turn:
  assumes "confirmed b < total_pieces b" and "cur b + 1 < 2 ^ 64"
  shows "has_piece b (of_nat (cur b)) = Ok False \<Longrightarrow> pick_piece b = (Ok (Some (of_nat (cur b))), at_next b)"
    and "has_piece b (of_nat (cur b)) = Ok True \<Longrightarrow> pick_piece b = pick_piece (at_next b) \<or>
      fst (pick_piece b) = Hang \<and> fst (pick_piece (at_next b)) = Hang"
proof -
  have has: "has_piece (b\<lparr>cur := c\<rparr>) k = has_piece b k" for c k by (simp add: has_piece_def split: prod.split)
  have turn: "pick_loop b = (case has_piece b (of_nat (cur b)) of
      Ok mine \<Rightarrow> if \<not> mine then Some (Ok (Some (of_nat (cur b))), at_next b) else pick_loop (at_next b)
    | Err e \<Rightarrow> Some (Err e, at_next b) | Panic p \<Rightarrow> Some (Panic p, at_next b) | Hang \<Rightarrow> Some (Hang, at_next b))"
    using assms by (cases "has_piece b (of_nat (cur b))"; subst pick_loop.simps; simp add: Let_def has at_next_def next_cur_def)
  show "has_piece b (of_nat (cur b)) = Ok False \<Longrightarrow> pick_piece b = (Ok (Some (of_nat (cur b))), at_next b)"
    "has_piece b (of_nat (cur b)) = Ok True \<Longrightarrow> pick_piece b = pick_piece (at_next b) \<or>
      fst (pick_piece b) = Hang \<and> fst (pick_piece (at_next b)) = Hang"
    using turn assms by (simp_all add: pick_piece_def at_next_def split: option.split)
qed

lemma pick_many_run: "next < 8 \<Longrightarrow> fst (pick_many n next (bits 8 0 (unat ((next + 1) mod 8)) 0)) = Ok ()"
proof (induction n arbitrary: "next")
  case (Suc n)
  let ?k = "(next + 1) mod 8"
  have k: "?k < 8" "unat ?k < 8" using word_mod_less_divisor [of 8 "next + 1"] by (simp_all add: word_less_nat_alt)
  have step: "(if unat ?k + 1 = 8 then 0 else unat ?k + 1) = unat ((?k + 1) mod 8)"
    using k by (simp add: unat_mod unat_word_ariths)
  have "pick_piece (bits 8 0 (unat ?k) 0) = (Ok (Some ?k), bits 8 0 (unat ((?k + 1) mod 8)) 0)"
    using bits_pick [of 0 8 "unat ?k" 0] k(2) step by simp
  then have "pick_many (Suc n) next (bits 8 0 (unat ?k) 0) = pick_many n ?k (bits 8 0 (unat ((?k + 1) mod 8)) 0)"
    by (simp add: Let_def expects_run)
  then show ?case using Suc.IH [OF k(1)] by simp
qed simp

lemma pick_none: "total_pieces b \<le> confirmed b \<Longrightarrow> pick_piece b = (Ok None, b)"
  by (simp add: pick_piece_def pick_loop.simps [of b])

lemma picks_nil: "picks_in_order [] b = Ok ()"
  and picks_cons: "pick_piece b = (Ok p, b') \<Longrightarrow> picks_in_order (p # ps) b = picks_in_order ps b'"
  by (simp_all add: picks_in_order_def expects_run)

lemmas eval_picks = at_next_def next_cur_def from_vec_def has_piece_def piece_bucket_offset_def

lemma picks_found:
  "confirmed b < total_pieces b \<Longrightarrow> cur b + 1 < 2 ^ 64 \<Longrightarrow> has_piece b (of_nat (cur b)) = Ok False \<Longrightarrow>
   p = of_nat (cur b) \<Longrightarrow> picks_in_order (Some p # ps) b = picks_in_order ps (at_next b)"
  using pick_turn(1) picks_cons by metis

lemma picks_passed:
  "confirmed b < total_pieces b \<Longrightarrow> cur b + 1 < 2 ^ 64 \<Longrightarrow> has_piece b (of_nat (cur b)) = Ok True \<Longrightarrow>
   picks_in_order (p # ps) b = picks_in_order (p # ps) (at_next b)"
  using pick_turn(2) [of b]
  by (auto simp: picks_in_order_def expects_def bnd_def split: prod.split)

lemma pick_piece_tested: "test_pick_piece = Ok ()"
proof -
  have "fst (pick_many 100 5 ((from_vec 8 [0x00])\<lparr>cur := 6, confirmed := 0\<rparr>)) = Ok ()"
    using pick_many_run [of 5 100] by (simp add: from_vec_bits)
  moreover have "picks_in_order [None, None, None] ((from_vec 8 [0x00])\<lparr>cur := 7, confirmed := 8\<rparr>) = Ok ()"
    by (simp add: picks_cons [OF pick_none] picks_nil from_vec_def)
  moreover have "picks_in_order [Some 6, Some 7, Some 9] ((from_vec 12 [0x00, 0x80])\<lparr>cur := 6, confirmed := 0\<rparr>) = Ok ()"
    by (simp add: picks_found picks_passed picks_nil eval_picks)
  moreover have "picks_in_order [Some 5, Some 6, Some 7, Some 2, Some 3, Some 5] ((from_vec 8 [0xC8])\<lparr>cur := 5, confirmed := 2\<rparr>) = Ok ()"
    by (simp add: picks_found picks_passed picks_nil eval_picks)
  moreover have "picks_in_order [Some 4, Some 4, Some 4] ((from_vec 8 [0xF7])\<lparr>cur := 7, confirmed := 4\<rparr>) = Ok ()"
    by (simp add: picks_found picks_passed picks_nil eval_picks)
  moreover have "picks_in_order [Some 0, Some 1, Some 2] (from_vec 8 [0x00]) = Ok ()"
    by (simp add: picks_found picks_passed picks_nil eval_picks)
  ultimately show ?thesis by (simp add: test_pick_piece_def)
qed

lemma remaining_tested: "test_remaining = Ok ()"
proof -
  have "count_ones 255 = 8" "count_ones 252 = 6" "count_ones 219 = 6" "count_ones 192 = 2" by code_simp+
  moreover have "remaining (zero_pieces 1931) = Ok 1931"
  proof -
    have inv: "bf_inv (zero_pieces 1931)" by (rule bf_inv_zero)
    have "ring (zero_pieces 1931) = [0..<1931]" by (simp add: ring_def) (simp add: zero_pieces_def)
    then show ?thesis using remaining_ring [OF inv] by simp
  qed
  ultimately show ?thesis
    by (simp add: test_remaining_def remaining_def from_vec_def add_chk_def sub_chk_def)
qed

section \<open>The codec of messages\<close>

text \<open>\<open>codec_tests!\<close>: a message is encoded into an fresh buffer, decoded from it, and compared.\<close>

definition unwrap :: "'a res \<Rightarrow> 'a res" where
  "unwrap r = (case r of Err e \<Rightarrow> Panic UnwrapFailed | _ \<Rightarrow> r)"

definition unwrap_some :: "'a option \<Rightarrow> 'a res" where
  "unwrap_some x = (case x of None \<Rightarrow> Panic UnwrapFailed | Some a \<Rightarrow> Ok a)"

definition codec_test :: "'b buf_api \<Rightarrow> 'b \<Rightarrow> message \<Rightarrow> unit res" where
  "codec_test B fresh msg_sent =
     (case encode_message B msg_sent fresh of (r, buf) \<Rightarrow>
        and_then (unwrap r) (\<lambda>_.
        and_then (unwrap (fst (decode_message B buf))) (\<lambda>msg.
        and_then (unwrap_some msg) (assert_eq msg_sent))))"

definition codec_cases :: "message list" where
  "codec_cases =
     [Choke, Unchoke, Interested, NotInterested, Have 2, BitfieldMsg [1, 0, 1, 0, 1, 0, 0, 0],
      Request 3 16384 32768, Piece 3 16384 [1, 1, 1, 1, 0, 0, 0, 0], Cancel 3 16384 100000]"

definition codec_tests :: "'b buf_api \<Rightarrow> 'b \<Rightarrow> unit res" where
  "codec_tests B fresh = all_of (map (codec_test B fresh) codec_cases)"

lemma codec_test_run:
  assumes "bytes_mut B" and "buf_bytes B b = []" and "fits_frame m"
  shows "codec_test B b m = Ok ()"
proof -
  obtain b1 where b1: "encode_message B m b = (Ok (), b1)" "buf_bytes B b1 = message_frame m @ []"
    using bytes_mut.encode_message_run [OF assms(1,3), of b] assms(2) by auto
  then obtain b2 where "decode_message B b1 = (Ok (Some m), b2)"
    using bytes_mut.decode_message_run [OF assms(1,3)] by blast
  with b1(1) show ?thesis by (simp add: codec_test_def unwrap_def unwrap_some_def)
qed

lemma codec_tested:
  assumes "bytes_mut B" and "buf_bytes B fresh = []"
  shows "codec_tests B fresh = Ok ()"
  by (simp add: codec_tests_def codec_cases_def codec_test_run [OF assms] fits_frame_def)

section \<open>The two decoders\<close>

definition parsed :: "(u8 list \<times> bvalue) res \<Rightarrow> bvalue \<Rightarrow> u8 list \<Rightarrow> unit res" where
  "parsed r val left =
     and_then (unwrap r) (\<lambda>(remaining, v). all_of [assert_eq v val, and_then (unwrap (str_from_utf8 remaining)) (assert_eq left)])"

definition is_err :: "'a res \<Rightarrow> bool res" where
  "is_err r = (case r of Ok a \<Rightarrow> Ok False | Err e \<Rightarrow> Ok True | Panic p \<Rightarrow> Panic p | Hang \<Rightarrow> Hang)"

abbreviation "hello \<equiv> VString (ascii_bytes ''hello'')"
abbreviation "unparsed \<equiv> ascii_bytes ''unparsed''"
abbreviation "sample_map \<equiv> VMap [(ascii_bytes ''apple'', VInt (- 23)), (ascii_bytes ''foo'', VString (ascii_bytes ''bar'')),
  (ascii_bytes ''hello'', VInt 52)]"

definition plain_tests :: "unit res" where
  "plain_tests = all_of
     [parsed (plain_decode (ascii_bytes ''5:hellounparsed'')) hello unparsed,
      parsed (plain_decode (ascii_bytes ''i-326eunparsed'')) (VInt (- 326)) unparsed,
      parsed (plain_decode (ascii_bytes ''l5:helloi52eeunparsed'')) (VList [hello, VInt 52]) unparsed,
      parsed (plain_decode (ascii_bytes ''d5:applei-23e3:foo3:bar5:helloi52eeunparsed'')) sample_map unparsed]"

definition nom_tests :: "nom_api \<Rightarrow> unit res" where
  "nom_tests N = all_of
     [asserts (is_err (nom_decode N (ascii_bytes ''5hi:hellounparsed''))),
      parsed (nom_decode N (ascii_bytes ''5:hellounparsed'')) hello unparsed,
      parsed (nom_decode N (ascii_bytes ''i-326eunparsed'')) (VInt (- 326)) unparsed,
      asserts (is_err (nom_decode N (ascii_bytes ''i3a3eunparsed''))),
      parsed (nom_decode N (ascii_bytes ''l5:helloi52eeunparsed'')) (VList [hello, VInt 52]) unparsed,
      asserts (is_err (nom_decode N (ascii_bytes ''l5:helloi5h2ee''))),
      parsed (nom_decode N (ascii_bytes ''d5:applei-23e3:foo3:bar5:helloi52eeunparsed'')) sample_map unparsed,
      asserts (is_err (nom_decode N (ascii_bytes ''d5:applee'')))]"

lemma plain_decodes: "value_ok v \<Longrightarrow> length (bencode v) < 2 ^ 64 \<Longrightarrow> plain_decode (bencode v @ rest) = Ok (rest, v)"
  using decodes_all [of v] unfolding decodes_def plain_decode_def by simp

lemma plain_test_runs:
  "plain_decode (ascii_bytes ''5:hellounparsed'') = Ok (unparsed, hello)"
  "plain_decode (ascii_bytes ''i-326eunparsed'') = Ok (unparsed, VInt (- 326))"
  "plain_decode (ascii_bytes ''l5:helloi52eeunparsed'') = Ok (unparsed, VList [hello, VInt 52])"
  "plain_decode (ascii_bytes ''d5:applei-23e3:foo3:bar5:helloi52eeunparsed'') = Ok (unparsed, sample_map)"
proof -
  have v: "value_ok hello" "value_ok (VInt (- 326))" "value_ok (VList [hello, VInt 52])" "value_ok sample_map"
    by (simp_all add: utf8_valid.simps utf8_step_ascii ascii_bytes_def)
  have b: "bencode hello = ascii_bytes ''5:hello''" "bencode (VInt (- 326)) = ascii_bytes ''i-326e''"
    "bencode (VList [hello, VInt 52]) = ascii_bytes ''l5:helloi52ee''"
    "bencode sample_map = ascii_bytes ''d5:applei-23e3:foo3:bar5:helloi52ee''"
    by (simp_all add: bencode_string_def dec_int_def dec.simps ascii_bytes_def)
  show "plain_decode (ascii_bytes ''5:hellounparsed'') = Ok (unparsed, hello)"
    using plain_decodes [OF v(1), of unparsed] unfolding b by (simp add: ascii_bytes_def)
  show "plain_decode (ascii_bytes ''i-326eunparsed'') = Ok (unparsed, VInt (- 326))"
    using plain_decodes [OF v(2), of unparsed] unfolding b by (simp add: ascii_bytes_def)
  show "plain_decode (ascii_bytes ''l5:helloi52eeunparsed'') = Ok (unparsed, VList [hello, VInt 52])"
    using plain_decodes [OF v(3), of unparsed] unfolding b by (simp add: ascii_bytes_def)
  show "plain_decode (ascii_bytes ''d5:applei-23e3:foo3:bar5:helloi52eeunparsed'') = Ok (unparsed, sample_map)"
    using plain_decodes [OF v(4), of unparsed] unfolding b by (simp add: ascii_bytes_def)
qed

lemma parsed_run: "parsed (Ok (unparsed, v)) v unparsed = Ok ()"
  by (simp add: parsed_def unwrap_def str_from_utf8_def utf8_valid.simps utf8_step_ascii ascii_bytes_def)

lemma plain_tested: "plain_tests = Ok ()"
  unfolding plain_tests_def plain_test_runs by (simp add: parsed_run)

context nom_combinators
begin

lemma string_at:
  assumes "utf8_valid s" and "length s < 2 ^ 64"
  shows "nom_string N (bencode_string s @ rest) = Ok (rest, s)"
  by (rule plain_key [OF decode_plain_string [OF assms, of 0]])

lemma word_at:
  "nom_string N (ascii_bytes ''5:hello'' @ rest) = Ok (rest, ascii_bytes ''hello'')"
  "nom_string N (ascii_bytes ''5:apple'' @ rest) = Ok (rest, ascii_bytes ''apple'')"
proof -
  have "utf8_valid (ascii_bytes ''hello'')" "utf8_valid (ascii_bytes ''apple'')"
    by (simp_all add: utf8_valid.simps utf8_step_ascii ascii_bytes_def)
  moreover have "bencode_string (ascii_bytes ''hello'') = ascii_bytes ''5:hello''"
    "bencode_string (ascii_bytes ''apple'') = ascii_bytes ''5:apple''"
    by (simp_all add: bencode_string_def dec.simps ascii_bytes_def)
  ultimately show "nom_string N (ascii_bytes ''5:hello'' @ rest) = Ok (rest, ascii_bytes ''hello'')"
    "nom_string N (ascii_bytes ''5:apple'' @ rest) = Ok (rest, ascii_bytes ''apple'')"
    using string_at [of "ascii_bytes ''hello''"] string_at [of "ascii_bytes ''apple''"] by (simp_all add: ascii_bytes_def)
qed

text \<open>Two inputs are refused at the byte after the first digits, two where a repetition stops too early.\<close>

lemmas eval_nom = first_simps ends_not_digit nom_string_def parse_len_u64 p_map_res_def p_terminated_def p_digit1_def is_digit_def
  p_char_def str_from_utf8_def utf8_valid.simps utf8_step_ascii p_delimited_def p_i64_def p_sign_def digits_value_def word_le_nat_alt
  ascii_bytes_def

lemma refused_first:
  "nom_decode_fuel N (Suc n) (ascii_bytes ''5hi:hellounparsed'') = Err ParseFailed"
  "nom_decode_fuel N (Suc n) (ascii_bytes ''i3a3eunparsed'') = Err ParseFailed"
  "nom_decode_fuel N (Suc n) (ascii_bytes ''i5h2ee'') = Err ParseFailed"
  by (simp_all add: eval_nom)

lemma delimited_end: "q bytes = Ok (rest, a) \<Longrightarrow> rest = [] \<or> hd rest \<noteq> c \<Longrightarrow> p_delimited (p_char b) q (p_char c) (b # bytes) = Err ParseFailed"
  by (cases rest) (simp_all add: p_delimited_def p_terminated_def p_char_def)

lemma refused_list: "nom_decode_fuel N (Suc (Suc n)) (ascii_bytes ''l5:helloi5h2ee'') = Err ParseFailed"
proof -
  let ?i = "ascii_bytes ''i5h2ee''" and ?s = "ascii_bytes ''5:hello''"
  let ?fold = "p_fold_many0 (nom_decode_fuel N (Suc n)) (\<lambda>acc a. acc @ [a])"
  have "nom_decode_fuel N (Suc n) (?s @ ?i) = Ok (?i, hello)"
    using decode_string_case [of 53 "tl ?s @ ?i" ?i _ n] word_at(1) [of ?i] by (simp add: ascii_bytes_def is_digit_def word_le_nat_alt)
  from fold_step [where p = "nom_decode_fuel N (Suc n)" and f = "\<lambda>acc a. acc @ [a]" and acc = "[]", OF this] have "?fold [] (?s @ ?i) = ?fold [hello] ?i"
    by (simp add: ascii_bytes_def)
  also have "\<dots> = Ok (?i, [hello])" by (rule fold_stop [where p = "nom_decode_fuel N (Suc n)"]) (rule refused_first(3))
  finally have "p_delimited (p_char 108) (?fold []) (p_char 101) (108 # ?s @ ?i) = Err ParseFailed"
    by (rule delimited_end) (simp add: ascii_bytes_def)
  moreover have "ascii_bytes ''l5:helloi5h2ee'' = 108 # ?s @ ?i" by (simp add: ascii_bytes_def)
  ultimately show ?thesis by (simp add: decode_Suc [of "Suc n"]) (simp add: eval_nom del: decode_Suc)
qed

lemma refused_dict: "nom_decode_fuel N (Suc (Suc n)) (ascii_bytes ''d5:applee'') = Err ParseFailed"
proof -
  let ?s = "ascii_bytes ''5:applee''"
  have "nom_string N ?s = Ok ([101], ascii_bytes ''apple'')" using word_at(2) [of "[101]"] by (simp add: ascii_bytes_def)
  then have "p_pair (nom_string N) (nom_decode_fuel N (Suc n)) ?s = Err ParseFailed"
    by (simp add: p_pair_def decode_at_e)
  then have "dict_loop (Suc n) [] ?s = Ok (?s, [])"
    by (rule fold_stop [where p = "p_pair (nom_string N) (nom_decode_fuel N (Suc n))"])
  then have "p_delimited (p_char 100) (dict_loop (Suc n) []) (p_char 101) (100 # ?s) = Err ParseFailed"
    by (rule delimited_end) (simp add: ascii_bytes_def)
  moreover have "ascii_bytes ''d5:applee'' = 100 # ?s" by (simp add: ascii_bytes_def)
  ultimately show ?thesis by (simp add: decode_Suc [of "Suc n"]) (simp add: eval_nom del: decode_Suc)
qed

lemma refused:
  "nom_decode N (ascii_bytes ''5hi:hellounparsed'') = Err ParseFailed" "nom_decode N (ascii_bytes ''i3a3eunparsed'') = Err ParseFailed"
  "nom_decode N (ascii_bytes ''l5:helloi5h2ee'') = Err ParseFailed" "nom_decode N (ascii_bytes ''d5:applee'') = Err ParseFailed"
proof -
  have "length (ascii_bytes s) = length s" for s by (simp add: ascii_bytes_def)
  then show "nom_decode N (ascii_bytes ''5hi:hellounparsed'') = Err ParseFailed" "nom_decode N (ascii_bytes ''i3a3eunparsed'') = Err ParseFailed"
    "nom_decode N (ascii_bytes ''l5:helloi5h2ee'') = Err ParseFailed" "nom_decode N (ascii_bytes ''d5:applee'') = Err ParseFailed"
    using refused_first(1) [of 17] refused_first(2) [of 13] refused_list [of 13] refused_dict [of 8]
    unfolding nom_decode_def by (simp_all only: length_Cons list.size add_0_right Suc_eq_plus1) (simp_all add: numeral_eq_Suc)
qed

lemma nom_tested: "nom_tests N = Ok ()"
proof -
  note runs = plain_test_runs [THEN nom_accepts]
  show ?thesis unfolding nom_tests_def runs refused by (simp add: parsed_run asserts_def is_err_def)
qed

end

section \<open>Writing files\<close>

text \<open>
  The test reads the files back: what was last written at a path. The temporary directory is a
  parameter.
\<close>

definition read_back :: "fs_op list \<Rightarrow> string \<Rightarrow> u8 list res" where
  "read_back ops path = (case map_of (rev (written ops)) path of None \<Rightarrow> Panic UnwrapFailed | Some bytes \<Rightarrow> Ok bytes)"

definition test_write :: "fs_env \<Rightarrow> string \<Rightarrow> unit res" where
  "test_write fs_ok dir =
     (let dl_type = MultiFile
        [\<lparr>tf_length = 4, tf_path = [''path'', ''to'', ''file1.txt'']\<rparr>,
         \<lparr>tf_length = 6, tf_path = [''path'', ''file2.txt'']\<rparr>,
         \<lparr>tf_length = 3, tf_path = [''file3.txt'']\<rparr>];
          file_bytes = [1, 1, 1, 1, 2, 2, 2, 2, 2, 2, 3, 3, 3]
      in case write_output fs_ok dir dl_type file_bytes [] of (r, ops) \<Rightarrow>
        and_then (unwrap r) (\<lambda>_. all_of
          [and_then (read_back ops (join_path dir ''path/to/file1.txt'')) (assert_eq [1, 1, 1, 1]),
           and_then (read_back ops (join_path dir ''path/file2.txt'')) (assert_eq [2, 2, 2, 2, 2, 2]),
           and_then (read_back ops (join_path dir ''file3.txt'')) (assert_eq [3, 3, 3])]))"

lemma join_same: "\<not> is_absolute p \<Longrightarrow> \<not> is_absolute q \<Longrightarrow> join_path dir p = join_path dir q \<longleftrightarrow> p = q"
  by (simp add: join_path_def push_path_def)

lemma write_tested:
  assumes "\<forall>ops op. fs_ok ops op"
  shows "test_write fs_ok dir = Ok ()"
proof -
  let ?fs = "[\<lparr>tf_length = 4, tf_path = [''path'', ''to'', ''file1.txt'']\<rparr>, \<lparr>tf_length = 6, tf_path = [''path'', ''file2.txt'']\<rparr>,
    \<lparr>tf_length = 3, tf_path = [''file3.txt'']\<rparr>]"
  let ?v = "[1, 1, 1, 1, 2, 2, 2, 2, 2, 2, 3, 3, 3] :: u8 list"
  have paths: "map (file_path_of dir) ?fs =
      [join_path dir ''path/to/file1.txt'', join_path dir ''path/file2.txt'', join_path dir ''file3.txt'']"
    by (simp add: file_path_of_def make_file_path_def push_path_def is_absolute_def)
  have parts: "split_files ?fs ?v = [[1, 1, 1, 1], [2, 2, 2, 2, 2, 2], [3, 3, 3]]" by simp
  obtain ops where ops: "write_files fs_ok dir ?v 0 ?fs [] = (Ok (), ops)"
    "written ops = zip (map (file_path_of dir) ?fs) (split_files ?fs ?v)"
    using write_files_run [of fs_ok ?v 0 ?fs dir "[]"] assms by (auto simp: file_sizes_def)
  have written: "written ops = [(join_path dir ''path/to/file1.txt'', [1, 1, 1, 1]),
      (join_path dir ''path/file2.txt'', [2, 2, 2, 2, 2, 2]), (join_path dir ''file3.txt'', [3, 3, 3])]"
    unfolding ops(2) paths parts by simp
  have rel: "\<not> is_absolute ''path/to/file1.txt''" "\<not> is_absolute ''path/file2.txt''" "\<not> is_absolute ''file3.txt''"
    by (simp_all add: is_absolute_def)
  show ?thesis
    using ops(1) written unfolding test_write_def Let_def write_output_def
    by (simp add: unwrap_def read_back_def join_same rel del: write_files.simps)
qed

section \<open>All of them\<close>

text \<open>Every test passes, for every buffer and every combinators that behave as documented, where files can be written.\<close>

lemma unit_tests_pass:
  assumes "bytes_mut B" and "buf_bytes B fresh = []" and "nom_combinators N" and "\<forall>ops op. fs_ok ops op"
  shows "all_of [test_is_seed, test_has, test_set, test_pick_piece, test_remaining, codec_tests B fresh, plain_tests,
    nom_tests N, test_write fs_ok dir] = Ok ()"
  by (simp add: is_seed_tested has_tested set_tested pick_piece_tested remaining_tested codec_tested [OF assms(1,2)]
      plain_tested nom_combinators.nom_tested [OF assms(3)] write_tested [OF assms(4)])

end
