(* ===== verification/Spec2Isabelle.thy ===== *)
theory Spec2Isabelle
  imports Prelude Bitfield ByteBuf Handshake PeerMsg MetaInfo Downloader Pipeline Tasks SeedRun BrokenLink Session
    SessionInv UnitTorrent SessionRun Deadlock Progress Utf8 Decimal Bencode Nom Peers Udp Http FileWrite Client UnitTests
begin

text \<open>
  A verification development for a BitTorrent client written in Rust (\<open>src/\<close>).

  The program. The command \<open>download\<close> (\<open>main.rs\<close>) reads a torrent file, picks a UDP tracker,
  announces itself, and hands the addresses it gets to a download (\<open>download/mod.rs\<close>): up to five
  peers that have every piece become tasks that share one bitfield of owned pieces; each keeps a
  pipeline of block requests, checks the hash of a finished piece and sends it through a bounded
  channel to the loop that assembles the content; at the end the files are written
  (\<open>file/mod.rs\<close>). The command \<open>decode\<close> prints a bencoded value.

  Which theory models what. Names of definitions are those of the code, with a suffix or prefix
  where the name is taken.
  \<^item> \<open>Prelude\<close>: machine integers, outcomes (value, error, panic, no outcome), programs over a
    mutable state, checked arithmetic, byte order, chunks. Arithmetic overflows panic, as in the
    development profile of Cargo.
  \<^item> \<open>Bitfield\<close>: \<open>download/bitfield.rs\<close>. The record has the four fields of \<open>Bitfield\<close>; \<open>bf_inv\<close> is
    its invariant and \<open>ring\<close> the order in which missing pieces are offered.
  \<^item> \<open>ByteBuf\<close>: what the crate \<open>bytes\<close> promises (locale \<open>bytes_mut\<close>, interpreted on \<open>vec_buf\<close>) and
    the interface of a codec to a stream (locale \<open>frame_codec\<close>, interpreted on both codecs).
  \<^item> \<open>Handshake\<close> and \<open>PeerMsg\<close>: the codecs of \<open>download/handshake.rs\<close> and \<open>download/peer_msg.rs\<close>.
  \<^item> \<open>MetaInfo\<close>: the types of \<open>bencode/meta_info.rs\<close>, the division of the content into pieces, the
    conversion of the piece hashes.
  \<^item> \<open>Downloader\<close>: \<open>SeedDownloader\<close> of \<open>download/mod.rs\<close>; one definition per method and handler. The
    connection and the channel are the lists of what was written, with success a parameter.
  \<^item> \<open>Pipeline\<close>: the invariants of the downloader (\<open>hash_inv\<close>, \<open>pipe_inv\<close>, \<open>calm\<close>) and that every
    operation keeps them. \<open>Tasks\<close>: the loop \<open>SeedDownloader::download\<close> as a machine (\<open>task_step\<close>) whose
    points are the places at which other tasks may run, with its refinement of the code of one
    round (\<open>uninterrupted_round\<close>). \<open>SeedRun\<close>: the runs of one task and their properties.
    \<open>BrokenLink\<close>: what a write that fails leaves behind.
  \<^item> \<open>Session\<close>: \<open>File\<close> of \<open>download/mod.rs\<close>: the choice of seeds, the tasks, the lock on the
    bitfield, the channel and the receiving loop, as a step relation. \<open>SessionInv\<close>: \<open>lock_ok\<close>,
    \<open>session_inv\<close> and \<open>ideal_inv\<close>, kept by every step. \<open>UnitTorrent\<close>: concrete sessions over one-byte
    pieces. \<open>SessionRun\<close>: what holds in every reachable state, and a run of two pieces.
    \<open>Deadlock\<close>: who waits for whom. \<open>Progress\<close>: a measure that every step of a session makes
    smaller whose seeds answer, and what keeps such a session from standing still.
  \<^item> \<open>Utf8\<close> and \<open>Decimal\<close>: the parts of the standard library the parsers use. \<open>Bencode\<close>:
    \<open>bencode/plain.rs\<close> and the values of \<open>bencode/mod.rs\<close>. \<open>Nom\<close>: \<open>bencode/nom.rs\<close> and the choice
    of a decoder, over what the crate \<open>nom\<close> promises (locale \<open>nom_combinators\<close>, interpreted on
    \<open>ref_nom\<close>).
  \<^item> \<open>Peers\<close>: \<open>tracker/peers.rs\<close> and the loop over peers of \<open>tracker/udp.rs\<close>. \<open>Udp\<close>: the rest of
    \<open>tracker/udp.rs\<close>, with a clock. \<open>Http\<close>: \<open>tracker/http.rs\<close>.
  \<^item> \<open>FileWrite\<close>: \<open>file/mod.rs\<close>. \<open>Client\<close>: \<open>main.rs\<close>, which puts the parts together; \<open>main_run\<close> is
    the program.
  \<^item> \<open>UnitTests\<close>: the unit tests of \<open>bitfield.rs\<close>, \<open>peer_msg.rs\<close>, \<open>plain.rs\<close>, \<open>nom.rs\<close> and
    \<open>file/mod.rs\<close>, translated, and that they pass on the model.

  What the lemmas show. The bitfield offers every missing piece once and counts what is missing;
  marking a piece refines the set of owned pieces, up to one panic, which strikes when the number of pieces
  is a multiple of eight and the last one is marked. Messages and handshakes survive the wire, well-formed
  messages in any chunks; what becomes of a malformed frame is stated for every type. In every run of
  a task only validated pieces reach the channel. As long as every write to the peer succeeds, requests
  are well formed, and the bookkeeping of the pipeline is exact if no choke hits outstanding requests;
  a write that fails can leave blocks behind that belong to no piece. In every session the assembled
  bytes consist of validated pieces and zeros. When, besides, the seeds are honest and calm, the links work and
  the number of pieces is no multiple of eight, what is returned is the content up to pieces that
  are still in the channel, and the command writes it to the files of the torrent if the file system
  works. A session can get stuck in one way only, a circle of lock and channel, and it does; apart
  from it, seeds that answer what they are asked over such links bring every such session to its end,
  within a number of steps given by the number of blocks. Seeds are chosen by the bits of
  their bitfields, trackers by the seeders they name. The hand-written decoder ends on every input
  and inverts the encoding; the combinator decoder accepts all it accepts, and never panics. An
  announcement ends within 165 seconds and is a function of the reply. Errors of the code are theorems
  too: the manifest lists them.

  Interleaving. The steps of a session are what happens between two points at which a task can be
  suspended and another one can be noticed: waiting for the lock on the bitfield, for the timer or
  the stream, and for room in the channel. What a task does to its own state and its own connection
  between two such points is one step. The lock is that of \<open>tokio\<close>, which is documented to be handed
  on in the order of the requests: \<open>lock_queue\<close>, whose head is the holder. The channel of \<open>kanal\<close> is a
  queue of five places; sending waits for a place, receiving for a message or for the end of all
  senders. All tasks of a session exist from its start, and the receiving loop may be arbitrarily
  slow: this covers the time in which later seeds are still being checked and the loop has not
  begun. Tasks that go on after the download has returned are not modelled.

  Fuel and loops. \<open>pick_loop\<close> is a partial function with \<open>None\<close> for a loop that does not end, and
  shown to end on every well-formed bitfield. The hand-written decoder starts with \<open>2 * n + 2\<close>
  units of fuel for \<open>n\<close> bytes and is shown never to use them up: each unit goes with a byte or
  with the entry of a loop; the combinator decoder needs one for each level of nesting, and has
  \<open>n + 1\<close>. All other loops are structural or end by a measure.

  Parameters. Code that is not in the repository enters as arguments: buffers (\<open>buf_api\<close>), the
  environment of a task (\<open>env\<close>), of a peer before it is a task (\<open>peer_env\<close>), of a tracker (\<open>udp_env\<close>,
  \<open>connect_env\<close>, \<open>http_env\<close>), the file system (\<open>fs_env\<close>), hash functions, serializers and the
  combinators of the crate \<open>nom\<close> (\<open>nom_api\<close>). Hypotheses on them are named: \<open>bytes_mut\<close>, \<open>nom_combinators\<close>, \<open>link_up\<close> (writes to a peer succeed),
  \<open>order_ok\<close> (a map is iterated over its keys), \<open>ideal_env\<close>, \<open>hex_spec\<close>.

  Not modelled: derived instances of \<open>serde\<close>, and the tests of \<open>meta_info.rs\<close>, which run nothing else
  but these and the crate \<open>serde_bencode\<close>; the parsing of the command line (\<open>clap\<close>) and printing; the
  commented-out code; fixtures. Running out of memory or stack is not modelled, nor is what a failed
  write leaves on the disk. The room a buffer has for a datagram is not tracked: what \<open>recv_buf\<close>
  delivers is given by the environment. Symbolic links are not followed when a path is located. The interval of the keep-alive timer does not appear, since the timer may
  fire at any time.
\<close>

end
